(* ===== verification/Prelude.thy ===== *)
theory Prelude
  imports Main "HOL-Library.Word" "HOL-Library.Monad_Syntax"
begin

text \<open>
  Shared vocabulary of the development: the machine types of the C code, the C conversions and
  operators whose meaning differs from HOL's, and the option type read as "the C execution is
  defined". A function whose C original can divide by zero, read or write outside an array or
  follow a null pointer returns an option: \<open>None\<close> is undefined behaviour (or a trap), and the
  safety lemmas of the components show that it does not occur.

  A pointer parameter that the code compares with NULL is an \<open>option\<close> argument; whether an
  allocation succeeds is a \<open>bool\<close> argument (one per allocation, in program order), because the
  allocator is outside the sources.
\<close>

section \<open>Machine types and conversions\<close>

type_synonym u8 = "8 word"
type_synonym u32 = "32 word"
type_synonym u64 = "64 word"

text \<open>Conversion of an integer value to C's 32-bit \<open>int\<close> (two's complement).\<close>

definition to_int32 :: "int \<Rightarrow> int" where
  "to_int32 x = (x + 2 ^ 31) mod 2 ^ 32 - 2 ^ 31"

text \<open>C's addition on \<open>int\<close>: signed overflow is undefined.\<close>

definition c_add :: "int \<Rightarrow> int \<Rightarrow> int option" where
  "c_add a b = (if - (2 ^ 31) \<le> a + b \<and> a + b < 2 ^ 31 then Some (a + b) else None)"

text \<open>C's remainder: it has the sign of the dividend; a zero divisor traps.\<close>

definition c_rem :: "int \<Rightarrow> int \<Rightarrow> int option" where
  "c_rem a b = (if b = 0 then None else Some (sgn a * (\<bar>a\<bar> mod \<bar>b\<bar>)))"

text \<open>Array reads and writes: an index outside the array is undefined.\<close>

definition aget :: "'a list \<Rightarrow> int \<Rightarrow> 'a option" where
  "aget xs i = (if 0 \<le> i \<and> i < int (length xs) then Some (xs ! nat i) else None)"

definition aset :: "'a list \<Rightarrow> int \<Rightarrow> 'a \<Rightarrow> 'a list option" where
  "aset xs i v = (if 0 \<le> i \<and> i < int (length xs) then Some (xs[nat i := v]) else None)"

text \<open>\<open>realloc\<close> of an array to \<open>n\<close> entries: the old ones are kept, new ones hold \<open>v\<close>.\<close>

definition c_realloc :: "'a \<Rightarrow> nat \<Rightarrow> 'a list \<Rightarrow> 'a list" where
  "c_realloc v n xs = take n xs @ replicate (n - length xs) v"

section \<open>Collections of simplification rules\<close>

named_theorems c_ops \<open>the meaning of C operators in range\<close>
named_theorems model_defs \<open>definitions of straight-line operations, for unfolding\<close>

lemma to_int32_id [c_ops]: "- (2 ^ 31) \<le> x \<Longrightarrow> x < 2 ^ 31 \<Longrightarrow> to_int32 x = x"
  by (simp add: to_int32_def)

lemma c_add_in [c_ops]: "- (2 ^ 31) \<le> a + b \<Longrightarrow> a + b < 2 ^ 31 \<Longrightarrow> c_add a b = Some (a + b)"
  by (simp add: c_add_def)

lemma c_rem_pos [c_ops]: "0 \<le> a \<Longrightarrow> 0 < b \<Longrightarrow> c_rem a b = Some (a mod b)"
  by (cases "a = 0") (simp_all add: c_rem_def)

lemma aget_in [c_ops]: "0 \<le> i \<Longrightarrow> i < int (length xs) \<Longrightarrow> aget xs i = Some (xs ! nat i)"
  by (simp add: aget_def)

lemma aset_in [c_ops]: "0 \<le> i \<Longrightarrow> i < int (length xs) \<Longrightarrow> aset xs i v = Some (xs[nat i := v])"
  by (simp add: aset_def)

lemma aget_nat: "aget xs (int i) = (if i < length xs then Some (xs ! i) else None)"
  by (simp add: aget_def)

lemma aset_nat: "aset xs (int i) v = (if i < length xs then Some (xs[i := v]) else None)"
  by (simp add: aset_def)

lemma aset_length: "aset xs i v = Some ys \<Longrightarrow> length ys = length xs"
  by (auto simp: aset_def split: if_splits)

lemma length_c_realloc [simp]: "length (c_realloc v n xs) = n"
  by (simp add: c_realloc_def)

lemma c_realloc_nth: "i < length xs \<Longrightarrow> i < n \<Longrightarrow> c_realloc v n xs ! i = xs ! i"
  by (simp add: c_realloc_def nth_append)

lemma take_c_realloc: "k \<le> length xs \<Longrightarrow> k \<le> n \<Longrightarrow> take k (c_realloc v n xs) = take k xs"
  by (simp add: c_realloc_def)

text \<open>
  An array of pointers whose first \<open>n\<close> entries are set, and what they point to. Several components
  keep such an array and grow it by reallocation.
\<close>

definition filled :: "nat \<Rightarrow> 'a option list \<Rightarrow> bool" where
  "filled n xs \<longleftrightarrow> n \<le> length xs \<and> (\<forall>e\<in>set (take n xs). e \<noteq> None)"

definition contents :: "nat \<Rightarrow> 'a option list \<Rightarrow> 'a list" where
  "contents n xs = map the (take n xs)"

lemma length_contents: "filled n xs \<Longrightarrow> length (contents n xs) = n"
  by (simp add: filled_def contents_def)

lemma filled_0 [simp]: "filled 0 xs" "contents 0 xs = []"
  by (simp_all add: filled_def contents_def)

lemma filled_nth:
  assumes "filled n xs" "i < n"
  shows "i < length xs" "xs ! i = Some (contents n xs ! i)"
proof -
  show i: "i < length xs" using assms by (simp add: filled_def)
  have "xs ! i \<in> set (take n xs)"
    using assms(2) i by (force simp: in_set_conv_nth)
  with assms i show "xs ! i = Some (contents n xs ! i)"
    by (auto simp: filled_def contents_def)
qed

lemma filled_push:
  assumes "filled n xs" "n < length xs"
  shows "filled (Suc n) (xs[n := Some x])" "contents (Suc n) (xs[n := Some x]) = contents n xs @ [x]"
  using assms by (simp_all add: filled_def contents_def take_Suc_conv_app_nth)

lemma filled_update:
  assumes "filled n xs" "i < n"
  shows "filled n (xs[i := Some x])" "contents n (xs[i := Some x]) = (contents n xs)[i := x]"
  using assms set_update_subset_insert [of "take n xs" i "Some x"]
  by (auto simp: filled_def contents_def take_update_swap map_update)

lemma filled_realloc:
  assumes "filled n xs" "n \<le> m"
  shows "filled n (c_realloc None m xs)" "contents n (c_realloc None m xs) = contents n xs"
  using assms by (simp_all add: filled_def contents_def take_c_realloc)

lemma filled_take: "filled n xs \<Longrightarrow> take n xs = map Some (contents n xs)"
  unfolding filled_def contents_def map_map by (rule map_idI [symmetric]) auto

section \<open>Words\<close>

lemma uint_less_unat: "unat w < n \<Longrightarrow> uint w < int n"
  by (metis of_nat_less_iff uint_nat)

lemma unat_Suc_less:
  fixes w v :: "'a::len word"
  assumes "w < v"
  shows "unat (w + 1) = Suc (unat w)"
proof -
  have "unat w + 1 < 2 ^ LENGTH('a)"
    using assms unsigned_less [of v, where ?'a = nat] unfolding word_less_nat_alt by linarith
  then show ?thesis
    by (cases "LENGTH('a) = 1") (simp_all add: unat_word_ariths)
qed

end
