(* ===== verification/Fifo.thy ===== *)
theory Fifo
  imports Prelude
begin

text \<open>
  The contract between the circular buffer and the code that uses it (\<^verbatim>\<open>src/ctl.c\<close>,
  \<^verbatim>\<open>src/metriccapture.c\<close>): a bounded first-in first-out queue with C return codes. Every consumer
  empties its ring with the same loop, \<^verbatim>\<open>while (cbufGet(buf, &data) == 0) { ... }\<close>; that loop is
  \<open>drain\<close> here, and its correctness is proved once, from the contract.
\<close>

section \<open>The consumer's loop\<close>

partial_function (option) drain ::
  "('q option \<Rightarrow> 'a option \<Rightarrow> (int \<times> 'q option \<times> 'a option) option) \<Rightarrow> 'q option \<Rightarrow> 'a \<Rightarrow>
     ('a list \<times> 'q option) option" where
  "drain get q data =
     Option.bind (get q (Some data)) (\<lambda>(rc, q', data').
       if rc = 0
       then (case data' of
               None \<Rightarrow> None
             | Some v \<Rightarrow> Option.bind (drain get q' v) (\<lambda>(vs, q''). Some (v # vs, q'')))
       else Some ([], q'))"

text \<open>A producer's burst: one put per value, whatever each returns.\<close>

fun put_all ::
  "('q option \<Rightarrow> 'a \<Rightarrow> 'd \<Rightarrow> (int \<times> 'q option \<times> 'd) option) \<Rightarrow> 'q option \<Rightarrow> 'a list \<Rightarrow> 'd \<Rightarrow>
     ('q option \<times> 'd) option" where
  "put_all put q [] d = Some (q, d)"
| "put_all put q (x # xs) d = Option.bind (put q x d) (\<lambda>(rc, q', d'). put_all put q' xs d')"

section \<open>The contract\<close>

locale bounded_fifo =
  fixes put :: "'q option \<Rightarrow> 'a \<Rightarrow> 'd \<Rightarrow> (int \<times> 'q option \<times> 'd) option"
    and get :: "'q option \<Rightarrow> 'a option \<Rightarrow> (int \<times> 'q option \<times> 'a option) option"
    and list :: "'q \<Rightarrow> 'a list"
    and cap :: "'q \<Rightarrow> nat"
    and inv :: "'q \<Rightarrow> bool"
  assumes put_room: "inv q \<Longrightarrow> length (list q) < cap q \<Longrightarrow>
        \<exists>q'. put (Some q) x d = Some (0, Some q', d) \<and>
             inv q' \<and> list q' = list q @ [x] \<and> cap q' = cap q"
    and put_full: "inv q \<Longrightarrow> length (list q) = cap q \<Longrightarrow>
        \<exists>d'. put (Some q) x d = Some (-1, Some q, d')"
    and get_some: "inv q \<Longrightarrow> list q = x # xs \<Longrightarrow>
        \<exists>q'. get (Some q) (Some v) = Some (0, Some q', Some x) \<and>
             inv q' \<and> list q' = xs \<and> cap q' = cap q"
    and get_none: "inv q \<Longrightarrow> list q = [] \<Longrightarrow> get (Some q) (Some v) = Some (-1, Some q, Some v)"
    and bounded: "inv q \<Longrightarrow> length (list q) \<le> cap q"
begin

text \<open>The consumer's loop ends, sees every entry once and in order, and leaves the queue empty.\<close>

lemma drain_all:
  "inv q \<Longrightarrow> \<exists>q'. drain get (Some q) v = Some (list q, Some q') \<and> inv q' \<and> list q' = [] \<and> cap q' = cap q"
proof (induction "list q" arbitrary: q v)
  case Nil
  then show ?case
    using get_none [of q v] by (simp add: drain.simps)
next
  case (Cons x xs)
  from get_some [OF Cons.prems Cons.hyps(2) [symmetric], of v]
  obtain q1 where g: "get (Some q) (Some v) = Some (0, Some q1, Some x)"
    and q1: "inv q1" "list q1 = xs" "cap q1 = cap q" by blast
  from Cons.hyps(1) [of q1 x] q1 obtain q2 where
    "drain get (Some q1) x = Some (xs, Some q2)" "inv q2" "list q2 = []" "cap q2 = cap q" by auto
  with g Cons.hyps(2) show ?case by (subst drain.simps) (auto simp flip: Cons.hyps(2))
qed

text \<open>A whole burst of puts that fits is stored in order.\<close>

lemma put_all_room:
  "inv q \<Longrightarrow> length (list q) + length xs \<le> cap q \<Longrightarrow>
     \<exists>q'. put_all put (Some q) xs d = Some (Some q', d) \<and> inv q' \<and> list q' = list q @ xs \<and> cap q' = cap q"
proof (induction xs arbitrary: q)
  case Nil
  then show ?case by simp
next
  case (Cons x xs)
  then obtain q1 where p: "put (Some q) x d = Some (0, Some q1, d)"
    and q1: "inv q1" "list q1 = list q @ [x]" "cap q1 = cap q"
    using put_room [of q x d] by auto
  from Cons.IH [of q1] Cons.prems q1 obtain q2 where
    "put_all put (Some q1) xs d = Some (Some q2, d)" "inv q2" "list q2 = list q1 @ xs" "cap q2 = cap q"
    by auto
  with p q1 show ?case by auto
qed

end

end
