(* ===== verification/Atomic.thy ===== *)
theory Atomic
  imports Prelude
begin

text \<open>
  The atomic operations of \<^verbatim>\<open>src/atomic.h\<close>. A compare-and-swap acts on one memory cell; the
  built-ins it calls are the compiler's. The saturating \<open>atomicAddU64\<close> and \<open>atomicSubU64\<close> are
  retry loops: their model takes the values of the cell that the loop meets, one pair per turn
  (the value its read returns, the value in the cell when its compare-and-swap executes), so that
  any interference by other threads is an input; \<open>None\<close> means that the listed turns all failed.
\<close>

section \<open>Operations\<close>

definition atomicCasU64 :: "u64 \<Rightarrow> u64 \<Rightarrow> u64 \<Rightarrow> u64 \<times> bool" where
  "atomicCasU64 cell oldval newval = (if cell = oldval then (newval, True) else (cell, False))"

definition atomicCas32 :: "int \<Rightarrow> int \<Rightarrow> int \<Rightarrow> int \<times> bool" where
  "atomicCas32 cell oldval newval = (if cell = oldval then (newval, True) else (cell, False))"

fun atomicAddU64 :: "(u64 \<times> u64) list \<Rightarrow> u64 \<Rightarrow> u64 option" where
  "atomicAddU64 [] val = None"
| "atomicAddU64 ((oldval, cell) # turns) val =
     (let newval = oldval + val;
          newval = (if newval < oldval then - 1 else newval);
          (cell', success) = atomicCasU64 cell oldval newval
      in if \<not> success then atomicAddU64 turns val else Some cell')"

fun atomicSubU64 :: "(u64 \<times> u64) list \<Rightarrow> u64 \<Rightarrow> u64 option" where
  "atomicSubU64 [] val = None"
| "atomicSubU64 ((oldval, cell) # turns) val =
     (let newval = (if oldval < val then 0 else oldval - val);
          (cell', success) = atomicCasU64 cell oldval newval
      in if \<not> success then atomicSubU64 turns val else Some cell')"

text \<open>The swaps return the old value; the 32-bit additions wrap.\<close>

definition atomicSwapU64 :: "u64 \<Rightarrow> u64 \<Rightarrow> u64 \<times> u64" where
  "atomicSwapU64 cell val = (val, cell)"

definition atomicAdd32 :: "int \<Rightarrow> int \<Rightarrow> int" where
  "atomicAdd32 cell val = to_int32 (cell + val)"

definition atomicSub32 :: "int \<Rightarrow> int \<Rightarrow> int" where
  "atomicSub32 cell val = to_int32 (cell - val)"

definition atomicSwap32 :: "int \<Rightarrow> int \<Rightarrow> int \<times> int" where
  "atomicSwap32 cell val = (val, cell)"

section \<open>Saturation\<close>

text \<open>What one successful turn makes of the cell, as arithmetic on unbounded numbers.\<close>

definition sat_add :: "u64 \<Rightarrow> u64 \<Rightarrow> nat" where
  "sat_add a b = min (unat a + unat b) (2 ^ 64 - 1)"

lemma unat_max: "unat (- 1 :: u64) = 2 ^ 64 - 1"
  by (simp add: unsigned_minus_1_eq_mask mask_eq_exp_minus_1)

lemma add_turn:
  fixes a b :: u64
  shows "unat (if a + b < a then - 1 else a + b) = sat_add a b"
proof (cases "unat a + unat b < 2 ^ 64")
  case True
  then have "unat (a + b) = unat a + unat b"
    by (simp add: unat_word_ariths)
  with True show ?thesis
    by (simp add: sat_add_def word_less_nat_alt)
next
  case False
  have "unat a < 2 ^ 64" "unat b < 2 ^ 64"
    using unsigned_less [of a] unsigned_less [of b] by simp_all
  with False have "(unat a + unat b) mod 2 ^ 64 = unat a + unat b - 2 ^ 64"
    by (simp add: mod_if)
  then have "unat (a + b) = unat a + unat b - 2 ^ 64"
    by (simp add: unat_word_ariths)
  with False \<open>unat b < 2 ^ 64\<close> show ?thesis
    by (simp add: sat_add_def word_less_nat_alt unat_max)
qed

lemma sub_turn:
  fixes a b :: u64
  shows "unat (if a < b then 0 else a - b) = unat a - unat b"
  by (auto simp: word_less_nat_alt unat_sub word_le_nat_alt not_less)

text \<open>
  C5. \<open>atomicAddU64\<close>: whatever values other threads leave in the cell, when the loop ends it has
  replaced the value then in the cell by that value plus \<open>val\<close>, cut off at the largest 64-bit
  number; run without interference it ends in the first turn.
\<close>

theorem atomicAddU64_saturates:
  "(\<forall>turns r. atomicAddU64 turns val = Some r \<longrightarrow>
      (\<exists>(oldval, cell)\<in>set turns. oldval = cell \<and> unat r = min (unat cell + unat val) (2 ^ 64 - 1))) \<and>
   (\<exists>r. atomicAddU64 [(cell, cell)] val = Some r \<and> unat r = min (unat cell + unat val) (2 ^ 64 - 1))"
proof (intro conjI allI impI)
  fix turns r
  assume "atomicAddU64 turns val = Some r"
  then show "\<exists>(oldval, cell)\<in>set turns. oldval = cell \<and> unat r = min (unat cell + unat val) (2 ^ 64 - 1)"
  proof (induction turns val rule: atomicAddU64.induct)
    case (2 oldval cell turns val)
    then show ?case
      using add_turn [of oldval val]
      by (cases "cell = oldval") (auto simp: atomicCasU64_def Let_def sat_add_def)
  qed simp
next
  show "\<exists>r. atomicAddU64 [(cell, cell)] val = Some r \<and> unat r = min (unat cell + unat val) (2 ^ 64 - 1)"
    using add_turn [of cell val] by (simp add: atomicCasU64_def Let_def sat_add_def)
qed

theorem atomicAddU64_saturates_witness:
  "\<exists>r. atomicAddU64 [(5, 6), (- 1, - 1)] 3 = Some r \<and> unat r = 2 ^ 64 - 1"
proof -
  have r: "atomicAddU64 [(5, 6), (- 1, - 1)] 3 = Some (- 1)"
    by (simp add: atomicCasU64_def)
  then show ?thesis
    using atomicAddU64_saturates [of 3 0] by (auto simp: unat_max)
qed

text \<open>
  \<open>atomicSubU64\<close> likewise replaces the value in the cell by the difference, cut off at 0.
\<close>

theorem atomicSubU64_saturates:
  "(\<forall>turns r. atomicSubU64 turns val = Some r \<longrightarrow>
      (\<exists>(oldval, cell)\<in>set turns. oldval = cell \<and> unat r = unat cell - unat val)) \<and>
   (\<exists>r. atomicSubU64 [(cell, cell)] val = Some r \<and> unat r = unat cell - unat val)"
proof (intro conjI allI impI)
  fix turns r
  assume "atomicSubU64 turns val = Some r"
  then show "\<exists>(oldval, cell)\<in>set turns. oldval = cell \<and> unat r = unat cell - unat val"
  proof (induction turns val rule: atomicSubU64.induct)
    case (2 oldval cell turns val)
    then show ?case
      using sub_turn [of oldval val]
      by (cases "cell = oldval") (auto simp: atomicCasU64_def Let_def)
  qed simp
next
  show "\<exists>r. atomicSubU64 [(cell, cell)] val = Some r \<and> unat r = unat cell - unat val"
    using sub_turn [of cell val] by (simp add: atomicCasU64_def Let_def)
qed

theorem atomicSubU64_saturates_witness:
  "\<exists>r. atomicSubU64 [(2, 2)] 5 = Some r \<and> unat r = 0"
proof -
  have "atomicSubU64 [(2, 2)] 5 = Some 0"
    by (simp add: atomicCasU64_def)
  then show ?thesis
    using atomicSubU64_saturates [of 5 2] by auto
qed

end
