(* ===== verification/Circbuf.thy ===== *)
theory Circbuf
  imports Fifo Atomic
begin

text \<open>
  The circular buffer of \<^verbatim>\<open>src/circbuf.c\<close>: the ring that carries events, log lines, payloads
  and captured metrics from the intercepted application threads to the reporting thread.

  The first part runs each function alone (no other thread between its accesses) and shows that
  the ring then implements a bounded first-in first-out queue; the interface is the locale
  \<open>bounded_fifo\<close>. Occupied slots are the indices from \<open>tail + 1\<close> to \<open>head\<close> around the ring, a
  free slot holds 0, and one slot is never used, so that \<open>head = tail\<close> means empty. The
  interleaved behaviour of several threads is in theory \<^verbatim>\<open>Circbuf_Threads\<close>.

  Pointers, allocation and undefined behaviour follow the conventions of theory \<^verbatim>\<open>Prelude\<close>.
  \<open>g_cbuf_drop_count\<close>, a global of \<^verbatim>\<open>src/dbg.c\<close> that \<open>cbufPut\<close> increments, is passed through.
\<close>

section \<open>The data and the operations\<close>

record cbuf_t =
  cb_buffer :: "u64 list"
  cb_head :: int
  cb_tail :: int
  cb_maxlen :: int

definition cbufReset :: "cbuf_t option \<Rightarrow> cbuf_t option" where
  "cbufReset cb = (case cb of None \<Rightarrow> None | Some c \<Rightarrow> Some (c\<lparr>cb_head := 0, cb_tail := 0\<rparr>))"

text \<open>
  \<open>sz\<close> is a \<open>size_t\<close>; \<open>sz + 1\<close> is computed in 64 bits for the allocation and converted to
  \<open>int\<close> for \<open>maxlen\<close>. The two allocations succeed or not (\<open>ok1\<close>, \<open>ok2\<close>).
\<close>

definition cbufInit :: "bool \<Rightarrow> bool \<Rightarrow> u64 \<Rightarrow> cbuf_t option" where
  "cbufInit ok1 ok2 sz =
     (if \<not> ok1 then None
      else if \<not> ok2 then None
      else
        let buffer = replicate (unat (sz + 1)) 0;
            cbuf = \<lparr>cb_buffer = [], cb_head = 0, cb_tail = 0, cb_maxlen = 0\<rparr>
        in (case cbufReset (Some cbuf) of
              None \<Rightarrow> None
            | Some c \<Rightarrow> Some (c\<lparr>cb_maxlen := to_int32 (uint (sz + 1)), cb_buffer := buffer\<rparr>)))"

text \<open>
  The retry loop of \<open>cbufPut\<close>. It returns the buffer, the drop count, \<open>success\<close> and
  \<open>head_next\<close>; \<open>None\<close> is the trap of a remainder by zero.
\<close>

function cbufPut_loop :: "cbuf_t \<Rightarrow> u64 \<Rightarrow> int \<Rightarrow> (cbuf_t \<times> u64 \<times> bool \<times> int) option" where
  "cbufPut_loop c drops attempts =
     do {
       let head = cb_head c;
       succ \<leftarrow> c_add head 1;
       head_next \<leftarrow> c_rem succ (cb_maxlen c);
       if head_next = cb_tail c then Some (c, drops + 1, False, head_next)
       else
         let (h', success) = atomicCas32 (cb_head c) head head_next;
             c' = c\<lparr>cb_head := h'\<rparr>
         in if \<not> success \<and> attempts < cb_maxlen c
            then cbufPut_loop c' drops (attempts + 1)
            else Some (c', drops, success, head_next)
     }"
  by pat_completeness auto
termination
  by (relation "measure (\<lambda>(c, drops, attempts). nat (cb_maxlen c - attempts))") auto

declare cbufPut_loop.simps [simp del]

definition cbufPut :: "cbuf_t option \<Rightarrow> u64 \<Rightarrow> u64 \<Rightarrow> (int \<times> cbuf_t option \<times> u64) option" where
  "cbufPut cb data drops =
     (case cb of
        None \<Rightarrow> Some (-1, None, drops)
      | Some c \<Rightarrow>
          do {
            (c, drops, success, head_next) \<leftarrow> cbufPut_loop c drops 0;
            if success then do {
              slot \<leftarrow> aget (cb_buffer c) head_next;
              if slot \<noteq> 0 then Some (-1, Some c, drops)
              else do {
                b \<leftarrow> aset (cb_buffer c) head_next data;
                Some (0, Some (c\<lparr>cb_buffer := b\<rparr>), drops)
              }
            }
            else Some (-1, Some c, drops)
          })"

function cbufGet_loop :: "cbuf_t \<Rightarrow> int \<Rightarrow> (cbuf_t \<times> bool \<times> int) option" where
  "cbufGet_loop c attempts =
     do {
       let tail = cb_tail c;
       succ \<leftarrow> c_add tail 1;
       tail_next \<leftarrow> c_rem succ (cb_maxlen c);
       if tail = cb_head c then Some (c, False, tail_next)
       else
         let (t', success) = atomicCas32 (cb_tail c) tail tail_next;
             c' = c\<lparr>cb_tail := t'\<rparr>
         in if \<not> success \<and> attempts < cb_maxlen c
            then cbufGet_loop c' (attempts + 1)
            else Some (c', success, tail_next)
     }"
  by pat_completeness auto
termination
  by (relation "measure (\<lambda>(c, attempts). nat (cb_maxlen c - attempts))") auto

declare cbufGet_loop.simps [simp del]

text \<open>
  \<open>data\<close> is the address of the caller's variable: \<open>None\<close> when it is NULL, otherwise the
  variable's old value. The result is the return code, the buffer and the variable.
\<close>

definition cbufGet :: "cbuf_t option \<Rightarrow> u64 option \<Rightarrow> (int \<times> cbuf_t option \<times> u64 option) option" where
  "cbufGet cb data =
     (case (cb, data) of
        (Some c, Some old) \<Rightarrow>
          do {
            (c, success, tail_next) \<leftarrow> cbufGet_loop c 0;
            if success then do {
              v \<leftarrow> aget (cb_buffer c) tail_next;
              b \<leftarrow> aset (cb_buffer c) tail_next 0;
              Some (0, Some (c\<lparr>cb_buffer := b\<rparr>), Some v)
            }
            else Some (-1, Some c, data)
          }
      | _ \<Rightarrow> Some (-1, cb, data))"

definition cbufCapacity :: "cbuf_t option \<Rightarrow> u64" where
  "cbufCapacity cb = (case cb of None \<Rightarrow> - 1 | Some c \<Rightarrow> word_of_int (cb_maxlen c - 1))"

definition cbufEmpty :: "cbuf_t option \<Rightarrow> bool" where
  "cbufEmpty cb = (case cb of None \<Rightarrow> True | Some c \<Rightarrow> cb_tail c = cb_head c)"

text \<open>\<open>cbufFree\<close> releases the array and the header; nothing of the buffer is left.\<close>

definition cbufFree :: "cbuf_t option \<Rightarrow> cbuf_t option" where
  "cbufFree cb = None"

section \<open>The invariant and the contents\<close>

text \<open>The number of occupied slots, the slot of the \<open>k\<close>th entry, and the entries in order.\<close>

definition cb_count :: "cbuf_t \<Rightarrow> nat" where
  "cb_count c = nat ((cb_head c - cb_tail c) mod cb_maxlen c)"

definition cb_slot :: "cbuf_t \<Rightarrow> nat \<Rightarrow> nat" where
  "cb_slot c k = nat ((cb_tail c + 1 + int k) mod cb_maxlen c)"

definition cb_list :: "cbuf_t \<Rightarrow> u64 list" where
  "cb_list c = map (\<lambda>k. cb_buffer c ! cb_slot c k) [0..<cb_count c]"

definition cb_inv :: "cbuf_t \<Rightarrow> bool" where
  "cb_inv c \<longleftrightarrow>
     0 < cb_maxlen c \<and> cb_maxlen c < 2 ^ 31 \<and>
     length (cb_buffer c) = nat (cb_maxlen c) \<and>
     0 \<le> cb_head c \<and> cb_head c < cb_maxlen c \<and>
     0 \<le> cb_tail c \<and> cb_tail c < cb_maxlen c \<and>
     (\<forall>k\<in>{cb_count c..<nat (cb_maxlen c)}. cb_buffer c ! cb_slot c k = 0)"

section \<open>Index arithmetic around the ring\<close>

lemma ring_diff:
  fixes h t m :: int
  assumes "0 \<le> h" "h < m" "0 \<le> t" "t < m"
  shows "(h - t) mod m = (if t \<le> h then h - t else h - t + m)"
proof (cases "t \<le> h")
  case True
  with assms show ?thesis by simp
next
  case False
  have "(h - t) mod m = (h - t + m) mod m" by simp
  also have "\<dots> = h - t + m" using assms False by (intro mod_pos_pos_trivial) auto
  finally show ?thesis using False by simp
qed

lemma ring_add:
  fixes t m :: int
  assumes "0 \<le> t" "t < m" "0 \<le> k" "k \<le> m"
  shows "(t + k) mod m = (if t + k < m then t + k else t + k - m)"
proof (cases "t + k < m")
  case True
  with assms show ?thesis by simp
next
  case False
  have "(t + k) mod m = (t + k - m) mod m" by simp
  also have "\<dots> = t + k - m" using assms False by (intro mod_pos_pos_trivial) auto
  finally show ?thesis using False by simp
qed

lemma cb_invD:
  assumes "cb_inv c"
  shows "0 < cb_maxlen c" "cb_maxlen c < 2 ^ 31" "length (cb_buffer c) = nat (cb_maxlen c)"
    "0 \<le> cb_head c" "cb_head c < cb_maxlen c" "0 \<le> cb_tail c" "cb_tail c < cb_maxlen c"
    "cb_count c \<le> k \<Longrightarrow> k < nat (cb_maxlen c) \<Longrightarrow> cb_buffer c ! cb_slot c k = 0"
  using assms by (auto simp: cb_inv_def)

lemmas cb_range = cb_invD(1-7)

lemma cb_count_less: "cb_inv c \<Longrightarrow> cb_count c < nat (cb_maxlen c)"
  using cb_range [of c] by (simp add: cb_count_def)

lemma length_cb_list [simp]: "length (cb_list c) = cb_count c"
  by (simp add: cb_list_def)

lemma cb_slot_int:
  assumes "cb_inv c" "k < nat (cb_maxlen c)"
  shows "int (cb_slot c k) = (if cb_tail c + 1 + int k < cb_maxlen c then cb_tail c + 1 + int k
                              else cb_tail c + 1 + int k - cb_maxlen c)"
proof -
  note r = cb_range [OF assms(1)]
  have "int (cb_slot c k) = (cb_tail c + (1 + int k)) mod cb_maxlen c"
    using r(1) by (simp add: cb_slot_def add.assoc)
  also have "\<dots> = (if cb_tail c + (1 + int k) < cb_maxlen c then cb_tail c + (1 + int k)
                    else cb_tail c + (1 + int k) - cb_maxlen c)"
    using r assms(2) by (intro ring_add) auto
  finally show ?thesis by (simp only: add.assoc)
qed

lemma cb_slot_less: "cb_inv c \<Longrightarrow> cb_slot c k < length (cb_buffer c)"
  using cb_range [of c] by (simp add: cb_slot_def nat_less_iff)

lemma cb_slot_inj:
  assumes "cb_inv c" "j < nat (cb_maxlen c)" "k < nat (cb_maxlen c)" "cb_slot c j = cb_slot c k"
  shows "j = k"
proof -
  have "(if cb_tail c + 1 + int j < cb_maxlen c then cb_tail c + 1 + int j
         else cb_tail c + 1 + int j - cb_maxlen c) =
        (if cb_tail c + 1 + int k < cb_maxlen c then cb_tail c + 1 + int k
         else cb_tail c + 1 + int k - cb_maxlen c)"
    using assms(4) by (simp only: cb_slot_int [OF assms(1,2), symmetric] cb_slot_int [OF assms(1,3), symmetric])
  with assms(2,3) show ?thesis by (simp split: if_splits)
qed

lemma cb_count_alt:
  "cb_inv c \<Longrightarrow> int (cb_count c) =
     (if cb_tail c \<le> cb_head c then cb_head c - cb_tail c else cb_head c - cb_tail c + cb_maxlen c)"
  using cb_range [of c] by (simp add: cb_count_def ring_diff)

lemma cb_full_iff:
  assumes "cb_inv c"
  shows "(cb_head c + 1) mod cb_maxlen c = cb_tail c \<longleftrightarrow> cb_count c = nat (cb_maxlen c) - 1"
proof -
  note r = cb_range [OF assms]
  have "(cb_head c + 1) mod cb_maxlen c =
        (if cb_head c + 1 < cb_maxlen c then cb_head c + 1 else cb_head c + 1 - cb_maxlen c)"
    using r by (intro ring_add) auto
  with r cb_count_alt [OF assms] show ?thesis by (simp split: if_splits) linarith+
qed

lemma cb_empty_iff: "cb_inv c \<Longrightarrow> cb_tail c = cb_head c \<longleftrightarrow> cb_count c = 0"
  using cb_range(7) [of c] cb_range(4) [of c] cb_count_alt [of c] by (simp split: if_splits) linarith

lemma cb_slot_count:
  assumes "cb_inv c"
  shows "int (cb_slot c (cb_count c)) = (cb_head c + 1) mod cb_maxlen c"
proof -
  note r = cb_range [OF assms]
  have "int (cb_slot c (cb_count c)) =
        (cb_tail c + 1 + (cb_head c - cb_tail c) mod cb_maxlen c) mod cb_maxlen c"
    using r by (simp add: cb_slot_def cb_count_def)
  also have "\<dots> = (cb_tail c + 1 + (cb_head c - cb_tail c)) mod cb_maxlen c"
    by (rule mod_add_right_eq)
  finally show ?thesis by (simp add: algebra_simps)
qed

section \<open>Put and get on a buffer that satisfies the invariant\<close>

definition cb_cap :: "cbuf_t \<Rightarrow> nat" where
  "cb_cap c = nat (cb_maxlen c) - 1"

text \<open>Run alone, the compare-and-swap succeeds at once: one turn of the loop.\<close>

lemma cbufPut_loop_once:
  assumes "c_add (cb_head c) 1 = Some s" and "c_rem s (cb_maxlen c) = Some hn"
  shows "cbufPut_loop c d a = (if hn = cb_tail c then Some (c, d + 1, False, hn)
                               else Some (c\<lparr>cb_head := hn\<rparr>, d, True, hn))"
  using assms by (subst cbufPut_loop.simps) (simp add: atomicCas32_def)

lemma cbufGet_loop_once:
  assumes "c_add (cb_tail c) 1 = Some s" and "c_rem s (cb_maxlen c) = Some tn"
  shows "cbufGet_loop c a = (if cb_tail c = cb_head c then Some (c, False, tn)
                             else Some (c\<lparr>cb_tail := tn\<rparr>, True, tn))"
  using assms by (subst cbufGet_loop.simps) (simp add: atomicCas32_def)

lemma cb_succ:
  assumes "cb_inv c"
  shows "c_add (cb_head c) 1 = Some (cb_head c + 1)"
    "c_rem (cb_head c + 1) (cb_maxlen c) = Some ((cb_head c + 1) mod cb_maxlen c)"
    "c_add (cb_tail c) 1 = Some (cb_tail c + 1)"
    "c_rem (cb_tail c + 1) (cb_maxlen c) = Some ((cb_tail c + 1) mod cb_maxlen c)"
  using cb_range [OF assms] by (simp_all add: c_add_def c_rem_pos)

lemmas cbufPut_loop_inv = cbufPut_loop_once [OF cb_succ(1,2)]
lemmas cbufGet_loop_inv = cbufGet_loop_once [OF cb_succ(3,4)]

lemma cbufPut_full:
  "cb_inv c \<Longrightarrow> cb_count c = cb_cap c \<Longrightarrow> cbufPut (Some c) x d = Some (-1, Some c, d + 1)"
  by (simp add: cbufPut_def cbufPut_loop_inv cb_full_iff cb_cap_def Let_def)

text \<open>The buffer after a put that found room: the new head, and the value in the slot after the last entry.\<close>

definition cb_pushed :: "cbuf_t \<Rightarrow> u64 \<Rightarrow> cbuf_t" where
  "cb_pushed c x = c\<lparr>cb_head := (cb_head c + 1) mod cb_maxlen c,
                     cb_buffer := (cb_buffer c)[cb_slot c (cb_count c) := x]\<rparr>"

definition cb_popped :: "cbuf_t \<Rightarrow> cbuf_t" where
  "cb_popped c = c\<lparr>cb_tail := (cb_tail c + 1) mod cb_maxlen c,
                   cb_buffer := (cb_buffer c)[cb_slot c 0 := 0]\<rparr>"

lemma cbufPut_room:
  assumes "cb_inv c" "cb_count c < cb_cap c"
  shows "cbufPut (Some c) x d = Some (0, Some (cb_pushed c x), d)"
proof -
  note r = cb_range [OF assms(1)] and s = cb_slot_count [OF assms(1)]
  have n: "(cb_head c + 1) mod cb_maxlen c \<noteq> cb_tail c"
    using assms by (simp add: cb_full_iff cb_cap_def)
  have b: "(cb_head c + 1) mod cb_maxlen c < int (length (cb_buffer c))"
    using cb_slot_less [OF assms(1), of "cb_count c"] s by simp
  have z: "cb_buffer c ! cb_slot c (cb_count c) = 0"
    using assms cb_count_less [OF assms(1)] by (intro cb_invD(8)) auto
  have h: "nat ((cb_head c + 1) mod cb_maxlen c) = cb_slot c (cb_count c)"
    using s by simp
  show ?thesis
    using n b z h r(1)
    by (simp add: cbufPut_def cbufPut_loop_inv [OF assms(1) assms(1)] Let_def c_ops cb_pushed_def)
qed

lemma cbufGet_none: "cb_inv c \<Longrightarrow> cb_count c = 0 \<Longrightarrow> cbufGet (Some c) (Some v) = Some (-1, Some c, Some v)"
  by (simp add: cbufGet_def cbufGet_loop_inv cb_empty_iff [symmetric] Let_def)

lemma cb_slot_0:
  "cb_inv c \<Longrightarrow> int (cb_slot c 0) = (cb_tail c + 1) mod cb_maxlen c"
  using cb_range(1) [of c] by (simp add: cb_slot_def)

lemma cbufGet_some:
  assumes "cb_inv c" "0 < cb_count c"
  shows "cbufGet (Some c) (Some v) = Some (0, Some (cb_popped c), Some (cb_buffer c ! cb_slot c 0))"
proof -
  note r = cb_range [OF assms(1)] and s = cb_slot_0 [OF assms(1)]
  have n: "cb_tail c \<noteq> cb_head c"
    using assms by (simp add: cb_empty_iff)
  have b: "(cb_tail c + 1) mod cb_maxlen c < int (length (cb_buffer c))"
    using cb_slot_less [OF assms(1), of 0] s by simp
  have h: "nat ((cb_tail c + 1) mod cb_maxlen c) = cb_slot c 0"
    using s by simp
  show ?thesis
    using n b h r(1)
    by (simp add: cbufGet_def cbufGet_loop_inv [OF assms(1) assms(1)] Let_def c_ops cb_popped_def)
qed

lemma cb_pushed_slot [simp]: "cb_slot (cb_pushed c x) k = cb_slot c k"
  by (simp add: cb_slot_def cb_pushed_def)

lemma cb_pushed_count:
  assumes "cb_inv c" "cb_count c < cb_cap c"
  shows "cb_count (cb_pushed c x) = Suc (cb_count c)"
proof -
  note r = cb_range [OF assms(1)]
  have "((cb_head c + 1) mod cb_maxlen c - cb_tail c) mod cb_maxlen c =
        (cb_head c + 1 - cb_tail c) mod cb_maxlen c"
    by (rule mod_diff_left_eq)
  also have "cb_head c + 1 - cb_tail c = cb_head c - cb_tail c + 1"
    by simp
  also have "(cb_head c - cb_tail c + 1) mod cb_maxlen c =
             ((cb_head c - cb_tail c) mod cb_maxlen c + 1) mod cb_maxlen c"
    by (rule mod_add_left_eq [symmetric])
  also have "\<dots> = (cb_head c - cb_tail c) mod cb_maxlen c + 1"
    using assms r by (intro mod_pos_pos_trivial) (auto simp: cb_count_def cb_cap_def)
  finally show ?thesis
    using r(1) by (simp add: cb_count_def cb_pushed_def nat_add_distrib)
qed

lemma cb_pushed_inv:
  assumes "cb_inv c" "cb_count c < cb_cap c"
  shows "cb_inv (cb_pushed c x)"
proof -
  note r = cb_range [OF assms(1)] and n = cb_pushed_count [OF assms]
  have "cb_buffer (cb_pushed c x) ! cb_slot c k = 0"
    if k: "Suc (cb_count c) \<le> k" "k < nat (cb_maxlen c)" for k
  proof -
    have "cb_slot c k \<noteq> cb_slot c (cb_count c)"
      using cb_slot_inj [OF assms(1) k(2) cb_count_less [OF assms(1)]] k(1) by auto
    then show ?thesis
      using k cb_invD(8) [OF assms(1), of k] by (simp add: cb_pushed_def)
  qed
  then show ?thesis
    using r n by (simp add: cb_inv_def) (simp add: cb_pushed_def)
qed

lemma cb_pushed_list:
  assumes "cb_inv c" "cb_count c < cb_cap c"
  shows "cb_list (cb_pushed c x) = cb_list c @ [x]"
proof -
  have "cb_buffer (cb_pushed c x) ! cb_slot c k = cb_buffer c ! cb_slot c k" if "k < cb_count c" for k
  proof -
    have "cb_slot c (cb_count c) \<noteq> cb_slot c k"
      using cb_slot_inj [OF assms(1) _ cb_count_less [OF assms(1)], of k] that
        cb_count_less [OF assms(1)] by force
    then show ?thesis by (simp add: cb_pushed_def)
  qed
  moreover have "cb_buffer (cb_pushed c x) ! cb_slot c (cb_count c) = x"
    using cb_slot_less [OF assms(1)] by (simp add: cb_pushed_def)
  ultimately show ?thesis
    by (simp add: cb_list_def cb_pushed_count [OF assms])
qed

lemma cb_popped_slot:
  "cb_slot (cb_popped c) k = cb_slot c (Suc k)"
proof -
  have "((cb_tail c + 1) mod cb_maxlen c + (1 + int k)) mod cb_maxlen c =
        (cb_tail c + 1 + (1 + int k)) mod cb_maxlen c"
    by (rule mod_add_left_eq)
  then show ?thesis by (simp add: cb_slot_def cb_popped_def add.assoc)
qed

lemma cb_popped_count:
  assumes "cb_inv c" "0 < cb_count c"
  shows "cb_count (cb_popped c) = cb_count c - 1"
proof -
  note r = cb_range [OF assms(1)]
  have "(cb_head c - (cb_tail c + 1) mod cb_maxlen c) mod cb_maxlen c =
        (cb_head c - (cb_tail c + 1)) mod cb_maxlen c"
    by (rule mod_diff_right_eq)
  also have "cb_head c - (cb_tail c + 1) = cb_head c - cb_tail c - 1"
    by simp
  also have "(cb_head c - cb_tail c - 1) mod cb_maxlen c =
             ((cb_head c - cb_tail c) mod cb_maxlen c - 1) mod cb_maxlen c"
    by (rule mod_diff_left_eq [symmetric])
  also have "\<dots> = (cb_head c - cb_tail c) mod cb_maxlen c - 1"
    using assms(2) pos_mod_bound [OF r(1), of "cb_head c - cb_tail c"]
    by (intro mod_pos_pos_trivial) (auto simp: cb_count_def)
  finally show ?thesis
    by (simp add: cb_count_def cb_popped_def nat_diff_distrib)
qed

lemma cb_popped_inv:
  assumes "cb_inv c" "0 < cb_count c"
  shows "cb_inv (cb_popped c)"
proof -
  note r = cb_range [OF assms(1)] and n = cb_popped_count [OF assms]
  have "cb_buffer (cb_popped c) ! cb_slot c (Suc k) = 0"
    if k: "cb_count c - 1 \<le> k" "k < nat (cb_maxlen c)" for k
  proof (cases "Suc k < nat (cb_maxlen c)")
    case True
    then have "cb_slot c 0 \<noteq> cb_slot c (Suc k)"
      using cb_slot_inj [OF assms(1), of 0 "Suc k"] r(1) by auto
    then show ?thesis
      using True k assms(2) cb_invD(8) [OF assms(1), of "Suc k"] by (simp add: cb_popped_def)
  next
    case False
    with k r(1) have "int (Suc k) = cb_maxlen c" by auto
    then have "cb_slot c (Suc k) = cb_slot c 0"
      by (simp add: cb_slot_def)
    then show ?thesis
      using cb_slot_less [OF assms(1), of 0] by (simp add: cb_popped_def)
  qed
  then show ?thesis
    using r n by (simp add: cb_inv_def cb_popped_slot) (simp add: cb_popped_def)
qed

lemma cb_popped_list:
  assumes "cb_inv c" "0 < cb_count c"
  shows "cb_list c = cb_buffer c ! cb_slot c 0 # cb_list (cb_popped c)"
proof -
  obtain n where n: "cb_count c = Suc n"
    using assms(2) by (cases "cb_count c") auto
  have keep: "cb_buffer (cb_popped c) ! cb_slot c (Suc k) = cb_buffer c ! cb_slot c (Suc k)"
    if "k < n" for k
  proof -
    have "cb_slot c 0 \<noteq> cb_slot c (Suc k)"
      using cb_slot_inj [OF assms(1), of 0 "Suc k"] that n cb_count_less [OF assms(1)] cb_range(1) [OF assms(1)] by auto
    then show ?thesis by (simp add: cb_popped_def)
  qed
  have "cb_list c = cb_buffer c ! cb_slot c 0 # map (\<lambda>k. cb_buffer c ! cb_slot c (Suc k)) [0..<n]"
    by (simp add: cb_list_def n map_upt_Suc del: upt_Suc)
  also have "map (\<lambda>k. cb_buffer c ! cb_slot c (Suc k)) [0..<n] = cb_list (cb_popped c)"
    using n keep by (simp add: cb_list_def cb_popped_count [OF assms] cb_popped_slot)
  finally show ?thesis .
qed

lemma cb_cap_pushed [simp]: "cb_cap (cb_pushed c x) = cb_cap c"
  and cb_cap_popped [simp]: "cb_cap (cb_popped c) = cb_cap c"
  by (simp_all add: cb_cap_def cb_pushed_def cb_popped_def)

section \<open>The ring implements the bounded queue\<close>

interpretation ring: bounded_fifo cbufPut cbufGet cb_list cb_cap cb_inv
proof (unfold_locales, goal_cases)
  case (1 q x d)
  then show ?case
    by (intro exI [of _ "cb_pushed q x"])
       (simp add: cbufPut_room cb_pushed_inv cb_pushed_list)
next
  case (2 q x d)
  then show ?case by (simp add: cbufPut_full)
next
  case (3 q x xs v)
  then have "0 < cb_count q" by (simp flip: length_cb_list)
  with 3 show ?case
    by (intro exI [of _ "cb_popped q"])
       (simp add: cbufGet_some cb_popped_inv cb_popped_list)
next
  case (4 q v)
  then show ?case by (simp add: cbufGet_none flip: length_cb_list)
next
  case (5 q)
  then show ?case using cb_count_less [of q] by (simp add: cb_cap_def)
qed

section \<open>Properties\<close>

lemma cbufInit_eq:
  "cbufInit True True sz =
     Some \<lparr>cb_buffer = replicate (unat (sz + 1)) 0, cb_head = 0, cb_tail = 0,
           cb_maxlen = to_int32 (uint (sz + 1))\<rparr>"
  by (simp add: cbufInit_def cbufReset_def Let_def)

lemma uint_succ_small:
  fixes sz :: u64
  assumes "unat sz < 2 ^ 31 - 1"
  shows "uint (sz + 1) = uint sz + 1"
proof -
  have "uint sz < 2 ^ 31 - 1"
    using uint_less_unat [OF assms] by simp
  then show ?thesis by (simp add: uint_word_ariths)
qed

lemma cbufInit_small:
  assumes "unat sz < 2 ^ 31 - 1"
  shows "\<exists>c. cbufInit True True sz = Some c \<and> cb_inv c \<and> cb_list c = [] \<and> cb_cap c = unat sz"
proof -
  have b: "uint sz < 2 ^ 31 - 1"
    using uint_less_unat [OF assms] by simp
  have m: "to_int32 (uint (sz + 1)) = uint sz + 1"
    using b uint_succ_small [OF assms] by (simp add: to_int32_def)
  have n: "unat (sz + 1) = nat (uint sz + 1)"
    by (simp add: uint_succ_small [OF assms] flip: nat_uint_eq)
  let ?c = "\<lparr>cb_buffer = replicate (unat (sz + 1)) 0, cb_head = 0, cb_tail = 0,
             cb_maxlen = to_int32 (uint (sz + 1))\<rparr> :: cbuf_t"
  have "nat ((1 + int k) mod (uint sz + 1)) < nat (uint sz + 1)" for k
    using pos_mod_bound [of "uint sz + 1" "1 + int k"] by (simp add: add_nonneg_pos)
  then have "cb_inv ?c"
    using b by (simp add: cb_inv_def m n cb_slot_def)
  moreover have "cb_list ?c = []" "cb_cap ?c = unat sz"
    by (simp_all add: cb_list_def cb_count_def cb_cap_def m nat_add_distrib)
  ultimately show ?thesis by (simp add: cbufInit_eq)
qed

text \<open>
  C1. A ring created for \<open>sz\<close> entries (fewer than \<open>INT_MAX\<close>) delivers a burst of at most \<open>sz\<close>
  values to the consumer's loop completely, once each and in the order they were put, without
  dropping any; the loop ends and the ring is then empty.
\<close>

theorem cbuf_fifo:
  assumes "unat sz < 2 ^ 31 - 1" and "length xs \<le> unat sz"
  shows "\<exists>c c' c''. cbufInit True True sz = Some c \<and>
           put_all cbufPut (Some c) xs d = Some (Some c', d) \<and>
           drain cbufGet (Some c') v = Some (xs, Some c'') \<and> cbufEmpty (Some c'')"
proof -
  obtain c where c: "cbufInit True True sz = Some c" "cb_inv c" "cb_list c = []" "cb_cap c = unat sz"
    using cbufInit_small [OF assms(1)] by blast
  obtain c' where c': "put_all cbufPut (Some c) xs d = Some (Some c', d)" "cb_inv c'" "cb_list c' = xs"
    using ring.put_all_room [of c xs d] c assms(2) by auto
  obtain c'' where "drain cbufGet (Some c') v = Some (xs, Some c'')" "cb_inv c''" "cb_list c'' = []"
    using ring.drain_all [of c' v] c' by auto
  moreover from this have "cbufEmpty (Some c'')"
    by (simp add: cbufEmpty_def cb_empty_iff flip: length_cb_list)
  ultimately show ?thesis using c(1) c'(1) by blast
qed

theorem cbuf_fifo_witness:
  "\<exists>c c' c''. cbufInit True True 3 = Some c \<and>
     put_all cbufPut (Some c) [7, 8] 0 = Some (Some c', 0) \<and>
     drain cbufGet (Some c') 0 = Some ([7, 8], Some c'') \<and> cbufEmpty (Some c'')"
  using cbuf_fifo [of 3 "[7, 8]" 0 0] by simp

text \<open>
  On a well-formed ring \<open>cbufPut\<close> never traps: with room it stores the value last and returns
  0; when the ring is full it returns -1, counts the drop and leaves the ring as it was.
\<close>

theorem cbufPut_spec:
  assumes "cb_inv c"
  shows "if length (cb_list c) < cb_cap c
         then \<exists>c'. cbufPut (Some c) x d = Some (0, Some c', d) \<and> cb_inv c' \<and>
                   cb_list c' = cb_list c @ [x] \<and> cb_cap c' = cb_cap c
         else cbufPut (Some c) x d = Some (-1, Some c, d + 1)"
  using ring.put_room [OF assms, of x d] ring.bounded [OF assms] cbufPut_full [OF assms] by simp

definition ring2 :: cbuf_t where
  "ring2 = \<lparr>cb_buffer = [5, 0, 0], cb_head = 0, cb_tail = 2, cb_maxlen = 3\<rparr>"

lemma ring2_inv: "cb_inv ring2"
  by code_simp

theorem cbufPut_spec_witness:
  "\<exists>c'. cbufPut (Some ring2) 9 0 = Some (0, Some c', 0) \<and> cb_list c' = [5, 9]"
  using cbufPut_spec [OF ring2_inv, of 9 0]
  by (auto simp: cb_list_def cb_count_def cb_slot_def cb_cap_def ring2_def split: if_splits)

text \<open>
  On a well-formed ring \<open>cbufGet\<close> never traps: it returns 0 with the oldest value, which it
  removes, and returns -1 exactly when the ring is empty, then leaving ring and variable alone.
\<close>

theorem cbufGet_spec:
  assumes "cb_inv c"
  shows "case cb_list c of
           [] \<Rightarrow> cbufGet (Some c) (Some v) = Some (-1, Some c, Some v)
         | x # xs \<Rightarrow> \<exists>c'. cbufGet (Some c) (Some v) = Some (0, Some c', Some x) \<and> cb_inv c' \<and>
                          cb_list c' = xs \<and> cb_cap c' = cb_cap c"
  using ring.get_none [OF assms, of v] ring.get_some [OF assms, of _ _ v]
  by (simp split: list.split)

theorem cbufGet_spec_witness:
  "\<exists>c'. cbufGet (Some ring2) (Some 0) = Some (0, Some c', Some 5) \<and> cb_list c' = []"
  using cbufGet_spec [OF ring2_inv, of 0]
  by (auto simp: cb_list_def cb_count_def cb_slot_def ring2_def)

text \<open>
  \<open>cbufReset\<close> empties a ring only by its indices: when the first slot after the reset still
  holds an old value, the next put into the now empty ring is refused (-1) although it advanced
  the head, and the next get delivers the old value.
\<close>

theorem cbufReset_stale:
  assumes "cb_inv c" and "1 < cb_maxlen c" and "cb_buffer c ! 1 \<noteq> 0"
  shows "cbufEmpty (cbufReset (Some c)) \<and>
         (\<exists>c'. cbufPut (cbufReset (Some c)) y d = Some (-1, Some c', d) \<and>
               (\<exists>c''. cbufGet (Some c') (Some v) = Some (0, Some c'', Some (cb_buffer c ! 1))))"
proof -
  note r = cb_range [OF assms(1)]
  let ?c0 = "c\<lparr>cb_head := 0, cb_tail := 0\<rparr>"
  let ?c1 = "c\<lparr>cb_head := 1, cb_tail := 0\<rparr>"
  have one: "c_add 0 1 = Some 1" "c_rem 1 (cb_maxlen c) = Some 1"
    using assms(2) by (simp_all add: c_add_def c_rem_pos)
  have p: "cbufPut_loop ?c0 d 0 = Some (?c1, d, True, 1)"
    using one cbufPut_loop_once [of ?c0 1 1 d 0] by simp
  have g: "cbufGet_loop ?c1 0 = Some (?c1\<lparr>cb_tail := 1\<rparr>, True, 1)"
    using one cbufGet_loop_once [of ?c1 1 1 0] by simp
  have b: "aget (cb_buffer c) 1 = Some (cb_buffer c ! 1)"
    using r assms(2) by (simp add: aget_def)
  have w: "aset (cb_buffer c) 1 0 = Some ((cb_buffer c)[1 := 0])"
    using r assms(2) by (simp add: aset_def)
  have "cbufPut (Some ?c0) y d = Some (-1, Some ?c1, d)"
    using p b assms(3) by (simp add: cbufPut_def)
  moreover have "cbufGet (Some ?c1) (Some v) =
      Some (0, Some (?c1\<lparr>cb_tail := 1, cb_buffer := (cb_buffer c)[1 := 0]\<rparr>), Some (cb_buffer c ! 1))"
    using g b w by (simp add: cbufGet_def)
  ultimately show ?thesis by (simp add: cbufReset_def cbufEmpty_def)
qed

theorem cbufReset_stale_witness:
  "\<exists>c'. cbufPut (cbufReset (Some \<lparr>cb_buffer = [0, 5, 0], cb_head = 1, cb_tail = 0, cb_maxlen = 3\<rparr>)) 9 0
         = Some (-1, Some c', 0)"
proof -
  have "cb_inv \<lparr>cb_buffer = [0, 5, 0], cb_head = 1, cb_tail = 0, cb_maxlen = 3\<rparr>"
    by code_simp
  from cbufReset_stale [OF this, of 9 0] show ?thesis by auto
qed

text \<open>
  \<open>cbufInit\<close> makes an empty well-formed ring whose capacity, as \<open>cbufCapacity\<close> reports it, is
  the requested size, for every size below \<open>INT_MAX\<close>; a failed allocation gives no ring.
\<close>

theorem cbufInit_spec:
  assumes "unat sz < 2 ^ 31 - 1"
  shows "(\<exists>c. cbufInit True True sz = Some c \<and> cb_inv c \<and> cb_list c = [] \<and>
              cbufCapacity (Some c) = sz \<and> cbufEmpty (Some c)) \<and>
         cbufInit False ok sz = None \<and> cbufInit True False sz = None"
proof -
  have b: "uint sz < 2 ^ 31 - 1"
    using uint_less_unat [OF assms] by simp
  obtain c where c: "cbufInit True True sz = Some c" "cb_inv c" "cb_list c = []"
    using cbufInit_small [OF assms] by blast
  moreover have "cb_maxlen c = uint sz + 1"
    using c(1) b uint_succ_small [OF assms] by (auto simp: cbufInit_eq to_int32_def)
  then have "cbufCapacity (Some c) = sz"
    by (simp add: cbufCapacity_def)
  moreover have "cbufEmpty (Some c)"
    using c by (simp add: cbufEmpty_def cb_empty_iff flip: length_cb_list)
  ultimately show ?thesis by (simp add: cbufInit_def)
qed

theorem cbufInit_spec_witness:
  "\<exists>c. cbufInit True True 100000 = Some c \<and> cb_inv c \<and> cbufCapacity (Some c) = 100000"
  using cbufInit_spec [of 100000 True] by auto

text \<open>
  A requested size of \<open>2 ^ 32 - 1\<close> (\<open>APPVIEW_QUEUE_LENGTH\<close> takes any unsigned long) makes
  \<open>maxlen\<close> 0 after the conversion to \<open>int\<close>, and the first put traps on the remainder by zero.
\<close>

theorem cbufInit_wrap_traps:
  "\<exists>c. cbufInit True True (2 ^ 32 - 1) = Some c \<and> cb_maxlen c = 0 \<and> cbufPut (Some c) x d = None"
proof -
  have "cbufPut_loop c d 0 = None" if "cb_head c = 0" "cb_maxlen c = 0" for c
    using that by (subst cbufPut_loop.simps) (simp add: c_add_def c_rem_def)
  then show ?thesis by (simp add: cbufInit_eq to_int32_def cbufPut_def)
qed

end
