(* ===== verification/Key_Store.thy ===== *)
theory Key_Store
  imports Prelude
begin

text \<open>
  The contract of a keyed store: insert refuses a key that is there (and a value that cannot be
  stored, such as NULL), find answers with the value or a null value, delete removes. The linked
  list of \<^verbatim>\<open>src/linklist.c\<close> and the hash table of \<^verbatim>\<open>src/httpmatch.c\<close> both fulfil it; they
  differ in what a deletion returns (\<open>told\<close>, applied to whether the key was there).

  An insertion carries what it needs besides key and value: \<open>None\<close> when its allocation fails,
  otherwise the address of the new element (linked list) or the socket descriptor (hash table).
\<close>

datatype ('a, 'k, 'v) store_op = Ins "'a option" 'k 'v | Find 'k | Del 'k

datatype 'v store_result = Done bool | Found 'v

text \<open>The abstract store: a finite map.\<close>

fun map_op ::
  "('v \<Rightarrow> bool) \<Rightarrow> (bool \<Rightarrow> bool) \<Rightarrow> 'v \<Rightarrow> ('k \<rightharpoonup> 'v) \<Rightarrow> ('a, 'k, 'v) store_op \<Rightarrow>
   ('k \<rightharpoonup> 'v) \<times> 'v store_result" where
  "map_op storable told null M (Ins None k v) = (M, Done False)"
| "map_op storable told null M (Ins (Some a) k v) =
     (if storable v \<and> k \<notin> dom M then (M(k \<mapsto> v), Done True) else (M, Done False))"
| "map_op storable told null M (Find k) = (M, Found (case M k of None \<Rightarrow> null | Some v \<Rightarrow> v))"
| "map_op storable told null M (Del k) = (M(k := None), Done (told (k \<in> dom M)))"

fun map_run ::
  "('v \<Rightarrow> bool) \<Rightarrow> (bool \<Rightarrow> bool) \<Rightarrow> 'v \<Rightarrow> ('k \<rightharpoonup> 'v) \<Rightarrow> ('a, 'k, 'v) store_op list \<Rightarrow>
   ('k \<rightharpoonup> 'v) \<times> 'v store_result list" where
  "map_run storable told null M [] = (M, [])"
| "map_run storable told null M (x # xs) =
     (let (M', r) = map_op storable told null M x; (M'', rs) = map_run storable told null M' xs
      in (M'', r # rs))"

text \<open>A store given by its operations; a step or a run that is undefined is \<open>None\<close>.\<close>

fun store_step ::
  "('s \<Rightarrow> 'a option \<Rightarrow> 'k \<Rightarrow> 'v \<Rightarrow> ('s \<times> bool) option) \<Rightarrow> ('s \<Rightarrow> 'k \<Rightarrow> ('s \<times> 'v) option) \<Rightarrow>
   ('s \<Rightarrow> 'k \<Rightarrow> ('s \<times> bool) option) \<Rightarrow> 's \<Rightarrow> ('a, 'k, 'v) store_op \<Rightarrow> ('s \<times> 'v store_result) option" where
  "store_step ins fnd del s (Ins a k v) = map_option (\<lambda>(s', r). (s', Done r)) (ins s a k v)"
| "store_step ins fnd del s (Find k) = map_option (\<lambda>(s', r). (s', Found r)) (fnd s k)"
| "store_step ins fnd del s (Del k) = map_option (\<lambda>(s', r). (s', Done r)) (del s k)"

fun store_run ::
  "('s \<Rightarrow> 'a option \<Rightarrow> 'k \<Rightarrow> 'v \<Rightarrow> ('s \<times> bool) option) \<Rightarrow> ('s \<Rightarrow> 'k \<Rightarrow> ('s \<times> 'v) option) \<Rightarrow>
   ('s \<Rightarrow> 'k \<Rightarrow> ('s \<times> bool) option) \<Rightarrow> 's \<Rightarrow> ('a, 'k, 'v) store_op list \<Rightarrow>
   ('s \<times> 'v store_result list) option" where
  "store_run ins fnd del s [] = Some (s, [])"
| "store_run ins fnd del s (x # xs) =
     do { (s', r) \<leftarrow> store_step ins fnd del s x;
          (s'', rs) \<leftarrow> store_run ins fnd del s' xs;
          Some (s'', r # rs) }"

text \<open>Every allocation of the run is fresh in the state in which it is made.\<close>

fun fresh_run ::
  "('s \<Rightarrow> 'a option \<Rightarrow> 'k \<Rightarrow> 'v \<Rightarrow> ('s \<times> bool) option) \<Rightarrow> ('s \<Rightarrow> 'k \<Rightarrow> ('s \<times> 'v) option) \<Rightarrow>
   ('s \<Rightarrow> 'k \<Rightarrow> ('s \<times> bool) option) \<Rightarrow> ('s \<Rightarrow> 'a \<Rightarrow> bool) \<Rightarrow> 's \<Rightarrow> ('a, 'k, 'v) store_op list \<Rightarrow> bool" where
  "fresh_run ins fnd del fresh s [] = True"
| "fresh_run ins fnd del fresh s (x # xs) =
     ((case x of Ins (Some a) _ _ \<Rightarrow> fresh s a | _ \<Rightarrow> True) \<and>
      (case store_step ins fnd del s x of
         None \<Rightarrow> True
       | Some (s', r) \<Rightarrow> fresh_run ins fnd del fresh s' xs))"

locale key_store =
  fixes ins :: "'s \<Rightarrow> 'a option \<Rightarrow> 'k \<Rightarrow> 'v \<Rightarrow> ('s \<times> bool) option"
    and fnd :: "'s \<Rightarrow> 'k \<Rightarrow> ('s \<times> 'v) option"
    and del :: "'s \<Rightarrow> 'k \<Rightarrow> ('s \<times> bool) option"
    and fresh :: "'s \<Rightarrow> 'a \<Rightarrow> bool"
    and storable :: "'v \<Rightarrow> bool"
    and told :: "bool \<Rightarrow> bool"
    and null :: 'v
    and holds :: "'s \<Rightarrow> ('k \<rightharpoonup> 'v) \<Rightarrow> bool"
  assumes ins_fail: "holds s M \<Longrightarrow> ins s None k v = Some (s, False)"
    and ins_refused: "holds s M \<Longrightarrow> fresh s a \<Longrightarrow> k \<in> dom M \<or> \<not> storable v \<Longrightarrow>
                        ins s (Some a) k v = Some (s, False)"
    and ins_new: "holds s M \<Longrightarrow> fresh s a \<Longrightarrow> k \<notin> dom M \<Longrightarrow> storable v \<Longrightarrow>
                    \<exists>s'. ins s (Some a) k v = Some (s', True) \<and> holds s' (M(k \<mapsto> v))"
    and fnd_value: "holds s M \<Longrightarrow> fnd s k = Some (s, case M k of None \<Rightarrow> null | Some v \<Rightarrow> v)"
    and del_missing: "holds s M \<Longrightarrow> k \<notin> dom M \<Longrightarrow> del s k = Some (s, told False)"
    and del_present: "holds s M \<Longrightarrow> k \<in> dom M \<Longrightarrow>
                        \<exists>s'. del s k = Some (s', told True) \<and> holds s' (M(k := None))"
begin

lemma step_refines:
  assumes "holds s M" "case x of Ins (Some a) _ _ \<Rightarrow> fresh s a | _ \<Rightarrow> True"
  shows "\<exists>s'. store_step ins fnd del s x = Some (s', snd (map_op storable told null M x)) \<and>
              holds s' (fst (map_op storable told null M x))"
proof (cases x)
  case (Ins a k v)
  show ?thesis
  proof (cases a)
    case None
    with Ins assms show ?thesis by (simp add: ins_fail)
  next
    case (Some b)
    then have "fresh s b" using assms(2) Ins by simp
    with Ins Some assms(1) show ?thesis
      using ins_new [of s M b k v] ins_refused [of s M b k v]
      by (cases "k \<in> dom M \<or> \<not> storable v") auto
  qed
next
  case (Find k)
  with assms show ?thesis by (simp add: fnd_value)
next
  case (Del k)
  show ?thesis
  proof (cases "k \<in> dom M")
    case True
    with del_present [OF assms(1) True] Del show ?thesis by auto
  next
    case False
    then have "M(k := None) = M" by (auto simp: fun_upd_idem)
    with del_missing [OF assms(1) False] Del False assms(1) show ?thesis by (simp add: domIff)
  qed
qed

text \<open>Every run of operations ends, is defined throughout and answers as the map does.\<close>

lemma run_refines:
  assumes "holds s M" "fresh_run ins fnd del fresh s xs"
  shows "\<exists>s'. store_run ins fnd del s xs = Some (s', snd (map_run storable told null M xs)) \<and>
              holds s' (fst (map_run storable told null M xs))"
  using assms
proof (induction xs arbitrary: s M)
  case (Cons x xs)
  from Cons.prems(2) have fr: "case x of Ins (Some a) _ _ \<Rightarrow> fresh s a | _ \<Rightarrow> True"
    by simp
  from step_refines [OF Cons.prems(1) fr] obtain s'
    where s': "store_step ins fnd del s x = Some (s', snd (map_op storable told null M x))"
      "holds s' (fst (map_op storable told null M x))"
    by blast
  then show ?case
    using Cons.IH [OF s'(2)] Cons.prems(2) by (auto simp: split_def Let_def)
qed simp

end

end
