(* ===== verification/Linklist.thy ===== *)
theory Linklist
  imports Atomic Key_Store
begin

unbundle bit_operations_syntax

text \<open>
  The key-ordered list of \<^verbatim>\<open>src/linklist.c\<close> (Harris's non-blocking list with mark bits in the
  \<open>next\<close> pointers), over an explicit heap.

  A pointer is a 64-bit number, NULL is 0 and the mark is bit 0. The heap maps the address of an
  allocated element to its fields; following an address that is not allocated (NULL, freed or
  marked) is undefined. \<open>delete_fn\<close> is outside the sources: what is modelled is whether the list
  has one and with which data pointers it is called (\<open>m_deleted\<close>). An allocation is an argument:
  \<open>None\<close> when it fails, otherwise the address it returns.

  Every operation is run from beginning to end without interference, except that \<open>lstDelete\<close> is
  cut where another thread can observe the marked node: \<open>lstDelete_mark\<close> up to the
  compare-and-swap that marks it and \<open>lstDelete_unlink\<close> from the one that unlinks it on. The loops are partial functions, so that
  a result \<open>Some\<close> says both that the loop ends and that every access is defined.
\<close>

section \<open>Pointers, elements, heap\<close>

type_synonym addr = u64

record list_element_t =
  el_key :: u64
  el_data :: addr
  el_next :: addr

record list_t =
  l_delete_fn :: bool
  l_head :: addr

type_synonym heap = "addr \<Rightarrow> list_element_t option"

record lmem =
  m_heap :: heap
  m_deleted :: "addr list"

definition is_marked_reference :: "addr \<Rightarrow> bool" where
  "is_marked_reference p \<longleftrightarrow> p AND 1 \<noteq> 0"

definition get_unmarked_reference :: "addr \<Rightarrow> addr" where
  "get_unmarked_reference p = p AND NOT 1"

definition get_marked_reference :: "addr \<Rightarrow> addr" where
  "get_marked_reference p = p OR 1"

text \<open>\<open>CAS(&e->next, oldval, newval)\<close> on the element at address \<open>e\<close>.\<close>

definition CAS_next :: "heap \<Rightarrow> addr \<Rightarrow> addr \<Rightarrow> addr \<Rightarrow> (heap \<times> bool) option" where
  "CAS_next h e oldval newval =
     (case h e of
        None \<Rightarrow> None
      | Some n \<Rightarrow>
          let (cell, ok) = atomicCasU64 (el_next n) oldval newval
          in Some (h(e \<mapsto> n\<lparr>el_next := cell\<rparr>), ok))"

section \<open>Operations\<close>

text \<open>The inner loop of \<open>search\<close>: returns \<open>t\<close>, \<open>left_node\<close> and \<open>left_node_next\<close>.\<close>

partial_function (option) search_scan ::
  "heap \<Rightarrow> u64 \<Rightarrow> addr \<Rightarrow> addr \<Rightarrow> addr \<Rightarrow> addr \<Rightarrow> (addr \<times> addr \<times> addr) option" where
  "search_scan h search_key t t_next left_node left_node_next =
     (let (left_node, left_node_next) =
            (if \<not> is_marked_reference t_next then (t, t_next) else (left_node, left_node_next));
          t = get_unmarked_reference t_next
      in if t = 0 then Some (t, left_node, left_node_next)
         else (case h t of
                 None \<Rightarrow> None
               | Some n \<Rightarrow>
                   if is_marked_reference (el_next n) \<or> el_key n < search_key
                   then search_scan h search_key t (el_next n) left_node left_node_next
                   else Some (t, left_node, left_node_next)))"

text \<open>Whether \<open>(right_node) && is_marked_reference(right_node->next)\<close>.\<close>

definition right_marked :: "heap \<Rightarrow> addr \<Rightarrow> bool option" where
  "right_marked h right_node =
     (if right_node = 0 then Some False
      else map_option (\<lambda>n. is_marked_reference (el_next n)) (h right_node))"

text \<open>The outer loop: the new heap, \<open>right_node\<close> and \<open>left_node\<close>.\<close>

partial_function (option) search_loop ::
  "heap \<Rightarrow> addr \<Rightarrow> u64 \<Rightarrow> addr \<Rightarrow> addr \<Rightarrow> (heap \<times> addr \<times> addr) option" where
  "search_loop h head search_key left_node left_node_next =
     Option.bind (h head) (\<lambda>hd.
     Option.bind (search_scan h search_key head (el_next hd) left_node left_node_next)
       (\<lambda>(right_node, left_node, left_node_next).
          if left_node_next = right_node
          then Option.bind (right_marked h right_node) (\<lambda>marked.
                 if marked then search_loop h head search_key left_node left_node_next
                 else Some (h, right_node, left_node))
          else Option.bind (CAS_next h left_node left_node_next right_node) (\<lambda>(h, ok).
                 if ok
                 then Option.bind (right_marked h right_node) (\<lambda>marked.
                        if marked then search_loop h head search_key left_node left_node_next
                        else Some (h, right_node, left_node))
                 else search_loop h head search_key left_node left_node_next)))"

definition search :: "heap \<Rightarrow> list_t \<Rightarrow> u64 \<Rightarrow> (heap \<times> addr \<times> addr) option" where
  "search h list search_key =
     (if l_head list = 0 then Some (h, 0, 0)
      else Option.bind (h (l_head list)) (\<lambda>hd.
             search_loop h (l_head list) search_key (l_head list) (el_next hd)))"

definition lstCreate :: "lmem \<Rightarrow> bool \<Rightarrow> addr option \<Rightarrow> bool \<Rightarrow> lmem \<times> list_t option" where
  "lstCreate m list_ok head_addr delete_fn =
     (case (list_ok, head_addr) of
        (True, Some head) \<Rightarrow>
          (m\<lparr>m_heap := (m_heap m)(head \<mapsto> \<lparr>el_key = 0, el_data = 0, el_next = 0\<rparr>)\<rparr>,
           Some \<lparr>l_delete_fn = delete_fn, l_head = head\<rparr>)
      | _ \<Rightarrow> (m, None))"

text \<open>The retry loop of \<open>lstInsert\<close>, with the new element already allocated at \<open>new_node\<close>.\<close>

partial_function (option) lstInsert_loop :: "heap \<Rightarrow> list_t \<Rightarrow> u64 \<Rightarrow> addr \<Rightarrow> (heap \<times> bool) option" where
  "lstInsert_loop h list key new_node =
     Option.bind (search h list key) (\<lambda>(h, right_node, left_node).
     Option.bind (if right_node = 0 then Some False
                  else map_option (\<lambda>n. el_key n = key) (h right_node)) (\<lambda>found.
     if found then Some (h(new_node := None), False)
     else Option.bind (h new_node) (\<lambda>nn.
          let h = h(new_node \<mapsto> nn\<lparr>el_next := right_node\<rparr>)
          in Option.bind (CAS_next h left_node right_node new_node) (\<lambda>(h, ok).
               if ok then Some (h, True) else lstInsert_loop h list key new_node))))"

definition lstInsert ::
  "lmem \<Rightarrow> list_t option \<Rightarrow> addr option \<Rightarrow> u64 \<Rightarrow> addr \<Rightarrow> (lmem \<times> bool) option" where
  "lstInsert m list new_addr key data =
     (case list of
        None \<Rightarrow> Some (m, False)
      | Some l \<Rightarrow>
          (case new_addr of
             None \<Rightarrow> Some (m, False)
           | Some a \<Rightarrow>
               map_option (\<lambda>(h, r). (m\<lparr>m_heap := h\<rparr>, r))
                 (lstInsert_loop ((m_heap m)(a \<mapsto> \<lparr>el_key = key, el_data = data, el_next = 0\<rparr>)) l key a)))"

text \<open>
  \<open>lstDelete\<close> up to the compare-and-swap that marks the element: the heap, and
  \<open>right_node\<close>, \<open>right_node_next\<close>, \<open>left_node\<close>, or nothing when the key is not there.
\<close>

partial_function (option) lstDelete_mark ::
  "heap \<Rightarrow> list_t \<Rightarrow> u64 \<Rightarrow> (heap \<times> (addr \<times> addr \<times> addr) option) option" where
  "lstDelete_mark h list search_key =
     Option.bind (search h list search_key) (\<lambda>(h, right_node, left_node).
       if right_node = 0 then Some (h, None)
       else Option.bind (h right_node) (\<lambda>rn.
         if el_key rn \<noteq> search_key then Some (h, None)
         else
           let right_node_next = el_next rn
           in if \<not> is_marked_reference right_node_next
              then Option.bind (CAS_next h right_node right_node_next (get_marked_reference right_node_next))
                     (\<lambda>(h, ok). if ok then Some (h, Some (right_node, right_node_next, left_node))
                                else lstDelete_mark h list search_key)
              else lstDelete_mark h list search_key))"

text \<open>
  \<open>lstDelete\<close> from the unlinking compare-and-swap to its end. Reading \<open>right_node->data\<close> of a null
  \<open>right_node\<close> is undefined.
\<close>

definition lstDelete_unlink :: "lmem \<Rightarrow> list_t \<Rightarrow> addr \<Rightarrow> addr \<Rightarrow> addr \<Rightarrow> lmem option" where
  "lstDelete_unlink m list right_node right_node_next left_node =
     Option.bind (CAS_next (m_heap m) left_node right_node right_node_next) (\<lambda>(h, ok).
     Option.bind (if ok then Some (h, right_node)
                  else Option.bind (h right_node) (\<lambda>rn.
                       map_option (\<lambda>(h, r, l). (h, r)) (search h list (el_key rn))))
       (\<lambda>(h, right_node).
     Option.bind (if l_delete_fn list
                  then map_option (\<lambda>rn. if el_data rn \<noteq> 0 then [el_data rn] else []) (h right_node)
                  else Some []) (\<lambda>dels.
     Some (m\<lparr>m_heap := (if right_node \<noteq> 0 then h(right_node := None) else h),
             m_deleted := m_deleted m @ dels\<rparr>))))"

definition lstDelete :: "lmem \<Rightarrow> list_t option \<Rightarrow> u64 \<Rightarrow> (lmem \<times> bool) option" where
  "lstDelete m list search_key =
     (case list of
        None \<Rightarrow> Some (m, False)
      | Some l \<Rightarrow>
          Option.bind (lstDelete_mark (m_heap m) l search_key) (\<lambda>(h, found).
            case found of
              None \<Rightarrow> Some (m\<lparr>m_heap := h\<rparr>, False)
            | Some (right_node, right_node_next, left_node) \<Rightarrow>
                map_option (\<lambda>m'. (m', True))
                  (lstDelete_unlink (m\<lparr>m_heap := h\<rparr>) l right_node right_node_next left_node)))"

text \<open>\<open>lstFind\<close> returns the data pointer, or NULL; \<open>search\<close> may have unlinked marked elements.\<close>

definition lstFind :: "lmem \<Rightarrow> list_t option \<Rightarrow> u64 \<Rightarrow> (lmem \<times> addr) option" where
  "lstFind m list search_key =
     (case list of
        None \<Rightarrow> Some (m, 0)
      | Some l \<Rightarrow>
          Option.bind (search (m_heap m) l search_key) (\<lambda>(h, right_node, left_node).
            if right_node = 0 then Some (m\<lparr>m_heap := h\<rparr>, 0)
            else Option.bind (h right_node) (\<lambda>rn.
                   Some (m\<lparr>m_heap := h\<rparr>, if el_key rn \<noteq> search_key then 0 else el_data rn))))"

text \<open>The loop of \<open>lstDestroy\<close>: delete the first element until NULL can be marked.\<close>

partial_function (option) lstDestroy_loop :: "lmem \<Rightarrow> list_t \<Rightarrow> lmem option" where
  "lstDestroy_loop m list =
     Option.bind (m_heap m (l_head list)) (\<lambda>hd.
     let head_next = get_unmarked_reference (el_next hd)
     in Option.bind (if head_next \<noteq> 0
                     then Option.bind (m_heap m head_next) (\<lambda>n.
                          map_option fst (lstDelete m (Some list) (el_key n)))
                     else Some m) (\<lambda>m.
        Option.bind (CAS_next (m_heap m) (l_head list) 0 (get_marked_reference 0)) (\<lambda>(h, ok).
          if ok then Some (m\<lparr>m_heap := h\<rparr>) else lstDestroy_loop (m\<lparr>m_heap := h\<rparr>) list)))"

definition lstDestroy :: "lmem \<Rightarrow> list_t option \<Rightarrow> (lmem \<times> list_t option) option" where
  "lstDestroy m list =
     (case list of
        None \<Rightarrow> Some (m, None)
      | Some l \<Rightarrow>
          map_option (\<lambda>m. (m\<lparr>m_heap := (m_heap m)(l_head l := None)\<rparr>, None)) (lstDestroy_loop m l))"

declare search_scan.simps [code] search_loop.simps [code] lstInsert_loop.simps [code]
  lstDelete_mark.simps [code] lstDestroy_loop.simps [code]

section \<open>Mark bits\<close>

lemma marked_iff_odd: "is_marked_reference p \<longleftrightarrow> odd p"
  by (simp add: is_marked_reference_def and_one_eq odd_iff_mod_2_eq_one)

lemma unmarked_even [simp]: "even p \<Longrightarrow> get_unmarked_reference p = p"
  unfolding get_unmarked_reference_def
  by (rule bit_eqI) (auto simp: bit_simps bit_0 intro: gr0I)

lemma get_marked_odd: "odd (get_marked_reference p)"
  by (simp add: get_marked_reference_def even_or_iff)

section \<open>Chains of elements\<close>

text \<open>
  \<open>path h p xs q\<close>: from pointer \<open>p\<close> the unmarked elements \<open>xs\<close> (address, key, data) follow one
  another in the heap, and the last one's \<open>next\<close> is \<open>q\<close>.
\<close>

fun path :: "heap \<Rightarrow> addr \<Rightarrow> (addr \<times> u64 \<times> addr) list \<Rightarrow> addr \<Rightarrow> bool" where
  "path h p [] q = (p = q)"
| "path h p ((a, k, d) # xs) q =
     (p = a \<and> a \<noteq> 0 \<and> even a \<and>
      (case h a of None \<Rightarrow> False | Some n \<Rightarrow> el_key n = k \<and> el_data n = d \<and> path h (el_next n) xs q))"

abbreviation addrs :: "(addr \<times> u64 \<times> addr) list \<Rightarrow> addr list" where
  "addrs xs \<equiv> map fst xs"

abbreviation keys :: "(addr \<times> u64 \<times> addr) list \<Rightarrow> u64 list" where
  "keys xs \<equiv> map (fst \<circ> snd) xs"

lemma path_append: "path h p (xs @ ys) q \<longleftrightarrow> (\<exists>r. path h p xs r \<and> path h r ys q)"
  by (induction xs arbitrary: p) (auto split: option.splits)

lemma path_frame: "a \<notin> set (addrs xs) \<Longrightarrow> path (h(a := v)) p xs q = path h p xs q"
  by (induction xs arbitrary: p) (auto split: option.splits)

lemma path_even: "path h p xs q \<Longrightarrow> even q \<Longrightarrow> even p"
  by (cases xs) (auto split: option.splits)

lemma path_snoc:
  "path h p (xs @ [(a, k, d)]) q \<longleftrightarrow>
     path h p xs a \<and> a \<noteq> 0 \<and> even a \<and> (\<exists>n. h a = Some n \<and> el_key n = k \<and> el_data n = d \<and> el_next n = q)"
  by (auto simp: path_append split: option.splits)

text \<open>The whole list: the sentinel at the head, then the elements in strictly increasing key order.\<close>

definition lst_ok :: "heap \<Rightarrow> list_t \<Rightarrow> (addr \<times> u64 \<times> addr) list \<Rightarrow> bool" where
  "lst_ok h l xs \<longleftrightarrow>
     path h (l_head l) ((l_head l, case_option 0 el_key (h (l_head l)), case_option 0 el_data (h (l_head l))) # xs) 0 \<and>
     distinct (l_head l # addrs xs) \<and> sorted_wrt (<) (keys xs)"

definition below :: "u64 \<Rightarrow> (addr \<times> u64 \<times> addr) list \<Rightarrow> (addr \<times> u64 \<times> addr) list" where
  "below k xs = takeWhile (\<lambda>x. fst (snd x) < k) xs"

definition from_key :: "u64 \<Rightarrow> (addr \<times> u64 \<times> addr) list \<Rightarrow> (addr \<times> u64 \<times> addr) list" where
  "from_key k xs = dropWhile (\<lambda>x. fst (snd x) < k) xs"

definition first_addr :: "(addr \<times> u64 \<times> addr) list \<Rightarrow> addr" where
  "first_addr xs = (case xs of [] \<Rightarrow> 0 | x # _ \<Rightarrow> fst x)"

lemma below_from [simp]: "below k xs @ from_key k xs = xs"
  by (simp add: below_def from_key_def)

lemma path_first: "path h p xs 0 \<Longrightarrow> p = first_addr xs"
  by (cases xs) (auto simp: first_addr_def)

lemma search_scan_path:
  assumes "path h tn xs 0"
  shows "search_scan h k t tn l ln =
           Some (first_addr (from_key k xs), last (t # addrs (below k xs)), first_addr (from_key k xs))"
  using assms
proof (induction xs arbitrary: t tn l ln)
  case Nil
  then show ?case
    by (simp add: search_scan.simps marked_iff_odd first_addr_def from_key_def below_def)
next
  case (Cons x xs)
  obtain a key d where x: "x = (a, key, d)" by (cases x)
  from Cons.prems x obtain n where n: "tn = a" "a \<noteq> 0" "even a" "h a = Some n" "el_key n = key"
    "path h (el_next n) xs 0"
    by (auto split: option.splits)
  have e: "even (el_next n)"
    using path_even [OF n(6)] by simp
  show ?case
    using n e x Cons.IH [OF n(6), of a t a]
    by (subst search_scan.simps)
       (auto simp: marked_iff_odd first_addr_def from_key_def below_def Let_def)
qed

lemma lst_okE:
  assumes "lst_ok h l xs"
  obtains hd where "h (l_head l) = Some hd" "l_head l \<noteq> 0" "even (l_head l)" "path h (el_next hd) xs 0"
    "distinct (l_head l # addrs xs)" "sorted_wrt (<) (keys xs)"
  using assms by (cases "h (l_head l)") (simp_all add: lst_ok_def)

text \<open>On a list without marks \<open>search\<close> finds the first element whose key is not smaller, and its predecessor.\<close>

lemma search_ok:
  assumes "lst_ok h l xs"
  shows "search h l k = Some (h, first_addr (from_key k xs), last (l_head l # addrs (below k xs)))"
proof -
  from assms obtain hd where hd: "h (l_head l) = Some hd" "l_head l \<noteq> 0" "path h (el_next hd) xs 0"
    by (rule lst_okE)
  have "path h (el_next hd) (below k xs @ from_key k xs) 0"
    using hd(3) by simp
  then obtain r where "path h r (from_key k xs) 0"
    by (auto simp only: path_append)
  then have m: "right_marked h (first_addr (from_key k xs)) = Some False"
    by (cases "from_key k xs")
       (auto simp: right_marked_def first_addr_def marked_iff_odd dest: path_even split: option.splits)
  have "search_loop h (l_head l) k (l_head l) (el_next hd) =
          Some (h, first_addr (from_key k xs), last (l_head l # addrs (below k xs)))"
    by (subst search_loop.simps) (simp add: hd(1) m search_scan_path [OF hd(3)] del: last.simps)
  with hd(1,2) show ?thesis by (simp add: search_def)
qed

lemma lst_ok_iff:
  "lst_ok h l xs \<longleftrightarrow>
     (\<exists>hk hd. path h (l_head l) ((l_head l, hk, hd) # xs) 0) \<and>
     distinct (l_head l # addrs xs) \<and> sorted_wrt (<) (keys xs)"
  by (cases "h (l_head l)") (simp_all add: lst_ok_def)

text \<open>
  Changing the \<open>next\<close> of the last element before a cut of the list: the elements after the cut
  are replaced by whatever the new pointer leads to.
\<close>

lemma redirect:
  assumes ok: "lst_ok h l (ys @ zs)" and a: "a = last (l_head l # addrs ys)"
  obtains n where "h a = Some n" "el_next n = first_addr zs"
    "\<And>h' r ws. h' = h(a \<mapsto> n\<lparr>el_next := r\<rparr>) \<Longrightarrow> path h' r ws 0 \<Longrightarrow>
        distinct (l_head l # addrs (ys @ ws)) \<Longrightarrow> sorted_wrt (<) (keys (ys @ ws)) \<Longrightarrow> lst_ok h' l (ys @ ws)"
proof -
  from ok obtain hk hd where p: "path h (l_head l) (((l_head l, hk, hd) # ys) @ zs) 0"
    and dist: "distinct (l_head l # addrs (ys @ zs))"
    by (auto simp: lst_ok_iff)
  define C where "C = (l_head l, hk, hd) # ys"
  obtain k d where last: "last C = (a, k, d)"
    using a by (cases "last C") (auto simp: C_def last_map split: if_splits)
  have C: "C = butlast C @ [(a, k, d)]"
    using last append_butlast_last_id [of C] by (simp add: C_def)
  from p obtain q where q: "path h (l_head l) C q" "path h q zs 0"
    unfolding C_def [symmetric] by (auto simp only: path_append)
  from q(1) have "path h (l_head l) (butlast C @ [(a, k, d)]) q"
    by (simp flip: C)
  then obtain n where n: "path h (l_head l) (butlast C) a" "a \<noteq> 0" "even a" "h a = Some n"
    "el_key n = k" "el_data n = d" "el_next n = q"
    by (auto simp: path_snoc)
  have "distinct (addrs C)"
    using dist by (auto simp: C_def)
  then have fresh: "a \<notin> set (addrs (butlast C))"
    by (subst (asm) C) simp
  show thesis
  proof (rule that [of n])
    show "h a = Some n" "el_next n = first_addr zs"
      using n q(2) by (auto dest: path_first)
    fix h' r ws
    assume h': "h' = h(a \<mapsto> n\<lparr>el_next := r\<rparr>)" and ws: "path h' r ws 0"
      and dw: "distinct (l_head l # addrs (ys @ ws))" and sw: "sorted_wrt (<) (keys (ys @ ws))"
    have "path h' (l_head l) (butlast C @ [(a, k, d)]) r"
      using n path_frame [OF fresh, of h "Some (n\<lparr>el_next := r\<rparr>)"] by (auto simp: path_snoc h')
    then have "path h' (l_head l) (C @ ws) 0"
      using ws by (subst path_append) (auto simp flip: C)
    then show "lst_ok h' l (ys @ ws)"
      using dw sw by (auto simp: lst_ok_iff C_def)
  qed
qed

lemma from_key_hd:
  assumes "sorted_wrt (<) (keys xs)"
  shows "(\<exists>a d zs. from_key k xs = (a, k, d) # zs) \<longleftrightarrow> k \<in> set (keys xs)"
  using assms
  by (induction xs) (auto simp: from_key_def)

lemma below_less: "x \<in> set (below k xs) \<Longrightarrow> fst (snd x) < k"
  by (auto simp: below_def dest: set_takeWhileD)

lemma from_key_ge:
  assumes "sorted_wrt (<) (keys xs)" "x \<in> set (from_key k xs)"
  shows "k \<le> fst (snd x)"
  using assms by (induction xs) (force simp: from_key_def split: if_splits)+

text \<open>The right neighbour found by \<open>search\<close>, as the operations test it.\<close>

lemma right_node_cases:
  assumes "lst_ok h l xs"
  obtains (none) "from_key k xs = []" "first_addr (from_key k xs) = 0"
  | (some) a k' d zs n where "from_key k xs = (a, k', d) # zs" "first_addr (from_key k xs) = a" "a \<noteq> 0"
      "even a" "h a = Some n" "el_key n = k'" "el_data n = d" "el_next n = first_addr zs" "even (el_next n)"
proof (cases "from_key k xs")
  case Nil
  then show ?thesis by (intro none) (simp_all add: first_addr_def)
next
  case (Cons x zs)
  from assms obtain hd where "h (l_head l) = Some hd" "path h (el_next hd) xs 0"
    by (rule lst_okE)
  then have "path h (el_next hd) (below k xs @ from_key k xs) 0"
    by simp
  then obtain r where "path h r (from_key k xs) 0"
    by (auto simp only: path_append)
  with Cons show ?thesis
    by (cases x) (auto simp: first_addr_def intro!: some split: option.splits dest: path_first path_even)
qed

section \<open>The operations on a list without marks\<close>

text \<open>An address that an allocation can return: aligned, so its mark bit is clear, and not in use.\<close>

definition lst_fresh :: "heap \<Rightarrow> addr \<Rightarrow> bool" where
  "lst_fresh h a \<longleftrightarrow> a \<noteq> 0 \<and> \<not> is_marked_reference a \<and> h a = None"

lemma lst_ok_alloc:
  assumes "lst_ok h l xs" "h a = None"
  shows "a \<notin> set (l_head l # addrs xs)"
proof -
  have alloc: "h (fst x) \<noteq> None" if "path h p ys q" "x \<in> set ys" for x p q ys
    using that by (induction ys arbitrary: p) (auto split: option.splits)
  from assms(1) obtain hk hd where "path h (l_head l) ((l_head l, hk, hd) # xs) 0"
    by (auto simp only: lst_ok_iff)
  with alloc have "\<forall>x\<in>set ((l_head l, hk, hd) # xs). h (fst x) \<noteq> None"
    by blast
  with assms(2) show ?thesis by auto
qed

lemma lst_ok_frame:
  assumes "lst_ok h l xs" "a \<notin> set (l_head l # addrs xs)"
  shows "lst_ok (h(a := v)) l xs"
  using assms by (cases "h (l_head l)") (auto simp: lst_ok_def path_frame)

lemma lst_ok_split:
  assumes "lst_ok h l xs"
  shows "distinct (l_head l # addrs (below k xs) @ addrs (from_key k xs))"
    "sorted_wrt (<) (keys (below k xs) @ keys (from_key k xs))"
    "set xs = set (below k xs) \<union> set (from_key k xs)"
proof -
  have "distinct (l_head l # addrs (below k xs @ from_key k xs))"
    "sorted_wrt (<) (keys (below k xs @ from_key k xs))"
    using assms by (simp_all add: lst_ok_def)
  then show "distinct (l_head l # addrs (below k xs) @ addrs (from_key k xs))"
    "sorted_wrt (<) (keys (below k xs) @ keys (from_key k xs))"
    by (simp_all only: map_append)
  show "set xs = set (below k xs) \<union> set (from_key k xs)"
    using set_append [of "below k xs" "from_key k xs"] by simp
qed

lemma dist_left:
  assumes "lst_ok h l xs" "a \<in> insert (l_head l) (set (addrs (below k xs)))"
  shows "a \<notin> set (addrs (from_key k xs))"
  using lst_ok_split(1) [OF assms(1), of k] assms(2)
  by (simp only: distinct.simps distinct_append set_append Un_iff) blast

lemma left_node_in:
  "last (l_head l # addrs (below k xs)) \<in> insert (l_head l) (set (addrs (below k xs)))"
  using last_in_set [of "l_head l # addrs (below k xs)"] by (simp only: list.set) simp

lemma lstInsert_loop_found:
  assumes "lst_ok h l xs" "k \<in> set (keys xs)"
  shows "lstInsert_loop h l k a = Some (h(a := None), False)"
proof -
  from assms obtain b d zs where z: "from_key k xs = (b, k, d) # zs"
    using from_key_hd [of xs k] by (auto simp: lst_ok_def)
  from assms(1) show ?thesis
  proof (cases rule: right_node_cases [where k = k])
    case none
    with z show ?thesis by simp
  next
    case (some b' k' d' zs' n)
    with z show ?thesis
      by (subst lstInsert_loop.simps) (simp add: search_ok [OF assms(1)])
  qed
qed

lemma lstInsert_loop_new:
  assumes ok: "lst_ok h l xs" and new: "k \<notin> set (keys xs)"
    and a: "a \<noteq> 0" "even a" "a \<notin> set (l_head l # addrs xs)"
    and na: "h a = Some \<lparr>el_key = k, el_data = d, el_next = nx\<rparr>"
  shows "\<exists>h'. lstInsert_loop h l k a = Some (h', True) \<and>
              lst_ok h' l (below k xs @ (a, k, d) # from_key k xs) \<and>
              (\<forall>x. x \<notin> set (l_head l # addrs xs) \<longrightarrow> x \<noteq> a \<longrightarrow> h' x = h x)"
proof -
  define r where "r = first_addr (from_key k xs)"
  define lft where "lft = last (l_head l # addrs (below k xs))"
  define h1 where "h1 = h(a \<mapsto> \<lparr>el_key = k, el_data = d, el_next = r\<rparr>)"
  have find: "search h l k = Some (h, r, lft)"
    using search_ok [OF ok] by (simp only: r_def lft_def)
  have ok': "lst_ok h1 l (below k xs @ from_key k xs)"
    using lst_ok_frame [OF ok a(3)] by (simp add: h1_def)
  have srt: "sorted_wrt (<) (keys xs)"
    using ok by (simp add: lst_ok_def)
  note dist = lst_ok_split(1) [OF ok, of k] and srt' = lst_ok_split(2) [OF ok, of k]
    and sub = lst_ok_split(3) [OF ok, of k]
  obtain n where n: "h1 lft = Some n" "el_next n = r"
    and upd: "\<And>h' r ws. h' = h1(lft \<mapsto> n\<lparr>el_next := r\<rparr>) \<Longrightarrow> path h' r ws 0 \<Longrightarrow>
        distinct (l_head l # addrs (below k xs @ ws)) \<Longrightarrow> sorted_wrt (<) (keys (below k xs @ ws)) \<Longrightarrow>
        lst_ok h' l (below k xs @ ws)"
    using redirect [OF ok' lft_def] by (auto simp only: r_def)
  have left_in: "lft \<in> insert (l_head l) (set (addrs (below k xs)))"
    unfolding lft_def by (rule left_node_in)
  with a(3) sub have la: "lft \<noteq> a" by auto
  define h' where "h' = h1(lft \<mapsto> n\<lparr>el_next := a\<rparr>)"
  have found: "(if r = 0 then Some False else map_option (\<lambda>n. el_key n = k) (h r)) = Some False"
    using ok
  proof (cases rule: right_node_cases [where k = k])
    case (some b k' d' zs n')
    then have "k' \<in> set (keys xs)"
      using sub by force
    with some new show ?thesis by (auto simp: r_def)
  qed (simp add: r_def)
  have "lstInsert_loop h l k a = Some (h', True)"
    using n found la
    by (subst lstInsert_loop.simps)
       (simp add: find na CAS_next_def atomicCasU64_def h'_def h1_def)
  moreover have "lst_ok h' l (below k xs @ (a, k, d) # from_key k xs)"
  proof (rule upd [OF h'_def])
    from ok' obtain hd where "h1 (l_head l) = Some hd" "path h1 (el_next hd) (below k xs @ from_key k xs) 0"
      by (rule lst_okE)
    then obtain r' where r': "path h1 r' (from_key k xs) 0"
      by (auto simp only: path_append)
    then have "r' = r" unfolding r_def by (rule path_first)
    moreover have "lft \<notin> set (addrs (from_key k xs))"
      using dist_left [OF ok] left_in by blast
    ultimately have "path h' r (from_key k xs) 0"
      using r' by (simp add: h'_def path_frame)
    then show "path h' a ((a, k, d) # from_key k xs) 0"
      using a la by (simp add: h'_def h1_def)
    show "distinct (l_head l # addrs (below k xs @ (a, k, d) # from_key k xs))"
      using dist a(3) sub by auto
    have "k < fst (snd x)" if "x \<in> set (from_key k xs)" for x
      using from_key_ge [OF srt that] that sub new by (auto simp: order.strict_iff_order)
    then show "sorted_wrt (<) (keys (below k xs @ (a, k, d) # from_key k xs))"
      using below_less [of _ k xs] srt' by (auto simp: sorted_wrt_append)
  qed
  moreover have "h' x = h x" if "x \<notin> set (l_head l # addrs xs)" "x \<noteq> a" for x
    using that left_in sub by (auto simp: h'_def h1_def)
  ultimately show ?thesis by blast
qed

lemma lstInsert_found:
  assumes "lst_ok (m_heap m) l xs" "k \<in> set (keys xs)" "lst_fresh (m_heap m) a"
  shows "lstInsert m (Some l) (Some a) k d = Some (m, False)"
proof -
  have a: "a \<notin> set (l_head l # addrs xs)" "m_heap m a = None"
    using assms(3) lst_ok_alloc [OF assms(1)] by (auto simp: lst_fresh_def marked_iff_odd)
  show ?thesis
    using lstInsert_loop_found [OF lst_ok_frame [OF assms(1) a(1)] assms(2)] a(2)
    by (simp add: lstInsert_def fun_upd_idem)
qed

lemma lstInsert_new:
  assumes "lst_ok (m_heap m) l xs" "k \<notin> set (keys xs)" "lst_fresh (m_heap m) a"
  shows "\<exists>h'. lstInsert m (Some l) (Some a) k d = Some (m\<lparr>m_heap := h'\<rparr>, True) \<and>
              lst_ok h' l (below k xs @ (a, k, d) # from_key k xs) \<and>
              (\<forall>x. x \<notin> set (l_head l # addrs xs) \<longrightarrow> x \<noteq> a \<longrightarrow> h' x = m_heap m x)"
proof -
  have a: "a \<notin> set (l_head l # addrs xs)" "a \<noteq> 0" "even a"
    using assms(3) lst_ok_alloc [OF assms(1)] by (auto simp: lst_fresh_def marked_iff_odd)
  show ?thesis
    using lstInsert_loop_new [OF lst_ok_frame [OF assms(1) a(1)] assms(2) a(2,3,1)]
    by (fastforce simp: lstInsert_def)
qed

lemma lstFind_ok:
  assumes "lst_ok (m_heap m) l xs"
  shows "lstFind m (Some l) k =
           Some (m, case map_of (map snd xs) k of None \<Rightarrow> 0 | Some d \<Rightarrow> d)"
proof -
  have srt: "sorted_wrt (<) (keys xs)"
    using assms by (simp add: lst_ok_def)
  have b: "map_of (map snd (below k xs)) k = None"
    using below_less [of _ k xs] by (fastforce simp: map_of_eq_None_iff)
  have "map_of (map snd xs) k = map_of (map snd (below k xs @ from_key k xs)) k"
    by simp
  also have "\<dots> = map_of (map snd (from_key k xs)) k"
    by (simp only: map_append map_of_append) (simp add: map_add_def b split: option.split)
  finally have f: "map_of (map snd xs) k = map_of (map snd (from_key k xs)) k" .
  from assms show ?thesis
  proof (cases rule: right_node_cases [where k = k])
    case none
    with f show ?thesis by (simp add: lstFind_def search_ok [OF assms])
  next
    case (some a k' d zs n)
    have "map_of (map snd (from_key k xs)) k = None" if "k' \<noteq> k"
    proof -
      have "k \<notin> set (keys xs)"
        using from_key_hd [OF srt, of k] some(1) that by auto
      then show ?thesis
        using lst_ok_split(3) [OF assms, of k] by (force simp: map_of_eq_None_iff)
    qed
    with some f show ?thesis
      by (cases "k' = k") (auto simp: lstFind_def search_ok [OF assms])
  qed
qed

lemma lstDelete_missing:
  assumes "lst_ok (m_heap m) l xs" "k \<notin> set (keys xs)"
  shows "lstDelete m (Some l) k = Some (m, False)"
proof -
  have "lstDelete_mark (m_heap m) l k = Some (m_heap m, None)"
    using assms(1)
  proof (cases rule: right_node_cases [where k = k])
    case none
    then show ?thesis
      by (subst lstDelete_mark.simps) (simp add: search_ok [OF assms(1)])
  next
    case (some a k' d zs n)
    have "k' \<in> set (keys xs)"
      using some(1) lst_ok_split(3) [OF assms(1), of k] by force
    with assms(2) some show ?thesis
      by (subst lstDelete_mark.simps) (auto simp: search_ok [OF assms(1)])
  qed
  then show ?thesis by (simp add: lstDelete_def)
qed

lemma lstDelete_found:
  assumes ok: "lst_ok (m_heap m) l xs" and f: "from_key k xs = (b, k, d) # zs"
  shows "\<exists>h'. lstDelete m (Some l) k =
           Some (m\<lparr>m_heap := h',
                   m_deleted := m_deleted m @ (if l_delete_fn l \<and> d \<noteq> 0 then [d] else [])\<rparr>, True) \<and>
         lst_ok h' l (below k xs @ zs) \<and> h' b = None \<and>
         (\<forall>x. x \<notin> set (l_head l # addrs xs) \<longrightarrow> h' x = m_heap m x)"
proof -
  define h where "h = m_heap m"
  define lft where "lft = last (l_head l # addrs (below k xs))"
  have ok': "lst_ok h l (below k xs @ (b, k, d) # zs)"
    using ok by (simp add: h_def flip: f)
  have find: "search h l k = Some (h, b, lft)"
    using search_ok [OF ok] by (simp add: h_def lft_def f first_addr_def)
  from ok obtain n where n: "b \<noteq> 0" "even b" "h b = Some n" "el_key n = k" "el_data n = d"
    "el_next n = first_addr zs" "even (el_next n)"
    by (cases rule: right_node_cases [where k = k]) (auto simp: f h_def)
  note dist = lst_ok_split(1) [OF ok, of k] and srt = lst_ok_split(2) [OF ok, of k]
    and sub = lst_ok_split(3) [OF ok, of k]
  have left_in: "lft \<in> insert (l_head l) (set (addrs (below k xs)))"
    unfolding lft_def by (rule left_node_in)
  then have nin: "lft \<notin> set (addrs ((b, k, d) # zs))"
    using dist_left [OF ok, of lft k] by (simp add: f)
  then have lb: "lft \<noteq> b" by simp
  have fa: "first_addr ((b, k, d) # zs) = b" by (simp add: first_addr_def)
  obtain ln where ln: "h lft = Some ln" "el_next ln = b"
    and upd: "\<And>h' r ws. h' = h(lft \<mapsto> ln\<lparr>el_next := r\<rparr>) \<Longrightarrow> path h' r ws 0 \<Longrightarrow>
        distinct (l_head l # addrs (below k xs @ ws)) \<Longrightarrow> sorted_wrt (<) (keys (below k xs @ ws)) \<Longrightarrow>
        lst_ok h' l (below k xs @ ws)"
    using redirect [OF ok' lft_def] by (auto simp only: fa)
  define h1 where "h1 = h(b \<mapsto> n\<lparr>el_next := get_marked_reference (el_next n)\<rparr>)"
  define h2 where "h2 = h1(lft \<mapsto> ln\<lparr>el_next := el_next n\<rparr>)"
  have "lstDelete_mark h l k = Some (h1, Some (b, el_next n, lft))"
    using n by (subst lstDelete_mark.simps)
      (simp add: find marked_iff_odd CAS_next_def atomicCasU64_def h1_def Let_def)
  moreover have "CAS_next h1 lft b (el_next n) = Some (h2, True)"
    using ln lb by (simp add: CAS_next_def atomicCasU64_def h1_def h2_def)
  moreover have "h2 b = Some (n\<lparr>el_next := get_marked_reference (el_next n)\<rparr>)"
    using lb by (simp add: h2_def h1_def)
  ultimately have "lstDelete m (Some l) k =
      Some (m\<lparr>m_heap := h2(b := None),
              m_deleted := m_deleted m @ (if l_delete_fn l \<and> d \<noteq> 0 then [d] else [])\<rparr>, True)"
    using n by (simp add: lstDelete_def lstDelete_unlink_def h_def)
  moreover have "lst_ok (h2(b := None)) l (below k xs @ zs)"
  proof -
    define g where "g = h(lft \<mapsto> ln\<lparr>el_next := el_next n\<rparr>)"
    have "\<exists>r. path h r ((b, k, d) # zs) 0"
      using ok' by (auto simp: lst_ok_def path_append split: option.splits)
    then have "path h (el_next n) zs 0"
      using n by simp
    then have "path g (el_next n) zs 0"
      using nin by (simp add: g_def path_frame)
    then have "lst_ok g l (below k xs @ zs)"
      using dist srt by (intro upd [OF g_def]) (auto simp: f sorted_wrt_append)
    moreover have "h2(b := None) = g(b := None)"
      using lb by (auto simp: h2_def h1_def g_def)
    moreover have "b \<notin> set (l_head l # addrs (below k xs @ zs))"
      using dist by (auto simp: f)
    ultimately show ?thesis by (simp only: lst_ok_frame not_False_eq_True)
  qed
  moreover have "(h2(b := None)) x = h x" if "x \<notin> set (l_head l # addrs xs)" for x
    using that left_in sub by (auto simp: h2_def h1_def f)
  ultimately show ?thesis unfolding h_def by auto
qed

lemma from_key_first: "from_key k ((a, k, d) # xs) = (a, k, d) # xs" "below k ((a, k, d) # xs) = []"
  by (simp_all add: from_key_def below_def)

text \<open>The end test of the loop of \<open>lstDestroy\<close>, seen from the next turn.\<close>

lemma lstDestroy_turn:
  assumes "lst_ok (m_heap m) l xs"
  shows "Option.bind (CAS_next (m_heap m) (l_head l) 0 (get_marked_reference 0)) (\<lambda>(h, ok).
           if ok then Some (m\<lparr>m_heap := h\<rparr>) else lstDestroy_loop (m\<lparr>m_heap := h\<rparr>) l) =
         lstDestroy_loop m l"
proof -
  from assms obtain hd where hd: "m_heap m (l_head l) = Some hd" "path (m_heap m) (el_next hd) xs 0"
    by (rule lst_okE)
  show ?thesis
  proof (cases "el_next hd = 0")
    case True
    with hd(1) show ?thesis
      by (subst lstDestroy_loop.simps) (simp add: CAS_next_def atomicCasU64_def get_unmarked_reference_def)
  next
    case False
    have "hd\<lparr>el_next := el_next hd\<rparr> = hd" by simp
    with False hd(1) show ?thesis
      by (simp add: CAS_next_def atomicCasU64_def fun_upd_idem)
  qed
qed

text \<open>What \<open>delete_fn\<close> is called with when the elements \<open>xs\<close> are deleted one after the other.\<close>

definition deletions :: "list_t \<Rightarrow> (addr \<times> u64 \<times> addr) list \<Rightarrow> addr list" where
  "deletions l xs = (if l_delete_fn l then filter (\<lambda>d. d \<noteq> 0) (map (snd \<circ> snd) xs) else [])"

lemma lstDestroy_loop_ok:
  assumes "lst_ok (m_heap m) l xs"
  shows "\<exists>h'. lstDestroy_loop m l = Some (m\<lparr>m_heap := h', m_deleted := m_deleted m @ deletions l xs\<rparr>) \<and>
              (\<forall>x. x \<noteq> l_head l \<longrightarrow> h' x = (if x \<in> set (addrs xs) then None else m_heap m x))"
  using assms
proof (induction xs arbitrary: m)
  case Nil
  then obtain hd where "m_heap m (l_head l) = Some hd" "path (m_heap m) (el_next hd) [] 0"
    by (rule lst_okE)
  then have "lstDestroy_loop m l =
      Some (m\<lparr>m_heap := (m_heap m)(l_head l \<mapsto> hd\<lparr>el_next := get_marked_reference 0\<rparr>)\<rparr>)"
    by (subst lstDestroy_loop.simps) (simp add: CAS_next_def atomicCasU64_def get_unmarked_reference_def)
  then show ?case
    by (intro exI [of _ "(m_heap m)(l_head l \<mapsto> hd\<lparr>el_next := get_marked_reference 0\<rparr>)"])
       (simp add: deletions_def fun_upd_def)
next
  case (Cons x xs)
  obtain a k d where x: "x = (a, k, d)" by (cases x)
  from Cons.prems obtain hd where hd: "m_heap m (l_head l) = Some hd"
    "path (m_heap m) (el_next hd) (x # xs) 0" "distinct (l_head l # addrs (x # xs))"
    by (rule lst_okE)
  from hd(2) x obtain n where n: "el_next hd = a" "a \<noteq> 0" "even a" "m_heap m a = Some n" "el_key n = k"
    by (auto split: option.splits)
  define dl where "dl = (if l_delete_fn l \<and> d \<noteq> 0 then [d] else [])"
  from lstDelete_found [OF Cons.prems [unfolded x] from_key_first(1)]
  obtain h' where h': "lstDelete m (Some l) k = Some (m\<lparr>m_heap := h', m_deleted := m_deleted m @ dl\<rparr>, True)"
    "lst_ok h' l xs" "h' a = None" "\<And>y. y \<notin> set (l_head l # addrs (x # xs)) \<Longrightarrow> h' y = m_heap m y"
    by (auto simp: from_key_first dl_def x)
  define m' where "m' = m\<lparr>m_heap := h', m_deleted := m_deleted m @ dl\<rparr>"
  have ok': "lst_ok (m_heap m') l xs" using h'(2) by (simp add: m'_def)
  have "lstDestroy_loop m l = lstDestroy_loop m' l"
    using n h'(1) by (subst lstDestroy_loop.simps)
      (simp add: hd(1) lstDestroy_turn [OF ok'] flip: m'_def)
  moreover have "deletions l (x # xs) = dl @ deletions l xs"
    by (simp add: deletions_def dl_def x)
  moreover have "h' y = (if y = a then None else m_heap m y)" if "y \<noteq> l_head l" "y \<notin> set (addrs xs)" for y
    using that h'(3,4) x by auto
  moreover obtain g where
    "lstDestroy_loop m' l = Some (m'\<lparr>m_heap := g, m_deleted := m_deleted m' @ deletions l xs\<rparr>)"
    "\<And>y. y \<noteq> l_head l \<Longrightarrow> g y = (if y \<in> set (addrs xs) then None else h' y)"
    using Cons.IH [OF ok'] by (auto simp: m'_def)
  ultimately show ?case
    by (intro exI [of _ g]) (simp add: m'_def x)
qed

section \<open>The list as a keyed store\<close>

definition lst_map :: "(addr \<times> u64 \<times> addr) list \<Rightarrow> u64 \<rightharpoonup> addr" where
  "lst_map xs = map_of (map snd xs)"

definition lst_holds :: "list_t \<Rightarrow> lmem \<Rightarrow> (u64 \<rightharpoonup> addr) \<Rightarrow> bool" where
  "lst_holds l m M \<longleftrightarrow> (\<exists>xs. lst_ok (m_heap m) l xs \<and> M = lst_map xs)"

lemma dom_lst_map: "dom (lst_map xs) = set (keys xs)"
  by (auto simp: lst_map_def dom_map_of_conv_image_fst image_comp)

lemma lst_map_append: "lst_map (xs @ ys) = lst_map ys ++ lst_map xs"
  by (simp add: lst_map_def)

lemma lst_map_Cons: "lst_map ((a, k, d) # xs) = (lst_map xs)(k \<mapsto> d)"
  by (simp add: lst_map_def)

lemma lst_map_split: "lst_map xs = lst_map (from_key k xs) ++ lst_map (below k xs)"
proof -
  have "lst_map xs = lst_map (below k xs @ from_key k xs)" by simp
  then show ?thesis by (simp only: lst_map_def map_append map_of_append)
qed

lemma lst_map_below: "lst_map (below k xs) k = None"
  using below_less [of _ k xs] by (fastforce simp: lst_map_def map_of_eq_None_iff)

lemma lst_map_insert: "lst_map (below k xs @ (a, k, d) # from_key k xs) = (lst_map xs)(k \<mapsto> d)"
  using lst_map_below [of k xs]
  by (intro ext) (simp add: lst_map_split [of xs k] lst_map_append lst_map_Cons map_add_def split: option.split)

lemma lst_map_delete:
  assumes "sorted_wrt (<) (keys xs)" "from_key k xs = (b, k, d) # zs"
  shows "lst_map (below k xs @ zs) = (lst_map xs)(k := None)"
proof -
  have "sorted_wrt (<) (keys (below k xs @ from_key k xs))"
    using assms(1) by simp
  then have "k \<notin> set (keys zs)"
    by (simp only: map_append assms(2) sorted_wrt_append) auto
  then have "lst_map zs k = None"
    by (force simp: lst_map_def map_of_eq_None_iff)
  then show ?thesis
    using lst_map_below [of k xs]
    by (intro ext) (simp add: lst_map_split [of xs k] assms(2) lst_map_append lst_map_Cons map_add_def
        split: option.split)
qed

abbreviation lst_ins :: "list_t \<Rightarrow> lmem \<Rightarrow> addr option \<Rightarrow> u64 \<Rightarrow> addr \<Rightarrow> (lmem \<times> bool) option" where
  "lst_ins l m \<equiv> lstInsert m (Some l)"

abbreviation lst_fnd :: "list_t \<Rightarrow> lmem \<Rightarrow> u64 \<Rightarrow> (lmem \<times> addr) option" where
  "lst_fnd l m \<equiv> lstFind m (Some l)"

abbreviation lst_del :: "list_t \<Rightarrow> lmem \<Rightarrow> u64 \<Rightarrow> (lmem \<times> bool) option" where
  "lst_del l m \<equiv> lstDelete m (Some l)"

interpretation lst: key_store "lst_ins l" "lst_fnd l" "lst_del l" "\<lambda>m. lst_fresh (m_heap m)" "\<lambda>_. True" id 0
  "lst_holds l"
  for l :: list_t
proof unfold_locales
  fix m M a k v
  assume "lst_holds l m M"
  then obtain xs where ok: "lst_ok (m_heap m) l xs" and M: "M = lst_map xs"
    by (auto simp: lst_holds_def)
  have srt: "sorted_wrt (<) (keys xs)"
    using ok by (simp add: lst_ok_def)
  show "lst_ins l m None k v = Some (m, False)"
    by (simp add: lstInsert_def)
  show "lst_ins l m (Some a) k v = Some (m, False)" if "lst_fresh (m_heap m) a" "k \<in> dom M \<or> \<not> True"
    using that lstInsert_found [OF ok] by (simp add: M dom_lst_map)
  show "\<exists>m'. lst_ins l m (Some a) k v = Some (m', True) \<and> lst_holds l m' (M(k \<mapsto> v))"
    if "lst_fresh (m_heap m) a" "k \<notin> dom M"
  proof -
    from that have "k \<notin> set (keys xs)" by (simp add: M dom_lst_map)
    from lstInsert_new [OF ok this that(1), of v] obtain h' where
      "lst_ins l m (Some a) k v = Some (m\<lparr>m_heap := h'\<rparr>, True)"
      "lst_ok h' l (below k xs @ (a, k, v) # from_key k xs)"
      by blast
    then show ?thesis
      by (auto simp: M lst_holds_def lst_map_insert [symmetric, of _ _ _ a])
  qed
  show "lst_fnd l m k = Some (m, case M k of None \<Rightarrow> 0 | Some v \<Rightarrow> v)"
    using lstFind_ok [OF ok] by (simp add: M lst_map_def)
  show "lst_del l m k = Some (m, id False)" if "k \<notin> dom M"
    using that lstDelete_missing [OF ok] by (simp add: M dom_lst_map)
  show "\<exists>m'. lst_del l m k = Some (m', id True) \<and> lst_holds l m' (M(k := None))" if "k \<in> dom M"
  proof -
    from that from_key_hd [OF srt, of k] obtain b d zs where z: "from_key k xs = (b, k, d) # zs"
      by (auto simp: M dom_lst_map)
    from lstDelete_found [OF ok z] obtain m' where
      "lst_del l m k = Some (m', True)" "lst_ok (m_heap m') l (below k xs @ zs)"
      by force
    then show ?thesis
      by (auto simp: M lst_holds_def lst_map_delete [OF srt z, symmetric])
  qed
qed

section \<open>Properties\<close>

definition no_mem :: lmem where
  "no_mem = \<lparr>m_heap = (\<lambda>_. None), m_deleted = []\<rparr>"

lemma lstCreate_holds:
  assumes "lstCreate m True (Some a) f = (m', Some l)" "a \<noteq> 0" "even a"
  shows "lst_holds l m' (\<lambda>_. None)"
  using assms
  by (auto simp: lstCreate_def lst_holds_def lst_ok_def lst_map_def intro!: exI [of _ "[]"])

text \<open>
  C6. from a list made by \<open>lstCreate\<close>, every sequence of \<open>lstInsert\<close>, \<open>lstFind\<close> and \<open>lstDelete\<close>
  whose allocations are fresh ends, dereferences only allocated elements, answers as a finite
  map from keys to data pointers would, and leaves a sorted unmarked list holding that map.
\<close>

theorem lst_refines_map:
  assumes "lstCreate m True (Some a) f = (m0, Some l)" "a \<noteq> 0" "even a"
    and "fresh_run (lst_ins l) (lst_fnd l) (lst_del l) (\<lambda>m. lst_fresh (m_heap m)) m0 ops"
  shows "\<exists>m'. store_run (lst_ins l) (lst_fnd l) (lst_del l) m0 ops =
                Some (m', snd (map_run (\<lambda>_. True) id 0 (\<lambda>_. None) ops)) \<and>
              lst_holds l m' (fst (map_run (\<lambda>_. True) id 0 (\<lambda>_. None) ops))"
  using lst.run_refines [OF lstCreate_holds [OF assms(1-3)] assms(4)] .

definition list16 :: list_t where
  "list16 = \<lparr>l_delete_fn = True, l_head = 16\<rparr>"

definition mem16 :: lmem where
  "mem16 = fst (lstCreate no_mem True (Some 16) True)"

definition ops16 :: "(addr, u64, addr) store_op list" where
  "ops16 = [Ins (Some 32) 5 100, Ins (Some 48) 3 200, Ins (Some 64) 5 300, Find 5, Del 5, Find 5]"

theorem lst_refines_map_witness:
  "\<exists>m'. store_run (lst_ins list16) (lst_fnd list16) (lst_del list16) mem16 ops16 =
          Some (m', [Done True, Done True, Done False, Found 100, Done True, Found 0])"
proof -
  have c: "lstCreate no_mem True (Some 16) True = (mem16, Some list16)"
    by (simp add: mem16_def lstCreate_def list16_def)
  have f: "fresh_run (lst_ins list16) (lst_fnd list16) (lst_del list16)
      (\<lambda>m. lst_fresh (m_heap m)) mem16 ops16"
    by code_simp
  have "snd (map_run (\<lambda>_. True) id 0 (\<lambda>_. None) ops16) = [Done True, Done True, Done False, Found 100, Done True, Found 0]"
    by (simp add: ops16_def)
  with lst_refines_map [OF c _ _ f] show ?thesis by auto
qed

text \<open>
  \<open>lstDelete\<close> on a well-formed list. A missing key leaves memory alone and returns false. A
  present one is unlinked and its element freed, \<open>delete_fn\<close> is called once with its data (when
  there is a function and the data is not NULL), the rest of the list keeps its order and no
  memory outside the list changes.
\<close>

theorem lstDelete_spec:
  assumes "lst_ok (m_heap m) l xs"
  shows "if k \<in> set (keys xs)
         then \<exists>ys b d zs h'. xs = ys @ (b, k, d) # zs \<and>
                lstDelete m (Some l) k =
                  Some (m\<lparr>m_heap := h', m_deleted := m_deleted m @ deletions l [(b, k, d)]\<rparr>, True) \<and>
                lst_ok h' l (ys @ zs) \<and> h' b = None \<and>
                (\<forall>x. x \<notin> set (l_head l # addrs xs) \<longrightarrow> h' x = m_heap m x)
         else lstDelete m (Some l) k = Some (m, False)"
proof (cases "k \<in> set (keys xs)")
  case True
  have "sorted_wrt (<) (keys xs)" using assms by (simp add: lst_ok_def)
  with True obtain b d zs where z: "from_key k xs = (b, k, d) # zs"
    using from_key_hd [of xs k] by blast
  then have x: "xs = below k xs @ (b, k, d) # zs" by (simp flip: z)
  have del: "deletions l [(b, k, d)] = (if l_delete_fn l \<and> d \<noteq> 0 then [d] else [])"
    by (simp add: deletions_def)
  from lstDelete_found [OF assms z, folded del] x show ?thesis
    unfolding if_P [OF True] by blast
qed (simp add: lstDelete_missing [OF assms])

text \<open>
  C7. \<open>lstDestroy\<close> of a well-formed list ends, calls \<open>delete_fn\<close> with the data of every element in
  key order, frees the sentinel and every element, changes no other memory and clears the
  caller's pointer.
\<close>

theorem lstDestroy_spec:
  assumes "lst_ok (m_heap m) l xs"
  shows "lstDestroy m (Some l) =
           Some (m\<lparr>m_heap := (\<lambda>x. if x \<in> set (l_head l # addrs xs) then None else m_heap m x),
                   m_deleted := m_deleted m @ deletions l xs\<rparr>, None)"
proof -
  from lstDestroy_loop_ok [OF assms] obtain h' where
    h': "lstDestroy_loop m l = Some (m\<lparr>m_heap := h', m_deleted := m_deleted m @ deletions l xs\<rparr>)"
    "\<And>x. x \<noteq> l_head l \<Longrightarrow> h' x = (if x \<in> set (addrs xs) then None else m_heap m x)"
    by auto
  have "h'(l_head l := None) = (\<lambda>x. if x \<in> set (l_head l # addrs xs) then None else m_heap m x)"
    using h'(2) by auto
  with h'(1) show ?thesis by (simp add: lstDestroy_def)
qed

definition list_heap :: heap where
  "list_heap = [16 \<mapsto> \<lparr>el_key = 0, el_data = 0, el_next = 32\<rparr>, 32 \<mapsto> \<lparr>el_key = 1, el_data = 100, el_next = 48\<rparr>,
                48 \<mapsto> \<lparr>el_key = 2, el_data = 200, el_next = 0\<rparr>]"

definition list_mem :: lmem where
  "list_mem = \<lparr>m_heap = list_heap, m_deleted = []\<rparr>"

lemma list_heap_ok: "lst_ok list_heap list16 ([] @ [(32, 1, 100), (48, 2, 200)])"
  by (simp add: lst_ok_def list_heap_def list16_def)

theorem lstDelete_spec_witness:
  "\<exists>h'. lstDelete list_mem (Some list16) 1 = Some (\<lparr>m_heap = h', m_deleted = [100]\<rparr>, True) \<and>
        lst_ok h' list16 [(48, 2, 200)] \<and> h' 32 = None"
proof -
  have ok: "lst_ok (m_heap list_mem) list16 [(32, 1, 100), (48, 2, 200)]"
    using list_heap_ok by (simp add: list_mem_def)
  have "deletions list16 [(32, 1, 100)] = [100]"
    by (simp add: deletions_def list16_def)
  with lstDelete_spec [OF ok, of 1] show ?thesis
    by (auto simp: Cons_eq_append_conv list_mem_def)
qed

theorem lstDestroy_spec_witness:
  "lstDestroy list_mem (Some list16) = Some (\<lparr>m_heap = (\<lambda>_. None), m_deleted = [100, 200]\<rparr>, None)"
proof -
  have ok: "lst_ok (m_heap list_mem) list16 [(32, 1, 100), (48, 2, 200)]"
    using list_heap_ok by (simp add: list_mem_def)
  have "(\<lambda>x. if x \<in> set (l_head list16 # addrs [(32, 1, 100 :: addr), (48, 2, 200)])
             then None else list_heap x) = (\<lambda>_. None)"
    by (simp add: fun_eq_iff list16_def list_heap_def)
  moreover have "m_heap list_mem = list_heap" "m_deleted list_mem = []" "list_mem\<lparr>m_heap := h, m_deleted := ds\<rparr> = \<lparr>m_heap = h, m_deleted = ds\<rparr>" for h ds
    by (simp_all add: list_mem_def)
  moreover have "deletions list16 [(32, 1, 100), (48, 2, 200)] = [100, 200]"
    by (simp add: deletions_def list16_def)
  ultimately show ?thesis
    using lstDestroy_spec [OF ok] by (simp only:) simp
qed


end
