(* ===== verification/Strsearch.thy ===== *)
theory Strsearch
  imports Prelude
begin

text \<open>
  The Horspool string search of \<^verbatim>\<open>src/strsearch.c\<close>, used to find HTTP headers, the end of a header
  block and the HTTP/2 preface in captured payload. \<open>searchComp\<close> builds the table of shifts, the
  loop of \<open>searchExec\<close> is a partial function: a result \<open>Some\<close> says that the loop ends and reads
  only inside the table, the pattern and the haystack.
\<close>

definition ASIZE :: nat where
  "ASIZE = 256"

record search_t =
  nlen :: int
  sr_str :: "string option"
  bmBc :: "int list"

definition searchFree :: "search_t option \<Rightarrow> search_t option" where
  "searchFree handle_ptr = None"

text \<open>The two loops that fill the table.\<close>

definition shift_table :: "string \<Rightarrow> int \<Rightarrow> int list" where
  "shift_table str n =
     fold (\<lambda>i bc. bc[of_char (str ! i) := n - int i - 1]) [0..<nat (n - 1)] (replicate ASIZE n)"

definition searchComp :: "bool \<Rightarrow> bool \<Rightarrow> string option \<Rightarrow> search_t option" where
  "searchComp calloc_ok strdup_ok input_str =
     (case input_str of
        None \<Rightarrow> None
      | Some s \<Rightarrow>
          if \<not> calloc_ok then searchFree None
          else
            let handle = \<lparr>nlen = to_int32 (int (length s)), sr_str = None, bmBc = replicate ASIZE 0\<rparr>
            in if nlen handle = 0 then searchFree (Some handle)
               else if \<not> strdup_ok then searchFree (Some handle)
               else Some (handle\<lparr>sr_str := Some s, bmBc := shift_table s (nlen handle)\<rparr>))"

definition searchLen :: "search_t option \<Rightarrow> int" where
  "searchLen handle = (case handle of None \<Rightarrow> 0 | Some h \<Rightarrow> nlen h)"

partial_function (option) searchExec_loop :: "search_t \<Rightarrow> string \<Rightarrow> int \<Rightarrow> int \<Rightarrow> int option" where
  "searchExec_loop handle haystack hlen j =
     (if j \<le> hlen - nlen handle
      then Option.bind (aget haystack (j + nlen handle - 1)) (\<lambda>c.
           Option.bind (sr_str handle) (\<lambda>str.
           Option.bind (aget str (nlen handle - 1)) (\<lambda>l.
             if l = c \<and> take (nat (nlen handle - 1)) str = take (nat (nlen handle - 1)) (drop (nat j) haystack)
             then Some j
             else Option.bind (aget (bmBc handle) (int (of_char c))) (\<lambda>shift.
                  Option.bind (c_add j shift) (\<lambda>j.
                  searchExec_loop handle haystack hlen j)))))
      else Some (-1))"

declare searchExec_loop.simps [code]

definition searchExec :: "search_t option \<Rightarrow> string option \<Rightarrow> int \<Rightarrow> int option" where
  "searchExec handle haystack hlen =
     (case (handle, haystack) of
        (Some h, Some hay) \<Rightarrow> if hlen < 0 then Some (-1) else searchExec_loop h hay hlen 0
      | _ \<Rightarrow> Some (-1))"

section \<open>The table of shifts\<close>

lemma table_inv:
  assumes "m \<le> length pat - 1" "pat \<noteq> []" "c < 256"
    and t: "t = fold (\<lambda>i bc. bc[of_char (pat ! i) := int (length pat) - int i - 1]) [0..<m]
                (replicate ASIZE (int (length pat)))"
  shows "length t = 256 \<and> 1 \<le> t ! c \<and> t ! c \<le> int (length pat) \<and>
         (\<forall>i<m. of_char (pat ! i) = c \<longrightarrow> t ! c \<le> int (length pat) - int i - 1)"
  using assms(1) t
proof (induction m arbitrary: t)
  case 0
  then show ?case
    using assms(2,3) by (auto simp: ASIZE_def Suc_le_eq)
next
  case (Suc m)
  then show ?case
    using assms(2,3) by (auto simp: nth_list_update less_Suc_eq)
qed

lemma shift_table:
  assumes "pat \<noteq> []"
  shows "length (shift_table pat (int (length pat))) = 256"
    and "1 \<le> shift_table pat (int (length pat)) ! of_char c"
    and "shift_table pat (int (length pat)) ! of_char c \<le> int (length pat)"
    and "i + 1 < length pat \<Longrightarrow> pat ! i = c \<Longrightarrow>
           shift_table pat (int (length pat)) ! of_char c \<le> int (length pat) - int i - 1"
proof -
  have n: "nat (int (length pat) - 1) = length pat - 1" by simp
  have c: "(of_char c :: nat) < 256" by simp
  note t = table_inv [OF order_refl assms c refl, folded n, folded shift_table_def]
  show "length (shift_table pat (int (length pat))) = 256"
    "1 \<le> shift_table pat (int (length pat)) ! of_char c"
    "shift_table pat (int (length pat)) ! of_char c \<le> int (length pat)"
    using t by simp_all
  show "shift_table pat (int (length pat)) ! of_char c \<le> int (length pat) - int i - 1"
    if "i + 1 < length pat" "pat ! i = c"
    using t that by (auto simp: n)
qed

section \<open>Correctness of the search\<close>

definition occurs_at :: "string \<Rightarrow> string \<Rightarrow> nat \<Rightarrow> bool" where
  "occurs_at pat hay p \<longleftrightarrow> take (length pat) (drop p hay) = pat"

text \<open>The specification: try every position from left to right.\<close>

definition first_occurrence :: "string \<Rightarrow> string \<Rightarrow> nat \<Rightarrow> nat option" where
  "first_occurrence pat hay hlen = find (occurs_at pat hay) [0..<hlen + 1 - length pat]"

lemma occurs_nth:
  assumes "p + length pat \<le> length hay"
  shows "occurs_at pat hay p \<longleftrightarrow> (\<forall>i<length pat. hay ! (p + i) = pat ! i)"
  using assms by (auto simp: occurs_at_def list_eq_iff_nth_eq)

lemma test_occurs:
  assumes "p + length pat \<le> length hay" "pat \<noteq> []"
  shows "pat ! (length pat - 1) = hay ! (p + length pat - 1) \<and>
         take (length pat - 1) pat = take (length pat - 1) (drop p hay) \<longleftrightarrow> occurs_at pat hay p"
proof -
  have e: "take (length pat - 1) pat = take (length pat - 1) (drop p hay) \<longleftrightarrow>
      (\<forall>i<length pat - 1. pat ! i = hay ! (p + i))"
    using assms(1) by (simp add: list_eq_iff_nth_eq)
  obtain n where n: "length pat = Suc n"
    using assms(2) by (cases pat) auto
  show ?thesis
    unfolding e occurs_nth [OF assms(1)] unfolding n by (auto simp: less_Suc_eq)
qed

lemma skip_safe:
  assumes "j + length pat \<le> length hay" "q + length pat \<le> length hay" "pat \<noteq> []"
    "j < q" "int q < int j + shift_table pat (int (length pat)) ! of_char (hay ! (j + length pat - 1))"
  shows "\<not> occurs_at pat hay q"
proof
  assume occ: "occurs_at pat hay q"
  define s where "s = q - j"
  define i where "i = length pat - 1 - s"
  have s: "q = j + s" "0 < s" using assms(4) by (auto simp: s_def)
  have "int s < int (length pat)"
    using assms(5) shift_table(3) [OF assms(3), of "hay ! (j + length pat - 1)"] by (simp add: s(1))
  then have i: "i < length pat" "i + 1 < length pat" "q + i = j + length pat - 1"
    "int (length pat) - int i - 1 = int s"
    using s by (auto simp: i_def)
  then have "pat ! i = hay ! (j + length pat - 1)"
    using occ occurs_nth [OF assms(2)] by (metis i(1,3))
  with shift_table(4) [OF assms(3) i(2) this] assms(5) i(4) s(1) show False by simp
qed

lemma exec_loop:
  assumes pat: "pat \<noteq> []" "length pat < 2 ^ 31"
    and h: "handle = \<lparr>nlen = int (length pat), sr_str = Some pat, bmBc = shift_table pat (int (length pat))\<rparr>"
    and hay: "hlen \<le> length hay" "hlen < 2 ^ 31"
    and before: "\<forall>p<j. p + length pat \<le> hlen \<longrightarrow> \<not> occurs_at pat hay p"
    and j: "j \<le> hlen"
  shows "searchExec_loop handle hay (int hlen) (int j) =
           Some (case first_occurrence pat hay hlen of None \<Rightarrow> -1 | Some p \<Rightarrow> int p)"
  using before j
proof (induction "hlen - j" arbitrary: j rule: less_induct)
  case less
  show ?case
  proof (cases "j + length pat \<le> hlen")
    case False
    then have "first_occurrence pat hay hlen = None"
      using less.prems by (auto simp: first_occurrence_def find_None_iff)
    with False show ?thesis
      by (subst searchExec_loop.simps) (simp add: h)
  next
    case True
    define c where "c = hay ! (j + length pat - 1)"
    have in_hay: "aget hay (int j + int (length pat) - 1) = Some c"
    proof -
      have "int j + int (length pat) - 1 = int (j + length pat - 1)"
        using pat by (cases pat) auto
      moreover have "j + length pat - 1 < length hay"
        using True hay(1) pat(1) by (cases pat) auto
      ultimately show ?thesis by (simp only: aget_nat c_def if_True)
    qed
    have in_pat: "aget pat (int (length pat) - 1) = Some (pat ! (length pat - 1))"
      using pat(1) by (cases pat) (simp_all add: aget_def)
    have test: "pat ! (length pat - 1) = c \<and>
         take (length pat - 1) pat = take (length pat - 1) (drop j hay) \<longleftrightarrow> occurs_at pat hay j"
      using test_occurs [of j pat hay] True hay(1) pat(1) by (simp add: c_def)
    have n: "nat (int (length pat) - 1) = length pat - 1" by simp
    show ?thesis
    proof (cases "occurs_at pat hay j")
      case occ: True
      have "first_occurrence pat hay hlen = Some j"
        unfolding first_occurrence_def find_Some_iff using True occ less.prems
        by (intro exI [of _ j]) auto
      with test occ True show ?thesis
        by (subst searchExec_loop.simps) (simp add: h in_hay in_pat n)
    next
      case no: False
      define s where "s = nat (shift_table pat (int (length pat)) ! of_char c)"
      have s: "shift_table pat (int (length pat)) ! of_char c = int s" "1 \<le> s" "s \<le> length pat"
        using shift_table(2,3) [OF pat(1), of c] by (auto simp: s_def)
      have get: "aget (shift_table pat (int (length pat))) (int (of_char c)) = Some (int s)"
        using shift_table(1) [OF pat(1)] by (simp add: aget_nat s)
      have "c_add (int j) (int s) = Some (int (j + s))"
        using True hay(2) s(3) by (simp add: c_add_def)
      moreover have "searchExec_loop handle hay (int hlen) (int (j + s)) =
          Some (case first_occurrence pat hay hlen of None \<Rightarrow> -1 | Some p \<Rightarrow> int p)"
      proof (rule less.hyps)
        show "hlen - (j + s) < hlen - j" "j + s \<le> hlen"
          using True s pat(1) by (cases pat; simp)+
        show "\<forall>p<j + s. p + length pat \<le> hlen \<longrightarrow> \<not> occurs_at pat hay p"
        proof (intro allI impI)
          fix p
          assume p: "p < j + s" "p + length pat \<le> hlen"
          consider "p < j" | "p = j" | "j < p" by linarith
          then show "\<not> occurs_at pat hay p"
          proof cases
            case 3
            show ?thesis
              by (rule skip_safe [of j]) (use True hay(1) p pat(1) 3 s(1) in \<open>auto simp: c_def\<close>)
          qed (use less.prems no p in auto)
        qed
      qed
      ultimately show ?thesis
        using True no test by (subst searchExec_loop.simps) (auto simp: h in_hay in_pat n get)
    qed
  qed
qed

lemma search_naive:
  assumes "searchComp True True (Some pat) = Some handle" "length pat < 2 ^ 31"
    and "hlen \<le> length hay" "hlen < 2 ^ 31"
  shows "searchExec (Some handle) (Some hay) (int hlen) =
           Some (case first_occurrence pat hay hlen of None \<Rightarrow> -1 | Some p \<Rightarrow> int p)"
proof -
  have h: "handle = \<lparr>nlen = int (length pat), sr_str = Some pat, bmBc = shift_table pat (int (length pat))\<rparr>"
    and p: "pat \<noteq> []"
    using assms(1,2) by (auto simp: searchComp_def searchFree_def Let_def to_int32_id split: if_splits)
  show ?thesis
    using exec_loop [OF p assms(2) h assms(3,4), of 0] by (simp add: searchExec_def)
qed

text \<open>
  C9. The Horspool search is the naive search: for a pattern of at least one character compiled by
  \<open>searchComp\<close> and any haystack of at least \<open>hlen\<close> characters, \<open>searchExec\<close> ends, stays inside
  all three arrays and returns the first position within \<open>hlen\<close> where the pattern occurs, or -1.
\<close>

theorem searchExec_first:
  assumes "searchComp True True (Some pat) = Some handle" "length pat < 2 ^ 31"
    and "hlen \<le> length hay" "hlen < 2 ^ 31"
  shows "searchExec (Some handle) (Some hay) (int hlen) =
           Some (case first_occurrence pat hay hlen of None \<Rightarrow> -1 | Some p \<Rightarrow> int p)"
  using assms by (rule search_naive)

theorem searchExec_first_witness:
  "\<exists>handle. searchComp True True (Some ''ab'') = Some handle \<and>
            searchExec (Some handle) (Some ''xaabab'') 6 = Some 2"
proof -
  obtain handle where h: "searchComp True True (Some ''ab'') = Some handle"
    by (simp add: searchComp_def Let_def to_int32_def)
  have "first_occurrence ''ab'' ''xaabab'' 6 = Some 2"
    by code_simp
  with h searchExec_first [OF h, of 6 "''xaabab''"] show ?thesis
    by simp
qed

end
