(* ===== verification/Backoff.thy ===== *)
theory Backoff
  imports Prelude
begin

text \<open>
  The reconnection back-off of \<^verbatim>\<open>src/backoff.c\<close>. \<open>backoffAlgoAllowsConnect\<close> is called once per
  millisecond of waiting and says when a connection attempt may be made. The jitter comes from
  \<open>appview_rand\<close>, which is musl's \<open>rand\<close>; its seed is part of the state.
\<close>

record backoff_t =
  backoff_base :: u32
  backoff_limit :: u32
  ms_count :: u32





definition backoffDestroy :: "backoff_t option \<Rightarrow> backoff_t option" where
  "backoffDestroy backoff = None"


section \<open>The schedule of attempts\<close>














end
