(* ===== verification/Httpmatch.thy ===== *)
theory Httpmatch
  imports Key_Store Cstring "HOL-Library.Sublist"
begin

text \<open>
  The store of \<^verbatim>\<open>src/httpmatch.c\<close>: a hash table of 257 buckets that keeps HTTP requests (and
  HTTP/2 channels) by socket id until the response arrives or the entry expires.

  A bucket's chain is owned by the table, so it is a list. The data are pointers; \<open>freeData\<close> is the
  caller's, and what is recorded is the sequence of pointers it is called with (\<open>freed\<close>). The
  arrays of active sockets belong to the datapath: \<open>netInfo\<close> is the array (a function of the
  descriptor, read only for 0 to 1023) and \<open>extraNetInfo\<close> the list's contents as a map.
\<close>

definition HASH_TABLE_SIZE :: nat where
  "HASH_TABLE_SIZE = 257"

definition NET_ENTRIES :: int where
  "NET_ENTRIES = 1024"

definition DEFAULT_CBUF_SIZE :: u64 where
  "DEFAULT_CBUF_SIZE = 10000 * 10"

record hashTable_t =
  sockid :: u64
  sockfd :: int
  hdata :: u64
  circBufCount :: u64

record store_t =
  hashTable :: "hashTable_t list list"
  cbufSize :: u64
  totalSaves :: u64
  totalDeletes :: u64
  totalExpires :: u64
  maxListLen :: u64
  freed :: "u64 list"

record net_info =
  ni_uid :: u64
  ni_active :: bool

text \<open>
  \<open>storeCreate\<close>: the three pointers are given or not, the allocation succeeds or not, and the
  environment has \<open>APPVIEW_QUEUE_LENGTH\<close> or not.
\<close>

definition storeCreate :: "bool \<Rightarrow> bool \<Rightarrow> bool \<Rightarrow> bool \<Rightarrow> string option \<Rightarrow> store_t option" where
  "storeCreate netInfo extraNetInfo freeData calloc_ok qlen_str =
     (if \<not> netInfo \<or> \<not> extraNetInfo \<or> \<not> freeData then None
      else if \<not> calloc_ok then None
      else
        let match = \<lparr>hashTable = replicate HASH_TABLE_SIZE [], cbufSize = DEFAULT_CBUF_SIZE, totalSaves = 0,
                     totalDeletes = 0, totalExpires = 0, maxListLen = 0, freed = []\<rparr>
        in (case qlen_str of
              None \<Rightarrow> Some match
            | Some s \<Rightarrow>
                let (qlen, errno) = strtoul s
                in Some (if \<not> errno \<and> qlen \<noteq> 0 then match\<lparr>cbufSize := qlen\<rparr> else match)))"

definition hashOfKey :: "u64 \<Rightarrow> nat" where
  "hashOfKey key = unat (key mod 257)"

definition hashListForKey :: "store_t \<Rightarrow> u64 \<Rightarrow> hashTable_t list" where
  "hashListForKey match key = hashTable match ! hashOfKey key"

definition set_list :: "store_t \<Rightarrow> nat \<Rightarrow> hashTable_t list \<Rightarrow> store_t" where
  "set_list match i l = match\<lparr>hashTable := (hashTable match)[i := l]\<rparr>"

definition deleteHashTableItem :: "store_t \<Rightarrow> hashTable_t \<Rightarrow> store_t" where
  "deleteHashTableItem match item =
     (if hdata item \<noteq> 0 then match\<lparr>freed := freed match @ [hdata item]\<rparr> else match)"

definition deleteList :: "store_t \<Rightarrow> nat \<Rightarrow> store_t" where
  "deleteList match i = set_list (foldl deleteHashTableItem match (hashTable match ! i)) i []"

definition deleteAllLists :: "store_t \<Rightarrow> store_t" where
  "deleteAllLists match = foldl deleteList match [0..<HASH_TABLE_SIZE]"

text \<open>\<open>storeDestroy\<close> leaves no store; the result is what was freed on the way.\<close>

definition storeDestroy :: "store_t option \<Rightarrow> store_t option \<times> u64 list" where
  "storeDestroy storeptr =
     (case storeptr of None \<Rightarrow> (None, []) | Some store \<Rightarrow> (None, freed (deleteAllLists store)))"

definition createHashTableItem :: "bool \<Rightarrow> u64 \<Rightarrow> u64 \<Rightarrow> int \<Rightarrow> hashTable_t option" where
  "createHashTableItem calloc_ok data sid fd =
     (if data = 0 then None
      else if \<not> calloc_ok then None
      else Some \<lparr>sockid = sid, sockfd = fd, hdata = data, circBufCount = 0\<rparr>)"

fun addHashTableItemToList :: "hashTable_t list \<Rightarrow> hashTable_t \<Rightarrow> hashTable_t list option" where
  "addHashTableItemToList [] item = Some [item]"
| "addHashTableItemToList (current # rest) item =
     (if sockid current = sockid item then None
      else map_option (Cons current) (addHashTableItemToList rest item))"

definition storeSave :: "store_t option \<Rightarrow> bool \<Rightarrow> u64 \<Rightarrow> u64 \<Rightarrow> int \<Rightarrow> store_t option \<times> bool" where
  "storeSave store calloc_ok data sid fd =
     (case store of
        None \<Rightarrow> (None, False)
      | Some s \<Rightarrow>
          if data = 0 then (store, False)
          else (case createHashTableItem calloc_ok data sid fd of
                  None \<Rightarrow> (store, False)
                | Some item \<Rightarrow>
                    (case addHashTableItemToList (hashListForKey s sid) item of
                       None \<Rightarrow> (store, False)
                     | Some l \<Rightarrow>
                         (Some ((set_list s (hashOfKey sid) l)\<lparr>totalSaves := totalSaves s + 1\<rparr>), True))))"

fun findHashTableItemFromList :: "hashTable_t list \<Rightarrow> u64 \<Rightarrow> hashTable_t option" where
  "findHashTableItemFromList [] sid = None"
| "findHashTableItemFromList (current # rest) sid =
     (if sockid current = sid then Some current else findHashTableItemFromList rest sid)"

definition storeGet :: "store_t option \<Rightarrow> u64 \<Rightarrow> u64" where
  "storeGet match sid =
     (case match of
        None \<Rightarrow> 0
      | Some s \<Rightarrow>
          (case findHashTableItemFromList (hashListForKey s sid) sid of None \<Rightarrow> 0 | Some item \<Rightarrow> hdata item))"

text \<open>The loop of \<open>storeDelete\<close>: the chain without the item, and the item, when it is there.\<close>

fun unlink_item :: "hashTable_t list \<Rightarrow> u64 \<Rightarrow> (hashTable_t list \<times> hashTable_t) option" where
  "unlink_item [] sid = None"
| "unlink_item (current # rest) sid =
     (if sockid current = sid then Some (rest, current)
      else map_option (\<lambda>(l, item). (current # l, item)) (unlink_item rest sid))"

definition storeDelete :: "store_t option \<Rightarrow> u64 \<Rightarrow> store_t option \<times> bool" where
  "storeDelete match sid =
     (case match of
        None \<Rightarrow> (None, False)
      | Some s \<Rightarrow>
          (case unlink_item (hashListForKey s sid) sid of
             None \<Rightarrow> (Some s, True)
           | Some (l, item) \<Rightarrow>
               (Some (deleteHashTableItem ((set_list s (hashOfKey sid) l)\<lparr>totalDeletes := totalDeletes s + 1\<rparr>) item),
                True)))"

text \<open>An entry that is marked and whose mark is old enough, or whose events have all been read.\<close>

definition expirable :: "u64 \<Rightarrow> u64 \<Rightarrow> bool \<Rightarrow> hashTable_t \<Rightarrow> bool" where
  "expirable cbsize count emptied current =
     (let circBufHasWrapped = circBufCount current + cbsize < count
      in circBufCount current \<noteq> 0 \<and> (emptied \<or> circBufHasWrapped))"

definition mark_item ::
  "(int \<Rightarrow> net_info) \<Rightarrow> (u64 \<rightharpoonup> net_info) \<Rightarrow> u64 \<Rightarrow> hashTable_t \<Rightarrow> hashTable_t" where
  "mark_item netInfo extraNetInfo count current =
     (let net = (if sockfd current < 0 \<or> sockfd current \<ge> NET_ENTRIES
                 then extraNetInfo (sockid current) else Some (netInfo (sockfd current)));
          gone = (case net of None \<Rightarrow> True | Some n \<Rightarrow> ni_uid n \<noteq> sockid current \<or> \<not> ni_active n)
      in if gone \<and> circBufCount current = 0 then current\<lparr>circBufCount := count\<rparr> else current)"

text \<open>
  The inner loop of \<open>storeExpire\<close>. \<open>chain\<close> is what \<open>*listptr\<close> leads to before \<open>current\<close>, and
  \<open>previous\<close> whether the variable of that name is not NULL. Deleting an item sets
  \<open>current\<close> to NULL and the assignment \<open>previous = current\<close> at the end of the turn copies that; a
  deletion with \<open>previous\<close> NULL makes \<open>*listptr\<close> point to the next item. The results are the
  chain, the deleted items and how many items were visited.
\<close>

fun expire_list ::
  "(hashTable_t \<Rightarrow> bool) \<Rightarrow> (hashTable_t \<Rightarrow> hashTable_t) \<Rightarrow> hashTable_t list \<Rightarrow> bool \<Rightarrow> hashTable_t list \<Rightarrow>
   hashTable_t list \<times> hashTable_t list" where
  "expire_list expired mark chain previous [] = (chain, [])"
| "expire_list expired mark chain previous (current # rest) =
     (if expired current
      then let chain = (if \<not> previous then [] else chain);
               (l, dels) = expire_list expired mark chain False rest
           in (l, current # dels)
      else expire_list expired mark (chain @ [mark current]) True rest)"

definition expire_bucket ::
  "(hashTable_t \<Rightarrow> bool) \<Rightarrow> (hashTable_t \<Rightarrow> hashTable_t) \<Rightarrow> store_t \<Rightarrow> nat \<Rightarrow> store_t" where
  "expire_bucket expired mark match i =
     (let items = hashTable match ! i;
          (l, dels) = expire_list expired mark [] False items;
          match = foldl deleteHashTableItem (set_list match i l) dels;
          match = match\<lparr>totalExpires := totalExpires match + of_nat (length dels)\<rparr>;
          listLen = of_nat (length items)
      in if listLen > maxListLen match then match\<lparr>maxListLen := listLen\<rparr> else match)"

definition storeExpire ::
  "(int \<Rightarrow> net_info) \<Rightarrow> (u64 \<rightharpoonup> net_info) \<Rightarrow> store_t option \<Rightarrow> u64 \<Rightarrow> bool \<Rightarrow> store_t option \<times> bool" where
  "storeExpire netInfo extraNetInfo match count emptied =
     (case match of
        None \<Rightarrow> (None, False)
      | Some s \<Rightarrow>
          (Some (foldl (expire_bucket (expirable (cbufSize s) count emptied) (mark_item netInfo extraNetInfo count))
                   s [0..<HASH_TABLE_SIZE]), True))"

section \<open>The two stores\<close>

text \<open>A request to be saved: its pointer and the socket id and descriptor it carries.\<close>

record http_map =
  hm_ptr :: u64
  hm_uid :: u64
  hm_sockfd :: int

definition httpMatchCreate :: "bool \<Rightarrow> bool \<Rightarrow> bool \<Rightarrow> bool \<Rightarrow> string option \<Rightarrow> store_t option" where
  "httpMatchCreate netInfo extraNetInfo freeReq calloc_ok qlen_str =
     storeCreate netInfo extraNetInfo freeReq calloc_ok qlen_str"

definition httpMatchDestroy :: "store_t option \<Rightarrow> store_t option \<times> u64 list" where
  "httpMatchDestroy matchptr = storeDestroy matchptr"

definition httpReqSave :: "store_t option \<Rightarrow> bool \<Rightarrow> http_map option \<Rightarrow> store_t option \<times> bool" where
  "httpReqSave match calloc_ok req =
     (case req of
        None \<Rightarrow> (match, False)
      | Some r \<Rightarrow> storeSave match calloc_ok (hm_ptr r) (hm_uid r) (hm_sockfd r))"

definition httpReqGet :: "store_t option \<Rightarrow> u64 \<Rightarrow> u64" where
  "httpReqGet match sid = storeGet match sid"

definition httpReqDelete :: "store_t option \<Rightarrow> u64 \<Rightarrow> store_t option \<times> bool" where
  "httpReqDelete match sid = storeDelete match sid"

definition httpReqExpire ::
  "(int \<Rightarrow> net_info) \<Rightarrow> (u64 \<rightharpoonup> net_info) \<Rightarrow> store_t option \<Rightarrow> u64 \<Rightarrow> bool \<Rightarrow> store_t option \<times> bool" where
  "httpReqExpire netInfo extraNetInfo match count emptied = storeExpire netInfo extraNetInfo match count emptied"

definition channelStoreCreate :: "bool \<Rightarrow> bool \<Rightarrow> bool \<Rightarrow> bool \<Rightarrow> string option \<Rightarrow> store_t option" where
  "channelStoreCreate netInfo extraNetInfo freeChannel calloc_ok qlen_str =
     storeCreate netInfo extraNetInfo freeChannel calloc_ok qlen_str"

definition channelStoreDestroy :: "store_t option \<Rightarrow> store_t option \<times> u64 list" where
  "channelStoreDestroy chanStore = storeDestroy chanStore"

definition channelSave :: "store_t option \<Rightarrow> bool \<Rightarrow> u64 \<Rightarrow> u64 \<Rightarrow> int \<Rightarrow> store_t option \<times> bool" where
  "channelSave chanStore calloc_ok channel sid fd = storeSave chanStore calloc_ok channel sid fd"

definition channelGet :: "store_t option \<Rightarrow> u64 \<Rightarrow> u64" where
  "channelGet chanStore sid = storeGet chanStore sid"

definition channelDelete :: "store_t option \<Rightarrow> u64 \<Rightarrow> store_t option \<times> bool" where
  "channelDelete chanStore sid = storeDelete chanStore sid"

definition channelExpire ::
  "(int \<Rightarrow> net_info) \<Rightarrow> (u64 \<rightharpoonup> net_info) \<Rightarrow> store_t option \<Rightarrow> u64 \<Rightarrow> bool \<Rightarrow> store_t option \<times> bool" where
  "channelExpire netInfo extraNetInfo chanStore count emptied =
     storeExpire netInfo extraNetInfo chanStore count emptied"

section \<open>Invariant and contents\<close>

definition store_ok :: "store_t \<Rightarrow> bool" where
  "store_ok s \<longleftrightarrow>
     length (hashTable s) = HASH_TABLE_SIZE \<and>
     (\<forall>i<HASH_TABLE_SIZE. distinct (map sockid (hashTable s ! i)) \<and>
        (\<forall>it\<in>set (hashTable s ! i). hashOfKey (sockid it) = i \<and> hdata it \<noteq> 0))"

definition store_map :: "store_t \<Rightarrow> u64 \<rightharpoonup> u64" where
  "store_map s k = map_option hdata (findHashTableItemFromList (hashListForKey s k) k)"

lemma hashOfKey_less: "hashOfKey k < HASH_TABLE_SIZE"
  by (simp add: hashOfKey_def HASH_TABLE_SIZE_def unat_mod)

lemma find_None_iff_sockid: "findHashTableItemFromList l k = None \<longleftrightarrow> k \<notin> sockid ` set l"
  by (induction l) auto

lemma find_Some_in: "findHashTableItemFromList l k = Some it \<Longrightarrow> it \<in> set l \<and> sockid it = k"
  by (induction l) (auto split: if_splits)

lemma find_append:
  "findHashTableItemFromList (l @ l') k =
     (case findHashTableItemFromList l k of None \<Rightarrow> findHashTableItemFromList l' k | Some it \<Rightarrow> Some it)"
  by (induction l) auto

lemma addHashTableItemToList_eq:
  "addHashTableItemToList l it = (if sockid it \<in> sockid ` set l then None else Some (l @ [it]))"
  by (induction l) auto

lemma unlink_item_None: "unlink_item l k = None \<longleftrightarrow> k \<notin> sockid ` set l"
  by (induction l) auto

lemma unlink_item_Some:
  assumes "unlink_item l k = Some (l', it)"
  shows "\<exists>l1 l2. l = l1 @ it # l2 \<and> l' = l1 @ l2 \<and> sockid it = k"
  using assms
proof (induction l arbitrary: l')
  case (Cons x l)
  show ?case
  proof (cases "sockid x = k")
    case True
    with Cons.prems show ?thesis by (intro exI [of _ "[]"] exI [of _ l]) simp
  next
    case False
    then obtain l0 where l0: "unlink_item l k = Some (l0, it)" "l' = x # l0"
      using Cons.prems by auto
    from Cons.IH [OF l0(1)] obtain l1 l2 where "l = l1 @ it # l2" "l0 = l1 @ l2" "sockid it = k"
      by blast
    with l0(2) show ?thesis by (intro exI [of _ "x # l1"] exI [of _ l2]) simp
  qed
qed simp

lemma hashTable_set_list [simp]: "hashTable (set_list s i l) = (hashTable s)[i := l]"
  by (simp add: set_list_def)

lemma hashTable_deleteHashTableItem [simp]: "hashTable (deleteHashTableItem s it) = hashTable s"
  by (simp add: deleteHashTableItem_def)

text \<open>Replacing one bucket by a chain that belongs there.\<close>

lemma store_ok_set_list:
  assumes "store_ok s" "i < HASH_TABLE_SIZE" "hashTable s' = (hashTable s)[i := l]"
    and "distinct (map sockid l)" "\<forall>it\<in>set l. hashOfKey (sockid it) = i \<and> hdata it \<noteq> 0"
  shows "store_ok s'"
  using assms by (auto simp: store_ok_def nth_list_update)

lemma store_map_set_list:
  assumes "store_ok s" "hashTable s' = (hashTable s)[i := l]"
  shows "store_map s' k =
           (if hashOfKey k = i then map_option hdata (findHashTableItemFromList l k) else store_map s k)"
  using assms hashOfKey_less [of k] by (auto simp: store_map_def hashListForKey_def store_ok_def)

lemma store_ok_bucket:
  assumes "store_ok s" "i < HASH_TABLE_SIZE"
  shows "distinct (map sockid (hashTable s ! i))"
    and "it \<in> set (hashTable s ! i) \<Longrightarrow> hashOfKey (sockid it) = i"
    and "it \<in> set (hashTable s ! i) \<Longrightarrow> hdata it \<noteq> 0"
  using assms by (auto simp: store_ok_def)

section \<open>The store as a keyed store\<close>

definition store_holds :: "store_t \<Rightarrow> (u64 \<rightharpoonup> u64) \<Rightarrow> bool" where
  "store_holds s M \<longleftrightarrow> store_ok s \<and> M = store_map s"

definition store_ins :: "store_t \<Rightarrow> int option \<Rightarrow> u64 \<Rightarrow> u64 \<Rightarrow> (store_t \<times> bool) option" where
  "store_ins s fd k v =
     (case storeSave (Some s) (fd \<noteq> None) v k (case fd of None \<Rightarrow> 0 | Some f \<Rightarrow> f) of
        (Some s', r) \<Rightarrow> Some (s', r)
      | (None, r) \<Rightarrow> None)"

definition store_fnd :: "store_t \<Rightarrow> u64 \<Rightarrow> (store_t \<times> u64) option" where
  "store_fnd s k = Some (s, storeGet (Some s) k)"

definition store_del :: "store_t \<Rightarrow> u64 \<Rightarrow> (store_t \<times> bool) option" where
  "store_del s k = (case storeDelete (Some s) k of (Some s', r) \<Rightarrow> Some (s', r) | (None, r) \<Rightarrow> None)"

lemma dom_store_map: "k \<in> dom (store_map s) \<longleftrightarrow> k \<in> sockid ` set (hashListForKey s k)"
  using find_None_iff_sockid [of "hashListForKey s k" k] by (auto simp: store_map_def domIff)

lemma store_ins_new:
  assumes "store_ok s" "k \<notin> dom (store_map s)" "v \<noteq> 0"
  shows "\<exists>s'. store_ins s (Some fd) k v = Some (s', True) \<and> store_ok s' \<and> store_map s' = (store_map s)(k \<mapsto> v)"
proof -
  let ?i = "hashOfKey k"
  let ?it = "\<lparr>sockid = k, sockfd = fd, hdata = v, circBufCount = 0\<rparr>"
  let ?l = "hashTable s ! ?i @ [?it]"
  let ?s = "(set_list s ?i ?l)\<lparr>totalSaves := totalSaves s + 1\<rparr>"
  have no: "k \<notin> sockid ` set (hashTable s ! ?i)"
    using assms(2) by (simp add: dom_store_map hashListForKey_def)
  have "store_ins s (Some fd) k v = Some (?s, True)"
    using no assms(3)
    by (simp add: store_ins_def storeSave_def createHashTableItem_def addHashTableItemToList_eq hashListForKey_def)
  moreover have "store_ok ?s"
    by (rule store_ok_set_list [OF assms(1) hashOfKey_less, of _ k ?l])
       (use store_ok_bucket [OF assms(1) hashOfKey_less] no assms(3) in auto)
  moreover have "store_map ?s = (store_map s)(k \<mapsto> v)"
  proof
    fix x
    have "store_map ?s x = (if hashOfKey x = ?i then map_option hdata (findHashTableItemFromList ?l x) else store_map s x)"
      by (rule store_map_set_list [OF assms(1)]) simp
    also have "\<dots> = ((store_map s)(k \<mapsto> v)) x"
      using no find_None_iff_sockid [of "hashTable s ! ?i" k]
      by (auto simp: find_append store_map_def hashListForKey_def split: option.splits)
    finally show "store_map ?s x = ((store_map s)(k \<mapsto> v)) x" .
  qed
  ultimately show ?thesis by blast
qed

lemma store_del_present:
  assumes "store_ok s" "k \<in> dom (store_map s)"
  shows "\<exists>s'. store_del s k = Some (s', True) \<and> store_ok s' \<and> store_map s' = (store_map s)(k := None) \<and>
              freed s' = freed s @ [the (store_map s k)]"
proof -
  let ?i = "hashOfKey k"
  have "unlink_item (hashTable s ! ?i) k \<noteq> None"
    using assms(2) by (simp only: unlink_item_None) (simp add: dom_store_map hashListForKey_def)
  then obtain l it where u: "unlink_item (hashTable s ! ?i) k = Some (l, it)" by auto
  then obtain l1 l2 where l: "hashTable s ! ?i = l1 @ it # l2" "l = l1 @ l2" "sockid it = k"
    using unlink_item_Some by blast
  let ?s = "deleteHashTableItem ((set_list s ?i l)\<lparr>totalDeletes := totalDeletes s + 1\<rparr>) it"
  note bucket = store_ok_bucket [OF assms(1) hashOfKey_less [of k], unfolded l(1)]
  have gone: "k \<notin> sockid ` set l1" "k \<notin> sockid ` set l2"
    using bucket(1) l(3) by auto
  have ht: "hashTable ?s = (hashTable s)[?i := l]" by simp
  have "store_del s k = Some (?s, True)"
    using u by (simp add: store_del_def storeDelete_def hashListForKey_def)
  moreover have "store_ok ?s"
    by (rule store_ok_set_list [OF assms(1) hashOfKey_less ht]) (use bucket l(2) in auto)
  moreover have "store_map ?s = (store_map s)(k := None)"
  proof
    fix x
    show "store_map ?s x = ((store_map s)(k := None)) x"
      unfolding store_map_set_list [OF assms(1) ht]
      using gone [folded find_None_iff_sockid] l
      by (auto simp: find_append store_map_def hashListForKey_def split: option.splits)
  qed
  moreover have "freed ?s = freed s @ [the (store_map s k)]"
    using bucket(3) [of it] gone(1) find_None_iff_sockid [of l1 k]
    by (simp add: deleteHashTableItem_def set_list_def store_map_def hashListForKey_def l find_append)
  ultimately show ?thesis by blast
qed

interpretation reqs: key_store store_ins store_fnd store_del "\<lambda>_ _. True" "\<lambda>v. v \<noteq> 0" "\<lambda>_. True" 0 store_holds
proof unfold_locales
  fix s M a k v
  assume "store_holds s M"
  then have ok: "store_ok s" and M: "M = store_map s" by (auto simp: store_holds_def)
  show "store_ins s None k v = Some (s, False)"
    by (simp add: store_ins_def storeSave_def createHashTableItem_def)
  show "store_ins s (Some a) k v = Some (s, False)" if "k \<in> dom M \<or> \<not> v \<noteq> 0"
    using that by (auto simp: M dom_store_map store_ins_def storeSave_def createHashTableItem_def
        addHashTableItemToList_eq)
  show "\<exists>s'. store_ins s (Some a) k v = Some (s', True) \<and> store_holds s' (M(k \<mapsto> v))"
    if "k \<notin> dom M" "v \<noteq> 0"
    using store_ins_new [OF ok that [unfolded M], of a] by (auto simp: M store_holds_def)
  show "store_fnd s k = Some (s, case M k of None \<Rightarrow> 0 | Some v \<Rightarrow> v)"
    by (simp add: store_fnd_def storeGet_def M store_map_def split: option.split)
  show "store_del s k = Some (s, True)" if "k \<notin> dom M"
    using that unlink_item_None [of "hashListForKey s k" k]
    by (auto simp: M dom_store_map store_del_def storeDelete_def)
  show "\<exists>s'. store_del s k = Some (s', True) \<and> store_holds s' (M(k := None))" if "k \<in> dom M"
    using store_del_present [OF ok that [unfolded M]] by (auto simp: M store_holds_def)
qed

section \<open>Expiry\<close>

text \<open>No two neighbours of a chain satisfy the predicate.\<close>

fun no_neighbours :: "('a \<Rightarrow> bool) \<Rightarrow> 'a list \<Rightarrow> bool" where
  "no_neighbours P (x # y # zs) = (\<not> (P x \<and> P y) \<and> no_neighbours P (y # zs))"
| "no_neighbours P zs = True"

lemma expire_list_dels: "snd (expire_list e m c p xs) = filter e xs"
  by (induction xs arbitrary: c p) (auto simp: Let_def split_def)

lemma expire_list_subseq: "subseq (fst (expire_list e m c p xs)) (c @ map m (filter (\<lambda>x. \<not> e x) xs))"
proof (induction xs arbitrary: c p)
  case (Cons x xs)
  show ?case
    using Cons [of "[]" False] Cons [of c False] Cons [of "c @ [m x]" True]
    by (auto simp: Let_def split_def intro: subseq_order.trans)
qed simp

lemma expire_list_exact:
  assumes "no_neighbours e xs" "c = [] \<or> p \<or> xs = [] \<or> \<not> e (hd xs)"
  shows "fst (expire_list e m c p xs) = c @ map m (filter (\<lambda>x. \<not> e x) xs)"
  using assms
proof (induction xs arbitrary: c p)
  case (Cons x xs)
  have "no_neighbours e xs" "e x \<Longrightarrow> xs = [] \<or> \<not> e (hd xs)"
    using Cons.prems(1) by (cases xs; simp)+
  then show ?case
    using Cons by (auto simp: Let_def split_def)
qed simp

lemma subseq_elems: "subseq xs ys \<Longrightarrow> set xs \<subseteq> set ys"
  by (induction rule: list_emb.induct) auto

lemma subseq_distinct_list:
  assumes "subseq xs ys" "distinct ys"
  shows "distinct xs"
  using assms by (induction rule: list_emb.induct) (auto dest: subseq_elems)

text \<open>The result of one bucket and of the whole pass.\<close>

lemma foldl_delete:
  "foldl deleteHashTableItem s its =
     s\<lparr>freed := freed s @ filter (\<lambda>d. d \<noteq> 0) (map hdata its)\<rparr>"
  by (induction its arbitrary: s) (auto simp: deleteHashTableItem_def)

lemma expire_bucket_fields:
  "hashTable (expire_bucket e m s i) = (hashTable s)[i := fst (expire_list e m [] False (hashTable s ! i))]"
  "freed (expire_bucket e m s i) = freed s @ filter (\<lambda>d. d \<noteq> 0) (map hdata (filter e (hashTable s ! i)))"
  by (auto simp: expire_bucket_def Let_def split_def foldl_delete set_list_def expire_list_dels)

lemma expire_pass:
  assumes "n \<le> length (hashTable s)" "s' = foldl (expire_bucket e m) s [0..<n]"
  shows "hashTable s' =
           map (\<lambda>l. fst (expire_list e m [] False l)) (take n (hashTable s)) @ drop n (hashTable s) \<and>
         freed s' = freed s @ filter (\<lambda>d. d \<noteq> 0) (map hdata (filter e (concat (take n (hashTable s)))))"
  using assms
proof (induction n arbitrary: s')
  case (Suc n)
  define t where "t = foldl (expire_bucket e m) s [0..<n]"
  have IH: "hashTable t = map (\<lambda>l. fst (expire_list e m [] False l)) (take n (hashTable s)) @ drop n (hashTable s)"
    "freed t = freed s @ filter (\<lambda>d. d \<noteq> 0) (map hdata (filter e (concat (take n (hashTable s)))))"
    using Suc.IH [OF _ t_def] Suc.prems(1) by auto
  have n: "n < length (hashTable s)" using Suc.prems(1) by simp
  have at: "hashTable t ! n = hashTable s ! n"
    using n by (simp add: IH(1) nth_append)
  have s': "s' = expire_bucket e m t n"
    using Suc.prems(2) by (simp add: t_def)
  show ?case
    unfolding s' expire_bucket_fields at
    using n by (simp add: IH take_Suc_conv_app_nth list_update_append Cons_nth_drop_Suc [symmetric])
qed simp

definition survivors ::
  "(int \<Rightarrow> net_info) \<Rightarrow> (u64 \<rightharpoonup> net_info) \<Rightarrow> u64 \<Rightarrow> u64 \<Rightarrow> bool \<Rightarrow> hashTable_t list \<Rightarrow> hashTable_t list" where
  "survivors netInfo extraNetInfo cbsize count emptied l =
     map (mark_item netInfo extraNetInfo count) (filter (\<lambda>it. \<not> expirable cbsize count emptied it) l)"

lemma mark_item_fields [simp]: "sockid (mark_item n x c it) = sockid it" "hdata (mark_item n x c it) = hdata it"
  by (auto simp: mark_item_def Let_def)

lemma expired_bucket_ok:
  assumes "store_ok s" "i < HASH_TABLE_SIZE"
    and l: "l = fst (expire_list (expirable cb count emptied) (mark_item n x count) [] False (hashTable s ! i))"
  shows "distinct (map sockid l)" "it \<in> set l \<Longrightarrow> hashOfKey (sockid it) = i \<and> hdata it \<noteq> 0"
proof -
  let ?s = "survivors n x cb count emptied (hashTable s ! i)"
  have sub: "subseq l ?s"
    using expire_list_subseq [of "expirable cb count emptied" "mark_item n x count" "[]" False]
    by (simp add: l survivors_def)
  have "map sockid ?s = map sockid (filter (\<lambda>it. \<not> expirable cb count emptied it) (hashTable s ! i))"
    by (simp add: survivors_def)
  then have "distinct (map sockid ?s)"
    using store_ok_bucket(1) [OF assms(1,2)] by (simp add: distinct_map_filter)
  then show "distinct (map sockid l)"
    using subseq_map [OF sub] by (blast intro: subseq_distinct_list)
  show "hashOfKey (sockid it) = i \<and> hdata it \<noteq> 0" if "it \<in> set l"
    using that subsetD [OF subseq_elems [OF sub] that] store_ok_bucket(2,3) [OF assms(1,2)]
    by (auto simp: survivors_def)
qed

lemma delete_pass:
  assumes "n \<le> length (hashTable s)" "s' = foldl deleteList s [0..<n]"
  shows "hashTable s' = replicate n [] @ drop n (hashTable s) \<and>
         freed s' = freed s @ filter (\<lambda>d. d \<noteq> 0) (map hdata (concat (take n (hashTable s))))"
  using assms
proof (induction n arbitrary: s')
  case (Suc n)
  define t where "t = foldl deleteList s [0..<n]"
  have IH: "hashTable t = replicate n [] @ drop n (hashTable s)"
    "freed t = freed s @ filter (\<lambda>d. d \<noteq> 0) (map hdata (concat (take n (hashTable s))))"
    using Suc.IH [OF _ t_def] Suc.prems(1) by auto
  have n: "n < length (hashTable s)" using Suc.prems(1) by simp
  have "s' = deleteList t n"
    using Suc.prems(2) by (simp add: t_def)
  then show ?case
    using n
    by (simp add: deleteList_def foldl_delete set_list_def IH nth_append take_Suc_conv_app_nth list_update_append
        Cons_nth_drop_Suc [symmetric] replicate_append_same flip: replicate_Suc)
qed simp

lemma store_ok_data:
  assumes "store_ok s"
  shows "filter (\<lambda>d. d \<noteq> 0) (map hdata (filter P (concat (hashTable s)))) = map hdata (filter P (concat (hashTable s)))"
proof -
  have "hdata it \<noteq> 0" if "it \<in> set (concat (hashTable s))" for it
    using that assms by (auto simp: store_ok_def in_set_conv_nth [of _ "hashTable s"])
  then show ?thesis by (auto simp: filter_id_conv)
qed

lemma storeExpire_run:
  assumes "store_ok s"
  shows "\<exists>s'. storeExpire n x (Some s) count emptied = (Some s', True) \<and>
           hashTable s' =
             map (\<lambda>l. fst (expire_list (expirable (cbufSize s) count emptied) (mark_item n x count) [] False l))
               (hashTable s) \<and>
           freed s' = freed s @ map hdata (filter (expirable (cbufSize s) count emptied) (concat (hashTable s)))"
proof -
  let ?e = "expirable (cbufSize s) count emptied"
  define s' where "s' = foldl (expire_bucket ?e (mark_item n x count)) s [0..<HASH_TABLE_SIZE]"
  have "length (hashTable s) = HASH_TABLE_SIZE"
    using assms by (simp add: store_ok_def)
  with expire_pass [OF _ s'_def] store_ok_data [OF assms, of ?e] show ?thesis
    by (simp add: storeExpire_def s'_def [symmetric])
qed

section \<open>Properties\<close>

text \<open>
  C12. From a created store, every sequence of saves, lookups and deletes by socket id answers as a
  finite map from socket ids to data would: a save of a new id with data succeeds, a duplicate, a
  NULL or a failed allocation is refused without effect, a lookup finds what was saved last,
  and every deletion reports success.
\<close>

theorem store_refines_map:
  assumes "storeCreate True True True True qlen = Some s"
  shows "\<exists>s'. store_run store_ins store_fnd store_del s ops =
                Some (s', snd (map_run (\<lambda>v. v \<noteq> 0) (\<lambda>_. True) 0 (\<lambda>_. None) ops)) \<and>
              store_ok s' \<and> store_map s' = fst (map_run (\<lambda>v. v \<noteq> 0) (\<lambda>_. True) 0 (\<lambda>_. None) ops)"
proof -
  have ht: "hashTable s = replicate HASH_TABLE_SIZE []"
    using assms by (auto simp: storeCreate_def Let_def split_def split: option.splits if_splits)
  then have "store_ok s" by (simp add: store_ok_def)
  moreover have "store_map s k = None" for k
    using hashOfKey_less [of k] by (simp add: store_map_def hashListForKey_def ht)
  ultimately have h: "store_holds s (\<lambda>_. None)" by (auto simp: store_holds_def)
  have "fresh_run store_ins store_fnd store_del (\<lambda>_ _. True) t xs" for t xs
    by (induction xs arbitrary: t) (auto split: store_op.splits option.splits)
  from reqs.run_refines [OF h this, of ops] show ?thesis
    by (auto simp: store_holds_def)
qed

theorem store_refines_map_witness:
  "\<exists>s s'. storeCreate True True True True None = Some s \<and>
     store_run store_ins store_fnd store_del s
       [Ins (Some 3) 300 7, Ins (Some 4) 43 8, Ins (Some 4) 300 9, Find 43, Del 300, Find 300, Del 300] =
     Some (s', [Done True, Done True, Done False, Found 8, Done True, Found 0, Done True])"
proof -
  obtain s where s: "storeCreate True True True True None = Some s"
    by (simp add: storeCreate_def Let_def)
  from store_refines_map [OF s, of "[Ins (Some 3) 300 7, Ins (Some 4) 43 8, Ins (Some 4) 300 9, Find 43,
      Del 300, Find 300, Del 300]"] s show ?thesis
    by (simp del: store_run.simps) blast
qed

text \<open>
  C13. \<open>storeExpire\<close> on a well-formed store: it stays well formed; the data freed are exactly those of
  the entries that carry a mark and whose mark is old enough (or whose queue was emptied), each
  once; what stays in a bucket are entries that have not expired, in order, newly marked when
  their socket is gone; and no entry is lost from a bucket in which no two neighbours expire.
\<close>

theorem storeExpire_spec:
  assumes "store_ok s"
  shows "\<exists>s'. storeExpire n x (Some s) count emptied = (Some s', True) \<and> store_ok s' \<and>
           freed s' = freed s @ map hdata (filter (expirable (cbufSize s) count emptied) (concat (hashTable s))) \<and>
           (\<forall>i<HASH_TABLE_SIZE.
              subseq (hashTable s' ! i) (survivors n x (cbufSize s) count emptied (hashTable s ! i)) \<and>
              (no_neighbours (expirable (cbufSize s) count emptied) (hashTable s ! i) \<longrightarrow>
                 hashTable s' ! i = survivors n x (cbufSize s) count emptied (hashTable s ! i)))"
proof -
  define e where "e = expirable (cbufSize s) count emptied"
  have len: "length (hashTable s) = HASH_TABLE_SIZE"
    using assms by (simp add: store_ok_def)
  obtain s' where s': "storeExpire n x (Some s) count emptied = (Some s', True)"
    "hashTable s' = map (\<lambda>l. fst (expire_list e (mark_item n x count) [] False l)) (hashTable s)"
    "freed s' = freed s @ map hdata (filter e (concat (hashTable s)))"
    using storeExpire_run [OF assms] unfolding e_def by blast
  have "store_ok s'"
    unfolding store_ok_def using expired_bucket_ok [OF assms, of _ _ "cbufSize s" count emptied n x]
    by (simp add: s'(2) len e_def)
  moreover have "subseq (hashTable s' ! i) (survivors n x (cbufSize s) count emptied (hashTable s ! i)) \<and>
      (no_neighbours e (hashTable s ! i) \<longrightarrow>
         hashTable s' ! i = survivors n x (cbufSize s) count emptied (hashTable s ! i))"
    if "i < HASH_TABLE_SIZE" for i
    using that expire_list_subseq [of e "mark_item n x count" "[]" False "hashTable s ! i"]
      expire_list_exact [of e "hashTable s ! i" "[]" False "mark_item n x count"]
    by (simp add: s'(2) len survivors_def e_def)
  ultimately show ?thesis using s'(1,3) unfolding e_def by blast
qed

text \<open>The example store: one bucket with an entry in use between two entries that may expire or not.\<close>

definition item :: "u64 \<Rightarrow> u64 \<Rightarrow> u64 \<Rightarrow> hashTable_t" where
  "item k d c = \<lparr>sockid = k, sockfd = -1, hdata = d, circBufCount = c\<rparr>"

definition store_of :: "hashTable_t list \<Rightarrow> store_t" where
  "store_of l = \<lparr>hashTable = l # replicate 256 [], cbufSize = 10, totalSaves = 0, totalDeletes = 0, totalExpires = 0,
     maxListLen = 0, freed = []\<rparr>"

definition all_active :: "u64 \<rightharpoonup> net_info" where
  "all_active k = Some \<lparr>ni_uid = k, ni_active = True\<rparr>"

definition idle :: net_info where
  "idle = \<lparr>ni_uid = 0, ni_active = False\<rparr>"

lemma store_of_ok:
  assumes "distinct (map sockid l)" "\<forall>it\<in>set l. hashOfKey (sockid it) = 0 \<and> hdata it \<noteq> 0"
  shows "store_ok (store_of l)"
  using assms by (auto simp: store_ok_def store_of_def HASH_TABLE_SIZE_def nth_Cons split: nat.split)

theorem storeExpire_spec_witness:
  "\<exists>s'. storeExpire (\<lambda>_. idle) all_active (Some (store_of [item 0 7 5, item 257 8 0])) 3 True = (Some s', True) \<and>
        freed s' = [7] \<and> hashTable s' ! 0 = [item 257 8 0]"
proof -
  let ?s = "store_of [item 0 7 5, item 257 8 0]"
  have "store_ok ?s"
    by (rule store_of_ok) (simp_all add: item_def hashOfKey_def)
  moreover have "hashTable ?s ! 0 = [item 0 7 5, item 257 8 0]" "concat (hashTable ?s) = [item 0 7 5, item 257 8 0]"
    "freed ?s = []"
    by (simp_all add: store_of_def)
  moreover have "(0 :: nat) < HASH_TABLE_SIZE" by (simp add: HASH_TABLE_SIZE_def)
  ultimately show ?thesis
    using storeExpire_spec [of ?s "\<lambda>_. idle" all_active 3 True]
    by (fastforce simp: expirable_def item_def survivors_def mark_item_def NET_ENTRIES_def all_active_def)
qed

text \<open>
  C14. Expiry loses live entries. In a bucket that holds an entry in use followed by two expired ones, the
  pass frees the two and drops all three: the first entry, whose socket is active, can no longer
  be found, and its data are not freed either.
\<close>

theorem storeExpire_loses_live_entry:
  assumes "hashOfKey a = 0" "hashOfKey b = 0" "hashOfKey c = 0" "distinct [a, b, c]"
    and "x \<noteq> 0" "y \<noteq> 0" "z \<noteq> 0" "mb \<noteq> 0" "mc \<noteq> 0"
    and "s = store_of [item a x 0, item b y mb, item c z mc]"
  shows "storeGet (Some s) a = x \<and>
         (\<exists>s'. storeExpire n all_active (Some s) count True = (Some s', True) \<and>
               storeGet (Some s') a = 0 \<and> freed s' = [y, z])"
proof -
  have ok: "store_ok s"
    unfolding assms(10) by (rule store_of_ok) (use assms in \<open>auto simp: item_def\<close>)
  let ?l = "[item a x 0, item b y mb, item c z mc]"
  have h: "hashTable s = ?l # replicate 256 []" "freed s = []"
    by (simp_all add: store_of_def assms(10))
  have e: "\<not> expirable (cbufSize s) count True (item a x 0)" "expirable (cbufSize s) count True (item b y mb)"
    "expirable (cbufSize s) count True (item c z mc)"
    using assms(8,9) by (simp_all add: expirable_def item_def)
  obtain s' where s': "storeExpire n all_active (Some s) count True = (Some s', True)"
    "hashTable s' ! 0 = fst (expire_list (expirable (cbufSize s) count True) (mark_item n all_active count) [] False ?l)"
    "freed s' = map hdata (filter (expirable (cbufSize s) count True) ?l)"
    using storeExpire_run [OF ok, of n all_active count True] by (auto simp: h)
  have "hashTable s' ! 0 = []" "freed s' = [y, z]"
    by (simp_all add: s'(2,3) e, simp_all add: item_def)
  then have "storeGet (Some s') a = 0"
    by (simp add: storeGet_def hashListForKey_def assms(1))
  moreover have "storeGet (Some s) a = x"
    by (simp add: storeGet_def hashListForKey_def assms(1) h item_def)
  ultimately show ?thesis using s'(1) \<open>freed s' = [y, z]\<close> by blast
qed

theorem storeExpire_loses_live_entry_witness:
  "\<exists>s s'. storeGet (Some s) 0 = 7 \<and>
     storeExpire (\<lambda>_. idle) all_active (Some s) 3 True = (Some s', True) \<and> storeGet (Some s') 0 = 0"
proof -
  have "hashOfKey 0 = 0" "hashOfKey 257 = 0" "hashOfKey 514 = 0" "distinct [0, 257, 514 :: u64]"
    by (simp_all add: hashOfKey_def)
  from storeExpire_loses_live_entry [OF this, of 7 8 9 1 1, OF _ _ _ _ _ refl, of "\<lambda>_. idle" 3]
  show ?thesis by auto
qed

text \<open>
  \<open>storeDestroy\<close> of a well-formed store passes the data of every entry to \<open>freeData\<close>, bucket by
  bucket, each once.
\<close>

theorem storeDestroy_frees_all:
  assumes "store_ok s"
  shows "storeDestroy (Some s) = (None, freed s @ map hdata (concat (hashTable s)))"
proof -
  have len: "length (hashTable s) = HASH_TABLE_SIZE"
    using assms by (simp add: store_ok_def)
  have "freed (deleteAllLists s) = freed s @ map hdata (concat (hashTable s))"
    using delete_pass [of HASH_TABLE_SIZE s, OF _ refl] len store_ok_data [OF assms, of "\<lambda>_. True"]
    by (simp add: deleteAllLists_def)
  then show ?thesis by (simp add: storeDestroy_def)
qed

theorem storeDestroy_frees_all_witness:
  "storeDestroy (Some (store_of [item 0 7 5, item 257 8 0])) = (None, [7, 8])"
proof -
  have "store_ok (store_of [item 0 7 5, item 257 8 0])"
    by (rule store_of_ok) (simp_all add: item_def hashOfKey_def)
  from storeDestroy_frees_all [OF this] show ?thesis
    by (simp add: store_of_def item_def)
qed

end
