(* ===== verification/Event.thy ===== *)
theory Event
  imports Cstring
begin

text \<open>
  The event structure of \<^verbatim>\<open>src/mtcformat.h\<close> that metrics and events share, with the enumerations
  it uses (\<^verbatim>\<open>src/report.h\<close>, \<^verbatim>\<open>src/appviewtypes.h\<close>) and the enumeration maps of
  \<^verbatim>\<open>src/utils.c\<close>. An array of fields ended by \<open>FIELDEND\<close> is a list; a floating-point value is
  represented by its \<^verbatim>\<open>%.2f\<close> rendering, the only use the formatters make of it. The
  \<open>cJSON\<close> member is outside the model.
\<close>

datatype watch_t = CFG_SRC_FILE | CFG_SRC_CONSOLE | CFG_SRC_SYSLOG | CFG_SRC_METRIC | CFG_SRC_HTTP
  | CFG_SRC_NET | CFG_SRC_FS | CFG_SRC_DNS | CFG_SRC_SEC | CFG_SRC_MAX

text \<open>
  The members of \<open>metric_t\<close> the modelled code distinguishes; the other counters are
  \<open>OtherMetric\<close> with their position in the enumeration. \<open>OPEN_PORTS\<close> is the member with value 0.
\<close>

datatype metric_t = OPEN_PORTS | NETRX | NETTX | TLSRX | TLSTX | EVT_NET | EVT_FS | EVT_STAT | EVT_ERR
  | EVT_DNS | EVT_PROTO | EVT_HREQ | EVT_HRES | EVT_H2FRAME | EVT_DETECT | EVT_PAYLOAD | EVT_SEC
  | OtherMetric nat

datatype field_value = FMT_STR "string option" | FMT_NUM int

record event_field_t =
  f_name :: string
  f_value :: field_value
  f_event_usage :: bool
  f_cardinality :: u32

definition STRFIELD :: "string \<Rightarrow> string option \<Rightarrow> u32 \<Rightarrow> bool \<Rightarrow> event_field_t" where
  "STRFIELD n v c e = \<lparr>f_name = n, f_value = FMT_STR v, f_event_usage = e, f_cardinality = c\<rparr>"

definition NUMFIELD :: "string \<Rightarrow> int \<Rightarrow> u32 \<Rightarrow> bool \<Rightarrow> event_field_t" where
  "NUMFIELD n v c e = \<lparr>f_name = n, f_value = FMT_NUM v, f_event_usage = e, f_cardinality = c\<rparr>"

datatype data_type_t = DELTA | CURRENT | DELTA_MS | HISTOGRAM | SET

datatype event_value = FMT_INT int | FMT_FLT string

record event_t =
  e_name :: string
  e_value :: event_value
  e_type :: data_type_t
  e_fields :: "event_field_t list option"
  e_src :: watch_t
  e_capturedFields :: "event_field_t list option"

definition INT_EVENT :: "string \<Rightarrow> int \<Rightarrow> data_type_t \<Rightarrow> event_field_t list option \<Rightarrow> event_t" where
  "INT_EVENT n v t f = \<lparr>e_name = n, e_value = FMT_INT v, e_type = t, e_fields = f, e_src = CFG_SRC_METRIC,
     e_capturedFields = None\<rparr>"

section \<open>Data of the interposed calls\<close>

text \<open>
  How the intercepted functions describe their data (\<open>src_data_t\<close> with the pointer and the length):
  a buffer, the vectors of a message (with the unused length), an array of vectors, whose base may
  be NULL, or something else.
\<close>

datatype src_data = BUF string | MSG nat "string option list" | IOV "string option list" | OTHER nat

definition data_len :: "src_data \<Rightarrow> nat" where
  "data_len d = (case d of BUF b \<Rightarrow> length b | MSG n v \<Rightarrow> n | IOV v \<Rightarrow> length v | OTHER n \<Rightarrow> n)"

section \<open>Enumeration maps\<close>

text \<open>An enumeration map lists names and values; \<open>-1\<close> as an unsigned int is the value of no name.\<close>

fun strToVal :: "(string \<times> u32) list \<Rightarrow> string \<Rightarrow> u32" where
  "strToVal [] str = - 1"
| "strToVal ((s, v) # m) str = (if str = s then v else strToVal m str)"

fun valToStr :: "(string \<times> u32) list \<Rightarrow> u32 \<Rightarrow> string option" where
  "valToStr [] val = None"
| "valToStr ((s, v) # m) val = (if val = v then Some s else valToStr m val)"

lemma strToVal_in: "(s, v) \<in> set m \<Longrightarrow> distinct (map fst m) \<Longrightarrow> strToVal m s = v"
  by (induction m s rule: strToVal.induct) force+

lemma valToStr_in: "(s, v) \<in> set m \<Longrightarrow> distinct (map snd m) \<Longrightarrow> valToStr m v = Some s"
  by (induction m v rule: valToStr.induct) force+

end
