(* ===== verification/Strset.thy ===== *)
theory Strset
  imports Prelude
begin

text \<open>
  The string set of \<^verbatim>\<open>src/strset.c\<close>: an array of string pointers that grows by reallocation.
  The strings belong to the caller and are compared by content, so they are values here; an entry
  of the array that was never written is \<open>None\<close>, and reading it is undefined.
\<close>

record strset_t =
  ss_str :: "string option list"
  ss_count :: u32
  ss_capacity :: u32

definition strSetCreate :: "bool \<Rightarrow> bool \<Rightarrow> u32 \<Rightarrow> strset_t option" where
  "strSetCreate set_ok str_ok initialCapacity =
     (if \<not> set_ok \<or> \<not> str_ok then None
      else Some \<lparr>ss_str = replicate (unat initialCapacity) None, ss_count = 0, ss_capacity = initialCapacity\<rparr>)"

definition strSetDestroy :: "strset_t option \<Rightarrow> strset_t option" where
  "strSetDestroy set_ptr = None"

function strSetContains_loop :: "strset_t \<Rightarrow> string \<Rightarrow> nat \<Rightarrow> bool option" where
  "strSetContains_loop s str i =
     (if i < unat (ss_count s)
      then do {
        entry \<leftarrow> aget (ss_str s) (int i);
        p \<leftarrow> entry;
        if p = str then Some True else strSetContains_loop s str (i + 1)
      }
      else Some False)"
  by pat_completeness auto
termination
  by (relation "measure (\<lambda>(s, str, i). unat (ss_count s) - i)") auto

declare strSetContains_loop.simps [simp del]

definition strSetContains :: "strset_t option \<Rightarrow> string option \<Rightarrow> bool option" where
  "strSetContains st str =
     (case (st, str) of
        (Some s, Some x) \<Rightarrow> strSetContains_loop s x 0
      | _ \<Rightarrow> Some False)"

definition strSetAdd :: "strset_t option \<Rightarrow> string option \<Rightarrow> bool \<Rightarrow> (strset_t option \<times> bool) option" where
  "strSetAdd st str realloc_ok =
     (case (st, str) of
        (Some s, Some x) \<Rightarrow>
          do {
            dup \<leftarrow> strSetContains st str;
            if dup then Some (st, False)
            else
              let new_capacity = (if ss_capacity s \<noteq> 0 then ss_capacity s * 4 else 2);
                  full = ss_count s \<ge> ss_capacity s
              in if full \<and> \<not> realloc_ok then Some (st, False)
                 else
                   let s = (if full
                            then s\<lparr>ss_str := c_realloc None (unat new_capacity) (ss_str s),
                                   ss_capacity := new_capacity\<rparr>
                            else s)
                   in do {
                     a \<leftarrow> aset (ss_str s) (uint (ss_count s)) (Some x);
                     Some (Some (s\<lparr>ss_str := a, ss_count := ss_count s + 1\<rparr>), True)
                   }
          }
      | _ \<Rightarrow> Some (st, False))"

definition strSetEntryCount :: "strset_t option \<Rightarrow> u32" where
  "strSetEntryCount st = (case st of None \<Rightarrow> 0 | Some s \<Rightarrow> ss_count s)"

section \<open>The contract of a set without duplicates\<close>

text \<open>
  What the formatters rely on: adding says whether the element was new, and membership is
  membership. Adding can fail for lack of memory, so the law of \<open>add\<close> has the allocation's outcome.
\<close>

fun add_all :: "('s \<Rightarrow> 'a \<Rightarrow> ('s \<times> bool) option) \<Rightarrow> 's \<Rightarrow> 'a list \<Rightarrow> ('s \<times> bool list) option" where
  "add_all add s [] = Some (s, [])"
| "add_all add s (x # xs) =
     do { (s', r) \<leftarrow> add s x;
          (s'', rs) \<leftarrow> add_all add s' xs;
          Some (s'', r # rs) }"

text \<open>The elements of a list that were not seen before, and which ones they are.\<close>

fun firsts :: "'a list \<Rightarrow> 'a list \<Rightarrow> 'a list \<times> bool list" where
  "firsts seen [] = (seen, [])"
| "firsts seen (x # xs) =
     (let new = x \<notin> set seen; (seen', rs) = firsts (if new then seen @ [x] else seen) xs
      in (seen', new # rs))"

lemma set_firsts: "set (fst (firsts seen xs)) = set seen \<union> set xs"
  by (induction xs arbitrary: seen) (auto simp: Let_def split_def)

lemma distinct_firsts: "distinct seen \<Longrightarrow> distinct (fst (firsts seen xs))"
  by (induction xs arbitrary: seen) (auto simp: Let_def split_def)

lemma firsts_snoc:
  "fst (firsts seen (xs @ [x])) =
     (if x \<in> set seen \<union> set xs then fst (firsts seen xs) else fst (firsts seen xs) @ [x])"
  by (induction xs arbitrary: seen) (auto simp: Let_def split_def)

lemma length_firsts: "length (fst (firsts seen xs)) \<le> length seen + length xs"
proof (induction xs arbitrary: seen)
  case (Cons x xs)
  show ?case
    using Cons [of "seen @ [x]"] Cons [of seen] by (auto simp: Let_def split_def)
qed simp

locale dup_free_set =
  fixes add :: "'s \<Rightarrow> 'a \<Rightarrow> ('s \<times> bool) option"
    and contains :: "'s \<Rightarrow> 'a \<Rightarrow> bool option"
    and elems :: "'s \<Rightarrow> 'a list"
    and inv :: "'s \<Rightarrow> bool"
    and room :: nat
  assumes contains_elem: "inv s \<Longrightarrow> contains s x = Some (x \<in> set (elems s))"
    and add_dup: "inv s \<Longrightarrow> x \<in> set (elems s) \<Longrightarrow> add s x = Some (s, False)"
    and add_new: "inv s \<Longrightarrow> x \<notin> set (elems s) \<Longrightarrow> length (elems s) < room \<Longrightarrow>
                    \<exists>s'. add s x = Some (s', True) \<and> inv s' \<and> elems s' = elems s @ [x]"
begin

lemma add_all_firsts:
  assumes "inv s" "length (elems s) + length xs \<le> room"
  shows "\<exists>s'. add_all add s xs = Some (s', snd (firsts (elems s) xs)) \<and> inv s' \<and>
              elems s' = fst (firsts (elems s) xs)"
  using assms
proof (induction xs arbitrary: s)
  case (Cons x xs)
  show ?case
  proof (cases "x \<in> set (elems s)")
    case True
    then show ?thesis
      using Cons.IH [OF Cons.prems(1)] add_dup [OF Cons.prems(1) True] Cons.prems(2)
      by (auto simp: Let_def split_def)
  next
    case False
    from add_new [OF Cons.prems(1) False] Cons.prems(2) obtain s'
      where s': "add s x = Some (s', True)" "inv s'" "elems s' = elems s @ [x]"
      by auto
    then show ?thesis
      using Cons.IH [OF s'(2)] Cons.prems(2) False by (auto simp: Let_def split_def)
  qed
qed simp

end

section \<open>Invariant and contents\<close>

definition ss_elems :: "strset_t \<Rightarrow> string list" where
  "ss_elems s = map the (take (unat (ss_count s)) (ss_str s))"

definition ss_ok :: "strset_t \<Rightarrow> bool" where
  "ss_ok s \<longleftrightarrow>
     length (ss_str s) = unat (ss_capacity s) \<and> ss_count s \<le> ss_capacity s \<and>
     (\<forall>e\<in>set (take (unat (ss_count s)) (ss_str s)). e \<noteq> None) \<and> distinct (ss_elems s)"

lemma ss_length: "ss_ok s \<Longrightarrow> length (ss_elems s) = unat (ss_count s)"
  by (simp add: ss_ok_def ss_elems_def word_le_nat_alt)

lemma ss_entry:
  assumes "ss_ok s" "i < unat (ss_count s)"
  shows "i < length (ss_str s)" "ss_str s ! i = Some (ss_elems s ! i)"
proof -
  show i: "i < length (ss_str s)"
    using assms by (simp add: ss_ok_def word_le_nat_alt)
  have "ss_str s ! i \<in> set (take (unat (ss_count s)) (ss_str s))"
    using assms(2) i by (force simp: in_set_conv_nth)
  with assms i show "ss_str s ! i = Some (ss_elems s ! i)"
    by (auto simp: ss_ok_def ss_elems_def)
qed

lemma contains_loop_ok:
  assumes "ss_ok s" "i \<le> length (ss_elems s)"
  shows "strSetContains_loop s x i = Some (x \<in> set (drop i (ss_elems s)))"
  using assms(2)
proof (induction "length (ss_elems s) - i" arbitrary: i)
  case 0
  then show ?case
    using ss_length [OF assms(1)] by (subst strSetContains_loop.simps) simp
next
  case (Suc n)
  then have i: "i < unat (ss_count s)" "i < length (ss_elems s)"
    using ss_length [OF assms(1)] by auto
  then show ?case
    using Suc ss_entry [OF assms(1) i(1)]
    by (subst strSetContains_loop.simps) (auto simp: aget_nat simp flip: Cons_nth_drop_Suc [OF i(2)])
qed

lemma contains_ok: "ss_ok s \<Longrightarrow> strSetContains (Some s) (Some x) = Some (x \<in> set (ss_elems s))"
  using contains_loop_ok [of s 0 x] by (simp add: strSetContains_def)

text \<open>Writing the next entry, with room for it.\<close>

lemma ss_push:
  assumes "ss_ok s" "ss_count s < ss_capacity s" "x \<notin> set (ss_elems s)"
    and s': "s' = s\<lparr>ss_str := (ss_str s)[unat (ss_count s) := Some x], ss_count := ss_count s + 1\<rparr>"
  shows "ss_ok s'" "ss_elems s' = ss_elems s @ [x]"
proof -
  have c: "unat (ss_count s + 1) = Suc (unat (ss_count s))"
    by (rule unat_Suc_less [OF assms(2)])
  have l: "unat (ss_count s) < length (ss_str s)"
    using assms(1,2) by (simp add: ss_ok_def word_less_nat_alt)
  then have t: "take (Suc (unat (ss_count s))) ((ss_str s)[unat (ss_count s) := Some x]) =
      take (unat (ss_count s)) (ss_str s) @ [Some x]"
    by (simp add: take_Suc_conv_app_nth)
  then show e: "ss_elems s' = ss_elems s @ [x]"
    by (simp add: ss_elems_def s' c)
  show "ss_ok s'"
    using assms(1-3) e t c l by (simp add: ss_ok_def s' word_le_nat_alt word_less_nat_alt)
qed

lemma add_ok:
  assumes "ss_ok s" "length (ss_elems s) < 2 ^ 30"
  shows "\<exists>s'. strSetAdd (Some s) (Some x) ok =
           Some (Some s', x \<notin> set (ss_elems s) \<and> (ss_count s < ss_capacity s \<or> ok)) \<and> ss_ok s' \<and>
           ss_elems s' = (if x \<notin> set (ss_elems s) \<and> (ss_count s < ss_capacity s \<or> ok)
                          then ss_elems s @ [x] else ss_elems s)"
proof (cases "x \<in> set (ss_elems s) \<or> \<not> (ss_count s < ss_capacity s \<or> ok)")
  case True
  then show ?thesis
    using assms(1) by (auto simp: strSetAdd_def contains_ok Let_def)
next
  case False
  define cap where "cap = (if ss_capacity s \<noteq> 0 then ss_capacity s * 4 else 2)"
  define s1 where "s1 = (if ss_count s \<ge> ss_capacity s
      then s\<lparr>ss_str := c_realloc None (unat cap) (ss_str s), ss_capacity := cap\<rparr> else s)"
  have s1: "ss_ok s1 \<and> ss_count s1 < ss_capacity s1 \<and> ss_elems s1 = ss_elems s \<and> ss_count s1 = ss_count s"
  proof (cases "ss_count s \<ge> ss_capacity s")
    case full: True
    have eq: "ss_count s = ss_capacity s"
      using full assms(1) by (simp add: ss_ok_def)
    have small: "unat (ss_capacity s) < 2 ^ 30"
      using assms ss_length [OF assms(1)] by (simp flip: eq)
    then have "unat (ss_capacity s * 4) = unat (ss_capacity s) * 4"
      by (simp add: unat_mult_lem [THEN iffD1])
    then have c: "unat (ss_capacity s) < unat cap"
      by (auto simp: cap_def unat_gt_0)
    then have l: "unat (ss_count s) \<le> length (ss_str s)" "unat (ss_count s) \<le> unat cap"
      using assms(1) eq by (simp_all add: ss_ok_def)
    have t: "take (unat (ss_capacity s)) (ss_str s) = ss_str s"
      using assms(1) by (simp add: ss_ok_def)
    show ?thesis
      using assms(1) c full
      by (simp add: ss_ok_def ss_elems_def s1_def take_c_realloc [OF l, unfolded eq] word_less_nat_alt
          word_le_nat_alt eq t)
  next
    case False
    then show ?thesis using assms(1) by (simp add: s1_def)
  qed
  define s' where "s' = s1\<lparr>ss_str := (ss_str s1)[unat (ss_count s1) := Some x], ss_count := ss_count s1 + 1\<rparr>"
  have "ss_ok s'" "ss_elems s' = ss_elems s @ [x]"
    using ss_push [OF _ _ _ s'_def] s1 False by auto
  moreover have "aset (ss_str s1) (uint (ss_count s1)) (Some x) = Some ((ss_str s1)[unat (ss_count s1) := Some x])"
    using s1 by (auto simp: aset_def ss_ok_def word_less_def)
  then have "strSetAdd (Some s) (Some x) ok = Some (Some s', True)"
    using False contains_ok [OF assms(1)]
    by (simp add: strSetAdd_def Let_def s'_def not_less flip: cap_def s1_def)
  ultimately show ?thesis using False by auto
qed

section \<open>The string set fulfils the contract\<close>

definition ss_add :: "strset_t \<Rightarrow> string \<Rightarrow> (strset_t \<times> bool) option" where
  "ss_add s x = Option.bind (strSetAdd (Some s) (Some x) True) (\<lambda>(s', r). map_option (\<lambda>s'. (s', r)) s')"

interpretation strset: dup_free_set ss_add "\<lambda>s x. strSetContains (Some s) (Some x)" ss_elems ss_ok "2 ^ 30"
proof unfold_locales
  fix s x
  assume ok: "ss_ok s"
  show "strSetContains (Some s) (Some x) = Some (x \<in> set (ss_elems s))"
    using contains_ok [OF ok] .
  show "ss_add s x = Some (s, False)" if "x \<in> set (ss_elems s)"
    using that by (simp add: ss_add_def strSetAdd_def contains_ok [OF ok])
  show "\<exists>s'. ss_add s x = Some (s', True) \<and> ss_ok s' \<and> ss_elems s' = ss_elems s @ [x]"
    if "x \<notin> set (ss_elems s)" "length (ss_elems s) < 2 ^ 30"
    using that add_ok [OF ok that(2), of x True] by (auto simp: ss_add_def)
qed

section \<open>Properties\<close>

text \<open>
  C10. From a created set, adding any sequence of at most \<open>2 ^ 30\<close> strings (allocations
  succeeding) stays within the array, reports exactly the first occurrences as added, and ends with
  a set that contains precisely those strings, each once; the entry count is their number.
\<close>

theorem strset_add_all:
  assumes "strSetCreate True True cap = Some s" "length xs \<le> 2 ^ 30"
  shows "\<exists>s'. add_all ss_add s xs = Some (s', snd (firsts [] xs)) \<and>
              (\<forall>x. strSetContains (Some s') (Some x) = Some (x \<in> set xs)) \<and>
              unat (strSetEntryCount (Some s')) = card (set xs)"
proof -
  have s: "ss_ok s" "ss_elems s = []"
    using assms(1) by (auto simp: strSetCreate_def ss_ok_def ss_elems_def)
  from strset.add_all_firsts [OF s(1), of xs] s(2) assms(2) obtain s' where
    s': "add_all ss_add s xs = Some (s', snd (firsts [] xs))" "ss_ok s'" "ss_elems s' = fst (firsts [] xs)"
    by auto
  have e: "set (ss_elems s') = set xs" "distinct (ss_elems s')"
    using s'(3) set_firsts [of "[]" xs] distinct_firsts [of "[]" xs] by simp_all
  then have "unat (ss_count s') = card (set xs)"
    using ss_length [OF s'(2)] by (simp flip: distinct_card)
  then show ?thesis
    using s'(1) contains_ok [OF s'(2)] e(1) by (simp add: strSetEntryCount_def)
qed

theorem strset_add_all_witness:
  "\<exists>s'. add_all ss_add \<lparr>ss_str = [None], ss_count = 0, ss_capacity = 1\<rparr> [''a'', ''b'', ''a''] =
          Some (s', [True, True, False]) \<and> unat (strSetEntryCount (Some s')) = 2"
proof -
  have c: "strSetCreate True True 1 = Some \<lparr>ss_str = [None], ss_count = 0, ss_capacity = 1\<rparr>"
    by (simp add: strSetCreate_def)
  have "card (set [''a'', ''b'', ''a'']) = 2" by code_simp
  moreover have "snd (firsts [] [''a'', ''b'', ''a'']) = [True, True, False]" by simp
  ultimately show ?thesis
    using strset_add_all [OF c, of "[''a'', ''b'', ''a'']"] by (auto simp del: add_all.simps)
qed

text \<open>
  \<open>strSetAdd\<close> of one string: on a well-formed set with fewer than \<open>2 ^ 30\<close> entries it is
  defined, it returns true exactly when the string is new and there is room or the reallocation
  succeeds, the string is then the last entry, and otherwise the contents are unchanged.
\<close>

theorem strSetAdd_spec:
  assumes "ss_ok s" "length (ss_elems s) < 2 ^ 30"
  shows "\<exists>s'. strSetAdd (Some s) (Some x) ok =
           Some (Some s', x \<notin> set (ss_elems s) \<and> (ss_count s < ss_capacity s \<or> ok)) \<and> ss_ok s' \<and>
           ss_elems s' = (if x \<notin> set (ss_elems s) \<and> (ss_count s < ss_capacity s \<or> ok)
                          then ss_elems s @ [x] else ss_elems s)"
  using add_ok [OF assms] .

theorem strSetAdd_spec_witness:
  "\<exists>s'. strSetAdd (Some \<lparr>ss_str = [Some ''a''], ss_count = 1, ss_capacity = 1\<rparr>) (Some ''b'') False =
          Some (Some s', False) \<and> ss_elems s' = [''a'']"
proof -
  let ?s = "\<lparr>ss_str = [Some ''a''], ss_count = 1, ss_capacity = 1\<rparr>"
  have "ss_ok ?s" "ss_elems ?s = [''a'']" by (simp_all add: ss_ok_def ss_elems_def)
  with strSetAdd_spec [of ?s "''b''" False] show ?thesis by auto
qed

end
