(* ===== verification/Httpagg.thy ===== *)
theory Httpagg
  imports Event Strset
begin

text \<open>
  The aggregation of HTTP metrics by target of \<^verbatim>\<open>src/httpagg.c\<close>. The array of entries is a list of
  pointers (\<open>None\<close> for NULL); a pointer to an entry is its index. The metrics passed to
  \<open>cmdSendMetric\<close> by a report are the list that \<open>httpAggSendReport\<close> returns.
\<close>

definition DEFAULT_TARGET_LEN :: nat where
  "DEFAULT_TARGET_LEN = 128"

definition MAX_CODE_ENTRIES :: nat where
  "MAX_CODE_ENTRIES = 64"

abbreviation SERVER_DURATION :: u32 where "SERVER_DURATION \<equiv> 0"
abbreviation CLIENT_DURATION :: u32 where "CLIENT_DURATION \<equiv> 1"
abbreviation REQUEST_BYTES :: u32 where "REQUEST_BYTES \<equiv> 2"
abbreviation RESPONSE_BYTES :: u32 where "RESPONSE_BYTES \<equiv> 3"

definition fieldMapIn :: "(string \<times> u32) list" where
  "fieldMapIn =
     [(''http_server_duration'', SERVER_DURATION), (''http_client_duration'', CLIENT_DURATION),
      (''http_request_content_length'', REQUEST_BYTES), (''http_response_content_length'', RESPONSE_BYTES)]"

definition fieldMapOut :: "(string \<times> u32) list" where
  "fieldMapOut =
     [(''http.duration.server'', SERVER_DURATION), (''http.duration.client'', CLIENT_DURATION),
      (''http.req.content_length'', REQUEST_BYTES), (''http.resp.content_length'', RESPONSE_BYTES)]"

type_synonym status_code_t = "int \<times> u64"

record agg_counter_t =
  ac_total :: u64
  ac_num_entries :: u64

record target_agg_t =
  ta_uri :: string
  ta_status :: "status_code_t list"
  ta_field :: "agg_counter_t list"

record http_agg_t =
  ha_target :: "target_agg_t option list"
  ha_count :: u64
  ha_alloc :: u64

text \<open>The identity of the process, as the reports name it.\<close>

record proc_id_t =
  p_procname :: string
  p_pid :: int
  p_hostname :: string

definition httpAggCreate :: "bool \<Rightarrow> bool \<Rightarrow> http_agg_t option" where
  "httpAggCreate agg_ok lst_ok =
     (if \<not> agg_ok \<or> \<not> lst_ok then None
      else Some \<lparr>ha_target = replicate DEFAULT_TARGET_LEN None, ha_count = 0, ha_alloc = of_nat DEFAULT_TARGET_LEN\<rparr>)"

text \<open>The first field with the name and the type; no fields, or none such, is \<open>None\<close> or \<open>LLONG_MIN\<close>.\<close>

definition str_value :: "event_t option \<Rightarrow> string \<Rightarrow> string option" where
  "str_value evt name =
     (case evt of
        None \<Rightarrow> None
      | Some e \<Rightarrow>
          (case e_fields e of
             None \<Rightarrow> None
           | Some fs \<Rightarrow>
               (case List.find (\<lambda>f. f_name f = name \<and> (case f_value f of FMT_STR _ \<Rightarrow> True | FMT_NUM _ \<Rightarrow> False)) fs of
                  None \<Rightarrow> None
                | Some f \<Rightarrow> (case f_value f of FMT_STR s \<Rightarrow> s | FMT_NUM _ \<Rightarrow> None))))"

definition num_value :: "event_t option \<Rightarrow> string \<Rightarrow> int" where
  "num_value evt name =
     (case evt of
        None \<Rightarrow> - (2 ^ 63)
      | Some e \<Rightarrow>
          (case e_fields e of
             None \<Rightarrow> - (2 ^ 63)
           | Some fs \<Rightarrow>
               (case List.find (\<lambda>f. f_name f = name \<and> (case f_value f of FMT_STR _ \<Rightarrow> False | FMT_NUM _ \<Rightarrow> True)) fs of
                  None \<Rightarrow> - (2 ^ 63)
                | Some f \<Rightarrow> (case f_value f of FMT_STR _ \<Rightarrow> - (2 ^ 63) | FMT_NUM n \<Rightarrow> n))))"

definition strip_query :: "string \<Rightarrow> string" where
  "strip_query target_val = takeWhile (\<lambda>c. c \<noteq> CHR ''?'') target_val"

text \<open>The search for the target: the index of its entry, if it has one.\<close>

function find_target :: "http_agg_t \<Rightarrow> string \<Rightarrow> nat \<Rightarrow> nat option option" where
  "find_target agg uri i =
     (if i < unat (ha_count agg)
      then do {
        entry \<leftarrow> aget (ha_target agg) (int i);
        t \<leftarrow> entry;
        if ta_uri t = uri then Some (Some i) else find_target agg uri (i + 1)
      }
      else Some None)"
  by pat_completeness auto
termination
  by (relation "measure (\<lambda>(agg, uri, i). unat (ha_count agg) - i)") auto

declare find_target.simps [simp del]

definition new_target :: "string \<Rightarrow> target_agg_t" where
  "new_target uri =
     \<lparr>ta_uri = uri, ta_status = replicate MAX_CODE_ENTRIES (0, 0),
      ta_field = replicate 4 \<lparr>ac_total = 0, ac_num_entries = 0\<rparr>\<rparr>"

definition get_target_entry ::
  "http_agg_t \<Rightarrow> string \<Rightarrow> bool \<Rightarrow> bool \<Rightarrow> bool \<Rightarrow> (http_agg_t \<times> nat option) option" where
  "get_target_entry agg target_val strdup_ok realloc_ok calloc_ok =
     (if \<not> strdup_ok then Some (agg, None)
      else
        let temp_uri = strip_query target_val
        in do {
          found \<leftarrow> find_target agg temp_uri 0;
          case found of
            Some i \<Rightarrow> Some (agg, Some i)
          | None \<Rightarrow>
              let full = ha_count agg \<ge> ha_alloc agg;
                  new_size = push_bit 2 (ha_alloc agg)
              in if full \<and> \<not> realloc_ok then Some (agg, None)
                 else
                   let agg = (if full
                              then agg\<lparr>ha_target := c_realloc None (unat new_size) (ha_target agg), ha_alloc := new_size\<rparr>
                              else agg)
                   in if \<not> calloc_ok then Some (agg, None)
                      else do {
                        t \<leftarrow> aset (ha_target agg) (uint (ha_count agg)) (Some (new_target temp_uri));
                        Some (agg\<lparr>ha_target := t, ha_count := ha_count agg + 1\<rparr>, Some (unat (ha_count agg)))
                      }
        })"

definition add_counter :: "agg_counter_t \<Rightarrow> u64 \<Rightarrow> agg_counter_t" where
  "add_counter counter value = counter\<lparr>ac_total := ac_total counter + value, ac_num_entries := ac_num_entries counter + 1\<rparr>"

fun add_status_loop :: "status_code_t list \<Rightarrow> int \<Rightarrow> status_code_t list" where
  "add_status_loop [] value = []"
| "add_status_loop ((code, count) # rest) value =
     (if code = value then (code, count + 1) # rest
      else if code = 0 then (value, count + 1) # rest
      else (code, count) # add_status_loop rest value)"

definition add_status :: "status_code_t list \<Rightarrow> int \<Rightarrow> status_code_t list" where
  "add_status status value = (if value < 0 \<or> value > 1000 then status else add_status_loop status value)"

definition add_field :: "target_agg_t \<Rightarrow> u32 \<Rightarrow> u64 \<Rightarrow> target_agg_t" where
  "add_field t f value = t\<lparr>ta_field := (ta_field t)[unat f := add_counter (ta_field t ! unat f) value]\<rparr>"

text \<open>What \<open>httpAggAddMetric\<close> records in the target's entry; a length of -1 (as \<open>size_t\<close>) is unknown.\<close>

definition record_metric :: "event_t \<Rightarrow> u64 \<Rightarrow> u64 \<Rightarrow> target_agg_t \<Rightarrow> target_agg_t" where
  "record_metric duration request_len response_len t =
     (let t = t\<lparr>ta_status := add_status (ta_status t) (num_value (Some duration) ''http_status_code'')\<rparr>;
          dur_field = strToVal fieldMapIn (e_name duration);
          t = (if dur_field = SERVER_DURATION \<or> dur_field = CLIENT_DURATION
               then (case e_value duration of FMT_INT i \<Rightarrow> add_field t dur_field (word_of_int i) | FMT_FLT _ \<Rightarrow> t)
               else t);
          t = (if request_len \<noteq> - 1 then add_field t REQUEST_BYTES request_len else t)
      in if response_len \<noteq> - 1 then add_field t RESPONSE_BYTES response_len else t)"

definition httpAggAddMetric ::
  "http_agg_t option \<Rightarrow> event_t option \<Rightarrow> u64 \<Rightarrow> u64 \<Rightarrow> bool \<Rightarrow> bool \<Rightarrow> bool \<Rightarrow> http_agg_t option option" where
  "httpAggAddMetric http_agg duration request_len response_len strdup_ok realloc_ok calloc_ok =
     (case (http_agg, duration) of
        (Some agg, Some dur) \<Rightarrow>
          (case str_value duration ''http_target'' of
             None \<Rightarrow> Some http_agg
           | Some target_val \<Rightarrow>
               do {
                 (agg, entry) \<leftarrow> get_target_entry agg target_val strdup_ok realloc_ok calloc_ok;
                 case entry of
                   None \<Rightarrow> Some (Some agg)
                 | Some i \<Rightarrow>
                     do {
                       p \<leftarrow> aget (ha_target agg) (int i);
                       t \<leftarrow> p;
                       a \<leftarrow> aset (ha_target agg) (int i) (Some (record_metric dur request_len response_len t));
                       Some (Some (agg\<lparr>ha_target := a\<rparr>))
                     }
               })
      | _ \<Rightarrow> Some http_agg)"

text \<open>The metrics that report one status code and one counter of a target.\<close>

definition status_metric :: "proc_id_t \<Rightarrow> string \<Rightarrow> int \<Rightarrow> u64 \<Rightarrow> event_t" where
  "status_metric g_proc uri code count =
     INT_EVENT ''http.req'' (sint count) DELTA
       (Some [STRFIELD ''http_target'' (Some uri) 4 True, NUMFIELD ''http_status_code'' code 1 True,
              STRFIELD ''proc'' (Some (p_procname g_proc)) 4 True, NUMFIELD ''pid'' (p_pid g_proc) 4 True,
              STRFIELD ''host'' (Some (p_hostname g_proc)) 4 True, STRFIELD ''unit'' (Some ''request'') 4 True,
              STRFIELD ''summary'' (Some ''true'') 1 True])"

definition counter_metric :: "proc_id_t \<Rightarrow> string \<Rightarrow> u32 \<Rightarrow> agg_counter_t \<Rightarrow> event_t" where
  "counter_metric g_proc uri f c =
     (let (unit, metric_type) = (if f = SERVER_DURATION \<or> f = CLIENT_DURATION
                                 then (''millisecond'', DELTA_MS) else (''byte'', DELTA))
      in INT_EVENT (case valToStr fieldMapOut f of None \<Rightarrow> [] | Some n \<Rightarrow> n) (sint (ac_total c)) metric_type
           (Some [STRFIELD ''http_target'' (Some uri) 4 True, NUMFIELD ''numops'' (sint (ac_num_entries c)) 8 True,
                  STRFIELD ''proc'' (Some (p_procname g_proc)) 4 True, NUMFIELD ''pid'' (p_pid g_proc) 4 True,
                  STRFIELD ''host'' (Some (p_hostname g_proc)) 4 True, STRFIELD ''unit'' (Some unit) 4 True,
                  STRFIELD ''summary'' (Some ''true'') 1 True]))"

fun report_status :: "proc_id_t \<Rightarrow> string \<Rightarrow> status_code_t list \<Rightarrow> event_t list" where
  "report_status g_proc uri [] = []"
| "report_status g_proc uri ((code, count) # rest) =
     (if code = 0 then [] else status_metric g_proc uri code count # report_status g_proc uri rest)"

definition report_target :: "proc_id_t \<Rightarrow> target_agg_t \<Rightarrow> event_t list" where
  "report_target g_proc t =
     report_status g_proc (ta_uri t) (ta_status t) @
     concat (map (\<lambda>i. if ac_num_entries (ta_field t ! i) = 0 then []
                      else [counter_metric g_proc (ta_uri t) (of_nat i) (ta_field t ! i)]) [0..<4])"

fun report_loop :: "proc_id_t \<Rightarrow> target_agg_t option list \<Rightarrow> event_t list option" where
  "report_loop g_proc [] = Some []"
| "report_loop g_proc (p # rest) =
     do { t \<leftarrow> p; ms \<leftarrow> report_loop g_proc rest; Some (report_target g_proc t @ ms) }"

definition httpAggSendReport :: "proc_id_t \<Rightarrow> http_agg_t option \<Rightarrow> bool \<Rightarrow> event_t list option" where
  "httpAggSendReport g_proc http_agg mtc =
     (case http_agg of
        None \<Rightarrow> Some []
      | Some agg \<Rightarrow>
          if \<not> mtc then Some []
          else if unat (ha_count agg) \<le> length (ha_target agg)
          then report_loop g_proc (take (unat (ha_count agg)) (ha_target agg)) else None)"

definition httpAggReset :: "http_agg_t option \<Rightarrow> http_agg_t option option" where
  "httpAggReset http_agg =
     (case http_agg of
        None \<Rightarrow> Some None
      | Some agg \<Rightarrow>
          if unat (ha_count agg) \<le> length (ha_target agg)
          then Some (Some (agg\<lparr>ha_target := replicate (unat (ha_count agg)) None @ drop (unat (ha_count agg)) (ha_target agg),
                               ha_count := 0\<rparr>))
          else None)"

definition httpAggDestroy :: "http_agg_t option \<Rightarrow> http_agg_t option option" where
  "httpAggDestroy http_agg_ptr =
     (case http_agg_ptr of None \<Rightarrow> Some None | Some agg \<Rightarrow> map_option (\<lambda>_. None) (httpAggReset (Some agg)))"

section \<open>Status codes\<close>

text \<open>
  The slots in use hold the codes in the order of their first occurrence with their numbers of
  occurrences; the rest is empty.
\<close>

definition status_slots :: "int list \<Rightarrow> status_code_t list" where
  "status_slots vs =
     map (\<lambda>c. (c, of_nat (count_list vs c))) (fst (firsts [] vs)) @
     replicate (MAX_CODE_ENTRIES - card (set vs)) (0, 0)"

lemma add_status_hit:
  assumes "c \<in> set cs" "distinct cs" "0 \<notin> set cs"
  shows "add_status_loop (map (\<lambda>c. (c, f c)) cs @ r) c = map (\<lambda>x. (x, if x = c then f x + 1 else f x)) cs @ r"
  using assms by (induction cs) auto

lemma add_status_miss:
  assumes "c \<notin> set cs" "0 \<notin> set cs"
  shows "add_status_loop (map (\<lambda>c. (c, f c)) cs @ r) c = map (\<lambda>c. (c, f c)) cs @ add_status_loop r c"
  using assms by (induction cs) auto

lemma firsts_card: "length (fst (firsts [] vs)) = card (set vs)"
  using distinct_firsts [of "[]" vs] set_firsts [of "[]" vs] distinct_card by fastforce

lemma add_status_slots:
  assumes "1 \<le> v" "v \<le> 1000" "0 \<notin> set vs" "card (set (vs @ [v])) \<le> MAX_CODE_ENTRIES"
  shows "add_status (status_slots vs) v = status_slots (vs @ [v])"
proof (cases "v \<in> set vs")
  case True
  have "v \<in> set (fst (firsts [] vs))" "distinct (fst (firsts [] vs))" "0 \<notin> set (fst (firsts [] vs))"
    using True assms(3) set_firsts [of "[]" vs] distinct_firsts [of "[]" vs] by simp_all
  from add_status_hit [OF this] show ?thesis
    using True assms(1,2) by (simp add: add_status_def status_slots_def firsts_snoc insert_absorb)
next
  case False
  then have c: "card (set (vs @ [v])) = Suc (card (set vs))" by simp
  then obtain k where k: "MAX_CODE_ENTRIES - card (set vs) = Suc k" "MAX_CODE_ENTRIES - card (set (vs @ [v])) = k"
    using assms(4) by (cases "MAX_CODE_ENTRIES - card (set vs)") auto
  have n: "v \<notin> set (fst (firsts [] vs))" "0 \<notin> set (fst (firsts [] vs))"
    using False assms(3) set_firsts [of "[]" vs] by simp_all
  have m: "map (\<lambda>c. (c, of_nat (count_list (vs @ [v]) c) :: u64)) (fst (firsts [] vs)) =
      map (\<lambda>c. (c, of_nat (count_list vs c))) (fst (firsts [] vs))"
    using n(1) by auto
  show ?thesis
    using assms(1,2) False n k add_status_miss [OF n, of "\<lambda>c. of_nat (count_list vs c)"] m
    by (simp add: add_status_def status_slots_def firsts_snoc)
qed

lemma foldl_add_status:
  assumes "\<forall>v\<in>set vs. 1 \<le> v \<and> v \<le> 1000" "card (set vs) \<le> MAX_CODE_ENTRIES"
  shows "foldl add_status (replicate MAX_CODE_ENTRIES (0, 0)) vs = status_slots vs"
  using assms
proof (induction vs rule: rev_induct)
  case Nil
  then show ?case by (simp add: status_slots_def)
next
  case (snoc v vs)
  have "card (set vs) \<le> card (set (vs @ [v]))" by (rule card_mono) auto
  with snoc show ?case
    using add_status_slots [of v vs] by force
qed

lemma report_status_slots:
  assumes "0 \<notin> set vs"
  shows "report_status g u (status_slots vs) =
           map (\<lambda>c. status_metric g u c (of_nat (count_list vs c))) (fst (firsts [] vs))"
proof -
  have tail: "report_status g u (replicate n (0, x)) = []" for n x by (cases n) auto
  have "report_status g u (map (\<lambda>c. (c, f c)) cs @ replicate n (0, x)) = map (\<lambda>c. status_metric g u c (f c)) cs"
    if "0 \<notin> set cs" for cs f n x
    using that by (induction cs) (auto simp: tail)
  then show ?thesis
    using assms set_firsts [of "[]" vs] by (simp add: status_slots_def)
qed

section \<open>The table of targets\<close>

definition agg_entries :: "http_agg_t \<Rightarrow> target_agg_t list" where
  "agg_entries agg = contents (unat (ha_count agg)) (ha_target agg)"

definition agg_ok :: "http_agg_t \<Rightarrow> bool" where
  "agg_ok agg \<longleftrightarrow>
     filled (unat (ha_count agg)) (ha_target agg) \<and> length (ha_target agg) = unat (ha_alloc agg) \<and> 0 < ha_alloc agg"

text \<open>The abstract table: apply \<open>f\<close> to the entry of the target, making it first if need be.\<close>

fun upsert :: "string \<Rightarrow> (target_agg_t \<Rightarrow> target_agg_t) \<Rightarrow> target_agg_t list \<Rightarrow> target_agg_t list" where
  "upsert u f [] = [f (new_target u)]"
| "upsert u f (t # ts) = (if ta_uri t = u then f t # ts else t # upsert u f ts)"

fun index_of :: "string \<Rightarrow> target_agg_t list \<Rightarrow> nat option" where
  "index_of u [] = None"
| "index_of u (t # ts) = (if ta_uri t = u then Some 0 else map_option Suc (index_of u ts))"

lemma index_of_None: "index_of u ts = None \<Longrightarrow> upsert u f ts = ts @ [f (new_target u)]"
  by (induction ts) (auto split: if_splits)

lemma index_of_Some: "index_of u ts = Some i \<Longrightarrow> i < length ts \<and> upsert u f ts = ts[i := f (ts ! i)]"
  by (induction ts arbitrary: i) (auto split: if_splits)

lemma find_target_ok:
  assumes "agg_ok agg" "i \<le> length (agg_entries agg)"
  shows "find_target agg u i = Some (map_option ((+) i) (index_of u (drop i (agg_entries agg))))"
  using assms(2)
proof (induction "length (agg_entries agg) - i" arbitrary: i)
  case 0
  then have "\<not> i < unat (ha_count agg)"
    using assms(1) by (simp add: agg_entries_def agg_ok_def length_contents)
  with 0 show ?case by (subst find_target.simps) simp
next
  case (Suc n)
  have f: "filled (unat (ha_count agg)) (ha_target agg)"
    using assms(1) by (simp add: agg_ok_def)
  then have i: "i < unat (ha_count agg)" "i < length (agg_entries agg)"
    using Suc.hyps(2) by (auto simp: agg_entries_def length_contents)
  have step: "find_target agg u (i + 1) = Some (map_option ((+) (i + 1)) (index_of u (drop (i + 1) (agg_entries agg))))"
    using Suc i(2) by simp
  have e: "ha_target agg ! i = Some (agg_entries agg ! i)" "i < length (ha_target agg)"
    using filled_nth [OF f i(1)] by (simp_all add: agg_entries_def)
  have o: "map_option ((+) i) (map_option Suc x) = map_option ((+) (Suc i)) x" for x
    by (cases x) auto
  show ?case
    using i e step
    by (subst find_target.simps) (auto simp: aget_nat o simp flip: Cons_nth_drop_Suc [OF i(2)])
qed

lemma get_target_ok:
  assumes "agg_ok agg" "length (agg_entries agg) < 2 ^ 60"
  shows "\<exists>agg' i. get_target_entry agg tv True True True = Some (agg', Some i) \<and> agg_ok agg' \<and>
           i < length (agg_entries agg') \<and>
           (\<forall>f. (agg_entries agg')[i := f (agg_entries agg' ! i)] = upsert (strip_query tv) f (agg_entries agg))"
proof (cases "index_of (strip_query tv) (agg_entries agg)")
  case (Some i)
  have "find_target agg (strip_query tv) 0 = Some (Some i)"
    using find_target_ok [OF assms(1), of 0] Some by simp
  then show ?thesis
    using assms(1) index_of_Some [OF Some] by (simp add: get_target_entry_def)
next
  case None
  let ?n = "unat (ha_count agg)"
  have f: "filled ?n (ha_target agg)" and len: "length (ha_target agg) = unat (ha_alloc agg)" and pos: "0 < ha_alloc agg"
    using assms(1) by (simp_all add: agg_ok_def)
  have small: "?n < 2 ^ 60" using assms(2) f by (simp add: agg_entries_def length_contents)
  have le: "?n \<le> unat (ha_alloc agg)" using f len by (simp add: filled_def)
  define full where "full = (ha_count agg \<ge> ha_alloc agg)"
  define agg1 where "agg1 = (if full
      then agg\<lparr>ha_target := c_realloc None (unat (push_bit 2 (ha_alloc agg))) (ha_target agg),
               ha_alloc := push_bit 2 (ha_alloc agg)\<rparr> else agg)"
  have grow: "unat (push_bit 2 (ha_alloc agg)) = 4 * unat (ha_alloc agg)" if full
  proof -
    have "unat (ha_alloc agg) < 2 ^ 60"
      using that small le by (simp add: full_def word_le_nat_alt)
    then show ?thesis
      by (simp add: push_bit_eq_mult unat_mult_lem [THEN iffD1] mult.commute)
  qed
  have agg1: "filled ?n (ha_target agg1)" "contents ?n (ha_target agg1) = agg_entries agg"
    "?n < length (ha_target agg1)" "length (ha_target agg1) = unat (ha_alloc agg1)" "ha_count agg1 = ha_count agg"
    "0 < ha_alloc agg1"
    using f len le grow filled_realloc [OF f, of "unat (push_bit 2 (ha_alloc agg))"] pos
    by (auto simp: agg1_def agg_entries_def full_def word_le_nat_alt word_less_nat_alt)
  define agg' where "agg' = agg1\<lparr>ha_target := (ha_target agg1)[?n := Some (new_target (strip_query tv))],
      ha_count := ha_count agg + 1\<rparr>"
  have n: "unat (ha_count agg + 1) = Suc ?n"
    using small unat_Suc_less [of "ha_count agg" "2 ^ 60"] by (simp add: word_less_nat_alt)
  have e: "agg_entries agg' = agg_entries agg @ [new_target (strip_query tv)]"
    using filled_push [OF agg1(1,3)] agg1(2) n by (simp add: agg_entries_def agg'_def)
  have ok: "agg_ok agg'"
    using filled_push [OF agg1(1,3)] agg1(4,6) n by (simp add: agg_ok_def agg'_def)
  have l: "length (agg_entries agg) = ?n"
    using f by (simp add: agg_entries_def length_contents)
  have "aset (ha_target agg1) (uint (ha_count agg)) (Some x) = Some ((ha_target agg1)[?n := Some x])" for x
    using agg1(3) aset_nat [of "ha_target agg1" ?n] by simp
  then have "get_target_entry agg tv True True True = Some (agg', Some ?n)"
    using find_target_ok [OF assms(1), of 0 "strip_query tv"] None agg1(5)
    by (simp add: get_target_entry_def agg'_def Let_def flip: full_def agg1_def)
  then show ?thesis
    using ok e l index_of_None [OF None] by (intro exI [of _ agg'] exI [of _ ?n]) (simp add: nth_append list_update_append)
qed

lemma httpAggAddMetric_ok:
  assumes "agg_ok agg" "length (agg_entries agg) < 2 ^ 60" "str_value (Some d) ''http_target'' = Some tv"
  shows "\<exists>agg'. httpAggAddMetric (Some agg) (Some d) rq rs True True True = Some (Some agg') \<and> agg_ok agg' \<and>
           agg_entries agg' = upsert (strip_query tv) (record_metric d rq rs) (agg_entries agg)"
proof -
  from get_target_ok [OF assms(1,2), of tv] obtain a i where
    a: "get_target_entry agg tv True True True = Some (a, Some i)" "agg_ok a" "i < length (agg_entries a)"
    "\<And>f. (agg_entries a)[i := f (agg_entries a ! i)] = upsert (strip_query tv) f (agg_entries agg)"
    by blast
  have f: "filled (unat (ha_count a)) (ha_target a)" and i: "i < unat (ha_count a)"
    using a(2,3) by (simp_all add: agg_ok_def agg_entries_def length_contents)
  define r where "r = record_metric d rq rs (agg_entries a ! i)"
  define a' where "a' = a\<lparr>ha_target := (ha_target a)[i := Some r]\<rparr>"
  have "httpAggAddMetric (Some agg) (Some d) rq rs True True True = Some (Some a')"
    using a(1) filled_nth [OF f i] assms(3)
    by (simp add: httpAggAddMetric_def a'_def r_def aget_nat aset_nat agg_entries_def)
  moreover have "agg_ok a'" "agg_entries a' = upsert (strip_query tv) (record_metric d rq rs) (agg_entries agg)"
    using a(2) filled_update [OF f i, of r] a(4) [of "record_metric d rq rs"]
    by (simp_all add: agg_ok_def agg_entries_def a'_def r_def)
  ultimately show ?thesis by blast
qed

section \<open>Grouping by target\<close>

lemma upsert_uris:
  assumes "\<And>t. ta_uri (f t) = ta_uri t"
  shows "map ta_uri (upsert u f ts) = (if u \<in> ta_uri ` set ts then map ta_uri ts else map ta_uri ts @ [u])"
  using assms by (induction ts) (auto simp: new_target_def)

lemma upsert_map:
  assumes "\<And>t. ta_uri (f t) = ta_uri t" "distinct us" "\<And>u. ta_uri (g u) = u"
  shows "upsert u f (map g us) =
           (if u \<in> set us then map (\<lambda>v. if v = u then f (g v) else g v) us else map g us @ [f (new_target u)])"
  using assms by (induction us) auto

definition group :: "(string \<times> (target_agg_t \<Rightarrow> target_agg_t)) list \<Rightarrow> string \<Rightarrow> target_agg_t" where
  "group xs u = foldl (\<lambda>t f. f t) (new_target u) (map snd (filter (\<lambda>x. fst x = u) xs))"

lemma group_uri:
  assumes "\<forall>x\<in>set xs. \<forall>t. ta_uri (snd x t) = ta_uri t"
  shows "ta_uri (group xs u) = u"
proof -
  have "ta_uri (foldl (\<lambda>t f. f t) t fs) = ta_uri t" if "\<forall>f\<in>set fs. \<forall>t. ta_uri (f t) = ta_uri t"
    for fs and t :: target_agg_t
    using that by (induction fs arbitrary: t) auto
  moreover have "\<forall>f\<in>set (map snd (filter (\<lambda>x. fst x = u) xs)). \<forall>t. ta_uri (f t) = ta_uri t"
    using assms by auto
  ultimately show ?thesis by (simp add: group_def new_target_def)
qed

lemma upsert_groups:
  assumes "\<forall>x\<in>set xs. \<forall>t. ta_uri (snd x t) = ta_uri t"
  shows "foldl (\<lambda>ts x. upsert (fst x) (snd x) ts) [] xs = map (group xs) (fst (firsts [] (map fst xs)))"
  using assms
proof (induction xs rule: rev_induct)
  case (snoc x xs)
  let ?us = "fst (firsts [] (map fst xs))"
  have us: "distinct ?us" "set ?us = fst ` set xs"
    using distinct_firsts [of "[]" "map fst xs"] set_firsts [of "[]" "map fst xs"] by simp_all
  have g: "group (xs @ [x]) u = (if fst x = u then snd x (group xs u) else group xs u)" for u
    by (simp add: group_def)
  have "group xs (fst x) = new_target (fst x)" if "fst x \<notin> fst ` set xs"
  proof -
    have "filter (\<lambda>y. fst y = fst x) xs = []"
      using that by (auto simp: filter_empty_conv image_iff)
    then show ?thesis by (simp add: group_def)
  qed
  moreover have "upsert (fst x) (snd x) (map (group xs) ?us) =
      (if fst x \<in> set ?us then map (\<lambda>v. if v = fst x then snd x (group xs v) else group xs v) ?us
       else map (group xs) ?us @ [snd x (new_target (fst x))])"
    by (rule upsert_map) (use snoc.prems us group_uri [of xs] in auto)
  ultimately show ?case
    using snoc us by (auto simp: firsts_snoc g)
qed simp

lemma add_field_other [simp]: "ta_uri (add_field t f v) = ta_uri t" "ta_status (add_field t f v) = ta_status t"
  by (simp_all add: add_field_def)

lemma record_metric_uri [simp]: "ta_uri (record_metric d rq rs t) = ta_uri t"
  by (simp add: record_metric_def Let_def split: event_value.split)

lemma record_metric_status [simp]:
  "ta_status (record_metric d rq rs t) = add_status (ta_status t) (num_value (Some d) ''http_status_code'')"
  by (simp add: record_metric_def Let_def split: event_value.split)

section \<open>From events to the report\<close>

text \<open>An event to be aggregated, with the lengths of the request and the response.\<close>

type_synonym http_event = "event_t \<times> u64 \<times> u64"

definition ev_uri :: "http_event \<Rightarrow> string" where
  "ev_uri e = (case str_value (Some (fst e)) ''http_target'' of None \<Rightarrow> [] | Some tv \<Rightarrow> strip_query tv)"

definition codes :: "string \<Rightarrow> http_event list \<Rightarrow> int list" where
  "codes u evs = map (\<lambda>e. num_value (Some (fst e)) ''http_status_code'') (filter (\<lambda>e. ev_uri e = u) evs)"

definition has_target :: "http_event \<Rightarrow> bool" where
  "has_target e \<longleftrightarrow> str_value (Some (fst e)) ''http_target'' \<noteq> None"

fun add_events :: "http_agg_t option \<Rightarrow> http_event list \<Rightarrow> http_agg_t option option" where
  "add_events agg [] = Some agg"
| "add_events agg ((d, rq, rs) # evs) =
     do { agg' \<leftarrow> httpAggAddMetric agg (Some d) rq rs True True True; add_events agg' evs }"

definition ev_update :: "http_event \<Rightarrow> string \<times> (target_agg_t \<Rightarrow> target_agg_t)" where
  "ev_update e = (ev_uri e, record_metric (fst e) (fst (snd e)) (snd (snd e)))"

lemma length_upsert: "length (upsert u f ts) \<le> Suc (length ts)"
  by (induction ts) auto

lemma add_events_ok:
  assumes "agg_ok agg" "length (agg_entries agg) + length evs \<le> 2 ^ 60" "\<forall>e\<in>set evs. has_target e"
  shows "\<exists>agg'. add_events (Some agg) evs = Some (Some agg') \<and> agg_ok agg' \<and>
           agg_entries agg' = foldl (\<lambda>ts x. upsert (fst x) (snd x) ts) (agg_entries agg) (map ev_update evs)"
  using assms
proof (induction evs arbitrary: agg)
  case (Cons e evs)
  obtain d rq rs where e: "e = (d, rq, rs)" by (cases e)
  obtain tv where tv: "str_value (Some d) ''http_target'' = Some tv"
    using Cons.prems(3) by (auto simp: has_target_def e)
  obtain agg' where agg': "httpAggAddMetric (Some agg) (Some d) rq rs True True True = Some (Some agg')" "agg_ok agg'"
    "agg_entries agg' = upsert (strip_query tv) (record_metric d rq rs) (agg_entries agg)"
    using httpAggAddMetric_ok [OF Cons.prems(1) _ tv] Cons.prems(2) by force
  have "length (agg_entries agg') + length evs \<le> 2 ^ 60"
    using Cons.prems(2) length_upsert [of "strip_query tv" "record_metric d rq rs" "agg_entries agg"] agg'(3) by simp
  with Cons.IH [OF agg'(2)] Cons.prems(3) agg' show ?case
    by (simp add: e ev_update_def ev_uri_def tv)
qed simp

lemma group_status:
  "ta_status (group (map ev_update evs) u) = foldl add_status (replicate MAX_CODE_ENTRIES (0, 0)) (codes u evs)"
proof (induction evs rule: rev_induct)
  case (snoc e evs)
  then show ?case
    by (simp add: group_def codes_def ev_update_def)
qed (simp add: group_def codes_def new_target_def)

lemma counter_metric_name: "i < 4 \<Longrightarrow> e_name (counter_metric g u (of_nat i) c) \<noteq> ''http.req''"
  by (auto simp: counter_metric_def INT_EVENT_def fieldMapOut_def Let_def split_def numeral_eq_Suc less_Suc_eq)

lemma report_target_reqs:
  "filter (\<lambda>m. e_name m = ''http.req'') (report_target g t) = report_status g (ta_uri t) (ta_status t)"
proof -
  have "filter (\<lambda>m. e_name m = ''http.req'') (report_status g u st) = report_status g u st" for u st
    by (induction g u st rule: report_status.induct) (auto simp: status_metric_def INT_EVENT_def)
  then show ?thesis
    by (simp add: report_target_def filter_concat comp_def counter_metric_name if_distrib
        cong: map_cong if_cong)
qed

lemma report_loop_entries: "report_loop g (map Some ts) = Some (concat (map (report_target g) ts))"
  by (induction ts) auto

text \<open>
  C15. From events to the report. Take any sequence of HTTP events that have a target and a status
  code from 1 to 1000, with at most 64 different codes per target (targets are compared without
  their query strings). Adding them to a fresh aggregation and reporting sends, for every target in
  order of first appearance and every code in order of first appearance for that target, one
  \<^verbatim>\<open>http.req\<close> metric whose value is the number of events with that target and code.
\<close>

theorem agg_report_counts:
  assumes "httpAggCreate True True = Some agg0" "length evs \<le> 2 ^ 60"
    and "\<forall>e\<in>set evs. has_target e"
    and "\<forall>u. (\<forall>c\<in>set (codes u evs). 1 \<le> c \<and> c \<le> 1000) \<and> card (set (codes u evs)) \<le> MAX_CODE_ENTRIES"
  shows "\<exists>agg ms. add_events (Some agg0) evs = Some (Some agg) \<and> httpAggSendReport g (Some agg) True = Some ms \<and>
           filter (\<lambda>m. e_name m = ''http.req'') ms =
             concat (map (\<lambda>u. map (\<lambda>c. status_metric g u c (of_nat (count_list (codes u evs) c)))
                                (fst (firsts [] (codes u evs))))
                       (fst (firsts [] (map ev_uri evs))))"
proof -
  have a0: "agg_ok agg0" "agg_entries agg0 = []"
    using assms(1) by (auto simp: httpAggCreate_def agg_ok_def agg_entries_def DEFAULT_TARGET_LEN_def)
  from add_events_ok [OF a0(1) _ assms(3)] a0(2) assms(2) obtain agg where
    agg: "add_events (Some agg0) evs = Some (Some agg)" "agg_ok agg"
    "agg_entries agg = foldl (\<lambda>ts x. upsert (fst x) (snd x) ts) [] (map ev_update evs)"
    by auto
  let ?us = "fst (firsts [] (map ev_uri evs))"
  have pres: "\<forall>x\<in>set (map ev_update evs). \<forall>t. ta_uri (snd x t) = ta_uri t"
    by (simp add: ev_update_def)
  have e: "agg_entries agg = map (group (map ev_update evs)) ?us"
    using upsert_groups [OF pres] agg(3) by (simp add: ev_update_def comp_def)
  have f: "filled (unat (ha_count agg)) (ha_target agg)" using agg(2) by (simp add: agg_ok_def)
  then have "httpAggSendReport g (Some agg) True = Some (concat (map (report_target g) (agg_entries agg)))"
    using filled_take [OF f] report_loop_entries by (simp add: httpAggSendReport_def agg_entries_def filled_def)
  moreover have "filter (\<lambda>m. e_name m = ''http.req'') (report_target g (group (map ev_update evs) u)) =
      map (\<lambda>c. status_metric g u c (of_nat (count_list (codes u evs) c))) (fst (firsts [] (codes u evs)))" for u
  proof -
    have "0 \<notin> set (codes u evs)" using assms(4) by force
    then show ?thesis
      using foldl_add_status [of "codes u evs"] assms(4) group_uri [OF pres]
      by (simp add: report_target_reqs group_status report_status_slots)
  qed
  ultimately show ?thesis
    using agg(1) by (simp add: e filter_concat comp_def)
qed

definition http_dur :: "string \<Rightarrow> int \<Rightarrow> http_event" where
  "http_dur target code =
     (INT_EVENT ''http_server_duration'' 5 DELTA_MS
        (Some [STRFIELD ''http_target'' (Some target) 4 True, NUMFIELD ''http_status_code'' code 1 True]), 10, - 1)"

definition proc1 :: proc_id_t where
  "proc1 = \<lparr>p_procname = ''p'', p_pid = 1, p_hostname = ''h''\<rparr>"

definition dur_evs :: "http_event list" where
  "dur_evs = [http_dur ''/a?q=1'' 200, http_dur ''/b'' 404, http_dur ''/a'' 200]"

lemma http_dur_values:
  "has_target (http_dur t c)" "ev_uri (http_dur t c) = strip_query t"
  "num_value (Some (fst (http_dur t c))) ''http_status_code'' = c"
  by (simp_all add: has_target_def ev_uri_def http_dur_def INT_EVENT_def str_value_def num_value_def STRFIELD_def
      NUMFIELD_def)

theorem agg_report_counts_witness:
  "\<exists>agg0 agg ms. httpAggCreate True True = Some agg0 \<and> add_events (Some agg0) dur_evs = Some (Some agg) \<and>
     httpAggSendReport proc1 (Some agg) True = Some ms \<and>
     filter (\<lambda>m. e_name m = ''http.req'') ms = [status_metric proc1 ''/a'' 200 2, status_metric proc1 ''/b'' 404 1]"
proof -
  obtain agg0 where c: "httpAggCreate True True = Some agg0"
    by (simp add: httpAggCreate_def)
  have u: "codes u dur_evs = (if u = ''/a'' then [200, 200] else if u = ''/b'' then [404] else [])" for u
    by (auto simp: codes_def dur_evs_def http_dur_values strip_query_def)
  have h: "\<forall>u. (\<forall>c\<in>set (codes u dur_evs). 1 \<le> c \<and> c \<le> 1000) \<and> card (set (codes u dur_evs)) \<le> MAX_CODE_ENTRIES"
  proof
    fix v
    show "(\<forall>c\<in>set (codes v dur_evs). 1 \<le> c \<and> c \<le> 1000) \<and> card (set (codes v dur_evs)) \<le> MAX_CODE_ENTRIES"
      by (cases "v = ''/a''"; cases "v = ''/b''") (simp_all add: u MAX_CODE_ENTRIES_def)
  qed
  have t: "\<forall>e\<in>set dur_evs. has_target e" "length dur_evs \<le> 2 ^ 60"
    by (simp_all add: dur_evs_def http_dur_values)
  have us: "map ev_uri dur_evs = [''/a'', ''/b'', ''/a'']"
    by (simp add: dur_evs_def http_dur_values strip_query_def)
  from agg_report_counts [OF c t(2,1) h, of proc1] c show ?thesis
    by (simp add: us u del: add_events.simps)
qed

text \<open>
  A status code 0 is counted for another code: it is added to the first empty slot without
  taking it, and the next new code takes the slot with that count, so one event with code 0 and one
  with code 200 are reported as two with code 200.
\<close>

theorem add_status_zero_miscount:
  "report_status g u (foldl add_status (replicate MAX_CODE_ENTRIES (0, 0)) [0, 200]) = [status_metric g u 200 2]"
  by (simp add: add_status_def MAX_CODE_ENTRIES_def numeral_eq_Suc)

end
