(* ===== verification/Mtcformat.thy ===== *)
theory Mtcformat
  imports Event Strset
begin

text \<open>
  The metric formatter of \<^verbatim>\<open>src/mtcformat.c\<close>: the statsd line of an event, the accessors and
  setters of the formatter, and the percent-encoding of strings.

  The line under construction is the text from the start of the buffer to \<open>end\<close>; a newline and
  a zero byte always follow it. \<open>put_text\<close> appends to it and is undefined when text, newline and
  zero no longer fit the allocated buffer. A field filter is \<open>None\<close> or the set of names its regular
  expression matches. The Prometheus formatter is not compiled (\<open>APPVIEW_PROM_SUPPORT\<close> is 0); the
  JSON text of the NDJSON format is an argument.
\<close>

datatype cfg_mtc_format_t = CFG_FMT_STATSD | CFG_FMT_NDJSON | CFG_FORMAT_MAX

record custom_tag_t =
  ct_name :: string
  ct_value :: string

record mtc_fmt_t =
  mf_format :: cfg_mtc_format_t
  mf_prefix :: "string option"
  mf_max_len :: u32
  mf_verbosity :: u32
  mf_tags :: "custom_tag_t list option"

definition DEFAULT_STATSD_PREFIX :: string where
  "DEFAULT_STATSD_PREFIX = ''''"

definition DEFAULT_STATSD_MAX_LEN :: u32 where
  "DEFAULT_STATSD_MAX_LEN = 512"

definition DEFAULT_MTC_VERBOSITY :: u32 where
  "DEFAULT_MTC_VERBOSITY = 4"

definition CFG_MAX_VERBOSITY :: u32 where
  "CFG_MAX_VERBOSITY = 9"

definition DEFAULT_SET_SIZE :: u32 where
  "DEFAULT_SET_SIZE = 64"

definition mtcFormatCreate :: "cfg_mtc_format_t \<Rightarrow> bool \<Rightarrow> bool \<Rightarrow> mtc_fmt_t option" where
  "mtcFormatCreate format calloc_ok strdup_ok =
     (if format = CFG_FORMAT_MAX then None
      else if \<not> calloc_ok then None
      else Some \<lparr>mf_format = format, mf_prefix = (if strdup_ok then Some DEFAULT_STATSD_PREFIX else None),
                 mf_max_len = DEFAULT_STATSD_MAX_LEN, mf_verbosity = DEFAULT_MTC_VERBOSITY, mf_tags = None\<rparr>)"

definition mtcFormatDestroy :: "mtc_fmt_t option \<Rightarrow> mtc_fmt_t option" where
  "mtcFormatDestroy fmt = None"

fun statsdType :: "data_type_t \<Rightarrow> string" where
  "statsdType DELTA = ''c''"
| "statsdType CURRENT = ''g''"
| "statsdType DELTA_MS = ''ms''"
| "statsdType HISTOGRAM = ''h''"
| "statsdType SET = ''s''"

section \<open>The statsd line\<close>

text \<open>\<open>snprintf\<close> into a buffer of \<open>n\<close> bytes: what the buffer holds, and the length of the whole text.\<close>

definition c_snprintf :: "nat \<Rightarrow> string \<Rightarrow> string \<times> nat" where
  "c_snprintf n s = (take (n - 1) s, length s)"

definition createStatsFieldString :: "event_field_t \<Rightarrow> nat \<Rightarrow> (string \<times> nat) option" where
  "createStatsFieldString f sizeoftag =
     (if sizeoftag = 0 then None
      else (case f_value f of
              FMT_NUM n \<Rightarrow> Some (c_snprintf sizeoftag (f_name f @ '':'' @ show_int n))
            | FMT_STR None \<Rightarrow> None
            | FMT_STR (Some s) \<Rightarrow> Some (c_snprintf sizeoftag (f_name f @ '':'' @ s))))"

definition put_text :: "nat \<Rightarrow> string \<Rightarrow> string \<Rightarrow> string option" where
  "put_text bufsize text s = (if length text + length s + 2 \<le> bufsize then Some (text @ s) else None)"

text \<open>The state of the construction: the text, the number of bytes counted, the names added.\<close>

record statsd_st =
  st_text :: string
  st_bytes :: nat
  st_added :: strset_t

definition buf_size :: "mtc_fmt_t \<Rightarrow> nat" where
  "buf_size fmt = unat (mf_max_len fmt + 1)"

definition appendStatsdFieldString :: "mtc_fmt_t \<Rightarrow> string \<Rightarrow> nat \<Rightarrow> statsd_st \<Rightarrow> statsd_st option" where
  "appendStatsdFieldString fmt tag sz st =
     (let (sep, sz) = (if strSetEntryCount (Some (st_added st)) = 1 then (''|#'', sz + 2) else ('','', sz + 1))
      in if st_bytes st + sz \<ge> unat (mf_max_len fmt) then Some st
         else do {
           text \<leftarrow> put_text (buf_size fmt) (st_text st) (sep @ tag);
           Some (st\<lparr>st_text := text, st_bytes := st_bytes st + sz\<rparr>)
         })"

text \<open>\<open>strSetAdd\<close> on the set of the state; \<open>grow\<close> says whether a reallocation succeeds.\<close>

definition st_add :: "bool \<Rightarrow> statsd_st \<Rightarrow> string \<Rightarrow> (statsd_st \<times> bool) option" where
  "st_add grow st name =
     do {
       (s, new) \<leftarrow> strSetAdd (Some (st_added st)) (Some name) grow;
       s \<leftarrow> s;
       Some (st\<lparr>st_added := s\<rparr>, new)
     }"

fun addStatsdFields_loop ::
  "mtc_fmt_t \<Rightarrow> bool \<Rightarrow> (string \<Rightarrow> bool) option \<Rightarrow> event_field_t list \<Rightarrow> statsd_st \<Rightarrow> statsd_st option" where
  "addStatsdFields_loop fmt grow fieldFilter [] st = Some st"
| "addStatsdFields_loop fmt grow fieldFilter (f # fs) st =
     (if (case fieldFilter of None \<Rightarrow> False | Some m \<Rightarrow> \<not> m (f_name f))
      then addStatsdFields_loop fmt grow fieldFilter fs st
      else if f_cardinality f > mf_verbosity fmt then addStatsdFields_loop fmt grow fieldFilter fs st
      else do {
        (st, new) \<leftarrow> st_add grow st (f_name f);
        if \<not> new then addStatsdFields_loop fmt grow fieldFilter fs st
        else (case createStatsFieldString f (buf_size fmt) of
                None \<Rightarrow> addStatsdFields_loop fmt grow fieldFilter fs st
              | Some (tag, sz) \<Rightarrow>
                  do { st \<leftarrow> appendStatsdFieldString fmt tag sz st;
                       addStatsdFields_loop fmt grow fieldFilter fs st })
      })"

text \<open>The local array \<open>tag\<close> has \<open>max_len + 1\<close> bytes; its last byte is written before the loop.\<close>

definition addStatsdFields ::
  "mtc_fmt_t \<Rightarrow> bool \<Rightarrow> event_field_t list option \<Rightarrow> (string \<Rightarrow> bool) option \<Rightarrow> statsd_st \<Rightarrow> statsd_st option" where
  "addStatsdFields fmt grow flds fieldFilter st =
     (case flds of
        None \<Rightarrow> Some st
      | Some fs \<Rightarrow>
          if unat (mf_max_len fmt) < buf_size fmt then addStatsdFields_loop fmt grow fieldFilter fs st else None)"

fun addStatsdCustomFields_loop :: "mtc_fmt_t \<Rightarrow> bool \<Rightarrow> custom_tag_t list \<Rightarrow> statsd_st \<Rightarrow> statsd_st option" where
  "addStatsdCustomFields_loop fmt grow [] st = Some st"
| "addStatsdCustomFields_loop fmt grow (t # ts) st =
     do {
       (st, new) \<leftarrow> st_add grow st (ct_name t);
       if \<not> new then addStatsdCustomFields_loop fmt grow ts st
       else
         let (tag, sz) = c_snprintf (buf_size fmt) (ct_name t @ '':'' @ ct_value t)
         in do { st \<leftarrow> appendStatsdFieldString fmt tag sz st;
                 addStatsdCustomFields_loop fmt grow ts st }
     }"

definition addStatsdCustomFields ::
  "mtc_fmt_t \<Rightarrow> bool \<Rightarrow> custom_tag_t list option \<Rightarrow> statsd_st \<Rightarrow> statsd_st option" where
  "addStatsdCustomFields fmt grow tags st =
     (case tags of
        None \<Rightarrow> Some st
      | Some [] \<Rightarrow> Some st
      | Some ts \<Rightarrow>
          if unat (mf_max_len fmt) < buf_size fmt then addStatsdCustomFields_loop fmt grow ts st else None)"

text \<open>The value between colon and bar; the local array for it has 320 bytes.\<close>

definition value_text :: "event_value \<Rightarrow> string option" where
  "value_text v =
     (let s = '':'' @ (case v of FMT_INT i \<Rightarrow> show_int i | FMT_FLT f \<Rightarrow> f) @ ''|''
      in if length s < 320 then Some s else None)"

text \<open>
  \<open>mtcFormatStatsDString\<close>: the outer option is undefined behaviour, the inner one NULL. The
  allocations are the buffer, the set's header and the set's array.
\<close>

definition mtcFormatStatsDString ::
  "mtc_fmt_t option \<Rightarrow> event_t option \<Rightarrow> (string \<Rightarrow> bool) option \<Rightarrow> bool \<Rightarrow> bool \<Rightarrow> bool \<Rightarrow> bool \<Rightarrow> string option option" where
  "mtcFormatStatsDString fmt e fieldFilter calloc_ok set_ok str_ok grow =
     (case (fmt, e) of
        (Some fmt, Some e) \<Rightarrow>
          if \<not> calloc_ok then Some None
          else do {
            prefix \<leftarrow> mf_prefix fmt;
            valuebuf \<leftarrow> value_text (e_value e);
            let type = statsdType (e_type e);
            let bytes = length prefix + length (e_name e) + length valuebuf + length type;
            if bytes \<ge> unat (mf_max_len fmt) then Some None
            else do {
              text \<leftarrow> put_text (buf_size fmt) [] (prefix @ e_name e @ valuebuf @ type);
              case strSetCreate set_ok str_ok DEFAULT_SET_SIZE of
                None \<Rightarrow> Some (Some (text @ ''\<newline>''))
              | Some addedFields \<Rightarrow>
                  do {
                    st \<leftarrow> addStatsdFields fmt grow (e_capturedFields e) None
                           \<lparr>st_text = text, st_bytes = bytes, st_added = addedFields\<rparr>;
                    st \<leftarrow> addStatsdCustomFields fmt grow (mf_tags fmt) st;
                    st \<leftarrow> addStatsdFields fmt grow (e_fields e) fieldFilter st;
                    Some (Some (st_text st @ ''\<newline>''))
                  }
            }
          }
      | _ \<Rightarrow> Some None)"

text \<open>
  \<open>mtcFormatEventForOutput\<close>: \<open>json\<close> is the printed NDJSON envelope, \<open>None\<close> when one of its
  allocations fails; it is extended by a newline.
\<close>

definition mtcFormatEventForOutput ::
  "mtc_fmt_t option \<Rightarrow> event_t option \<Rightarrow> (string \<Rightarrow> bool) option \<Rightarrow> string option \<Rightarrow> bool \<Rightarrow> bool \<Rightarrow> bool \<Rightarrow> bool \<Rightarrow> bool \<Rightarrow>
   string option option" where
  "mtcFormatEventForOutput fmt evt fieldFilter json realloc_ok calloc_ok set_ok str_ok grow =
     (case (fmt, evt) of
        (Some f, Some e) \<Rightarrow>
          (case mf_format f of
             CFG_FMT_STATSD \<Rightarrow> mtcFormatStatsDString fmt evt fieldFilter calloc_ok set_ok str_ok grow
           | CFG_FMT_NDJSON \<Rightarrow>
               Some (case json of None \<Rightarrow> None | Some msg \<Rightarrow> if realloc_ok then Some (msg @ ''\<newline>'') else None)
           | CFG_FORMAT_MAX \<Rightarrow> Some None)
      | _ \<Rightarrow> Some None)"

section \<open>Accessors and setters\<close>

definition mtcFormatStatsDPrefix :: "mtc_fmt_t option \<Rightarrow> string" where
  "mtcFormatStatsDPrefix fmt =
     (case fmt of
        None \<Rightarrow> DEFAULT_STATSD_PREFIX
      | Some f \<Rightarrow> (case mf_prefix f of None \<Rightarrow> DEFAULT_STATSD_PREFIX | Some p \<Rightarrow> p))"

definition mtcFormatStatsDMaxLen :: "mtc_fmt_t option \<Rightarrow> u32" where
  "mtcFormatStatsDMaxLen fmt = (case fmt of None \<Rightarrow> DEFAULT_STATSD_MAX_LEN | Some f \<Rightarrow> mf_max_len f)"

definition mtcFormatVerbosity :: "mtc_fmt_t option \<Rightarrow> u32" where
  "mtcFormatVerbosity fmt = (case fmt of None \<Rightarrow> DEFAULT_MTC_VERBOSITY | Some f \<Rightarrow> mf_verbosity f)"

definition mtcFormatCustomTags :: "mtc_fmt_t option \<Rightarrow> custom_tag_t list option" where
  "mtcFormatCustomTags fmt = (case fmt of None \<Rightarrow> None | Some f \<Rightarrow> mf_tags f)"

definition mtcFormatStatsDPrefixSet :: "mtc_fmt_t option \<Rightarrow> string option \<Rightarrow> bool \<Rightarrow> mtc_fmt_t option" where
  "mtcFormatStatsDPrefixSet fmt prefix strdup_ok =
     map_option (\<lambda>f. f\<lparr>mf_prefix := (if strdup_ok then prefix else None)\<rparr>) fmt"

definition mtcFormatStatsDMaxLenSet :: "mtc_fmt_t option \<Rightarrow> u32 \<Rightarrow> mtc_fmt_t option" where
  "mtcFormatStatsDMaxLenSet fmt v = map_option (\<lambda>f. f\<lparr>mf_max_len := v\<rparr>) fmt"

definition mtcFormatVerbositySet :: "mtc_fmt_t option \<Rightarrow> u32 \<Rightarrow> mtc_fmt_t option" where
  "mtcFormatVerbositySet fmt v =
     map_option (\<lambda>f. f\<lparr>mf_verbosity := (if v > CFG_MAX_VERBOSITY then CFG_MAX_VERBOSITY else v)\<rparr>) fmt"

text \<open>\<open>oks\<close> says for each tag whether its three allocations succeed; a tag whose do not is left out.\<close>

definition mtcFormatCustomTagsSet ::
  "mtc_fmt_t option \<Rightarrow> custom_tag_t list option \<Rightarrow> bool \<Rightarrow> (nat \<Rightarrow> bool) \<Rightarrow> mtc_fmt_t option" where
  "mtcFormatCustomTagsSet fmt tags calloc_ok oks =
     map_option (\<lambda>f.
       let f = f\<lparr>mf_tags := None\<rparr>
       in (case tags of
             None \<Rightarrow> f
           | Some [] \<Rightarrow> f
           | Some ts \<Rightarrow>
               if \<not> calloc_ok then f
               else f\<lparr>mf_tags := Some (map fst (filter (\<lambda>(t, i). oks i) (zip ts [0..<length ts])))\<rparr>)) fmt"

section \<open>Percent-encoding\<close>

definition in_range :: "char \<Rightarrow> nat \<Rightarrow> nat \<Rightarrow> bool" where
  "in_range x a b \<longleftrightarrow> a \<le> of_char x \<and> of_char x \<le> b"

definition isHex :: "char \<Rightarrow> bool" where
  "isHex x \<longleftrightarrow> in_range x 48 57 \<or> in_range x 65 70 \<or> in_range x 97 102"

definition fromHex :: "char \<Rightarrow> nat" where
  "fromHex x =
     (if in_range x 48 57 then of_char x - 48
      else if in_range x 65 70 then of_char x - 65 + 10
      else if in_range x 97 102 then of_char x - 97 + 10
      else 0)"

definition toHex :: "nat \<Rightarrow> char" where
  "toHex code = ''0123456789ABCDEF'' ! (code mod 16)"

definition isUnreserved :: "char \<Rightarrow> bool" where
  "isUnreserved x \<longleftrightarrow>
     in_range x 97 122 \<or> in_range x 65 90 \<or> in_range x 48 57 \<or>
     x = CHR ''-'' \<or> x = CHR ''.'' \<or> x = CHR ''_'' \<or> x = CHR ''~''"

fun encode_loop :: "string \<Rightarrow> string" where
  "encode_loop [] = []"
| "encode_loop (c # s) =
     (if isUnreserved c then c # encode_loop s
      else CHR ''%'' # toHex (of_char c div 16) # toHex (of_char c) # encode_loop s)"

text \<open>The output buffer has three bytes for every input byte and one for the zero.\<close>

definition fmtUrlEncode :: "string option \<Rightarrow> bool \<Rightarrow> string option option" where
  "fmtUrlEncode in_str malloc_ok =
     (case in_str of
        None \<Rightarrow> Some None
      | Some s \<Rightarrow>
          if \<not> malloc_ok then Some None
          else if length (encode_loop s) + 1 \<le> length s * 3 + 1 then Some (Some (encode_loop s)) else None)"

fun decode_loop :: "string \<Rightarrow> string" where
  "decode_loop [] = []"
| "decode_loop (c # s) =
     (if c = CHR ''%''
      then (case s of
              a # b # r \<Rightarrow> if isHex a \<and> isHex b then char_of (fromHex a * 16 + fromHex b) # decode_loop r else []
            | _ \<Rightarrow> [])
      else c # decode_loop s)"

text \<open>The result as a C string: it ends at the first zero byte, which \<^verbatim>\<open>%00\<close> produces.\<close>

definition fmtUrlDecode :: "string option \<Rightarrow> bool \<Rightarrow> string option option" where
  "fmtUrlDecode in_str malloc_ok =
     (case in_str of
        None \<Rightarrow> Some None
      | Some s \<Rightarrow>
          if \<not> malloc_ok then Some None
          else if length (decode_loop s) + 1 \<le> length s + 1
          then Some (Some (takeWhile (\<lambda>c. c \<noteq> CHR 0x00) (decode_loop s))) else None)"

section \<open>Percent-encoding: lemmas\<close>

lemma nibble: "n < 16 \<Longrightarrow> isHex (toHex n) \<and> fromHex (toHex n) = n"
proof -
  have "\<forall>n\<in>set [0..<16]. isHex (toHex n) \<and> fromHex (toHex n) = n"
    by code_simp
  then show "n < 16 \<Longrightarrow> isHex (toHex n) \<and> fromHex (toHex n) = n" by simp
qed

lemma toHex_mod: "toHex (n mod 16) = toHex n"
  by (simp add: toHex_def)

lemma isHex_toHex: "isHex (toHex n)" "fromHex (toHex n) = n mod 16"
  using nibble [of "n mod 16"] by (simp_all add: toHex_mod)

lemma decode_encode: "decode_loop (encode_loop s) = s"
proof (induction s)
  case (Cons c s)
  have "(of_char c :: nat) div 16 < 16"
    by (simp add: less_mult_imp_div_less)
  then have n: "(of_char c :: nat) div 16 mod 16 * 16 + of_char c mod 16 = of_char c"
    using div_mult_mod_eq [of "of_char c :: nat" 16] by simp
  show ?case
    using Cons by (auto simp: isHex_toHex n isUnreserved_def in_range_def)
qed simp

lemma length_encode: "length (encode_loop s) \<le> 3 * length s"
  by (induction s) auto

lemma length_decode: "length (decode_loop s) \<le> length s"
  by (induction s rule: decode_loop.induct) (auto split: list.splits intro!: le_SucI)

section \<open>The statsd line: lemmas\<close>
























definition commas :: "string list \<Rightarrow> string" where
  "commas bs = concat (map (\<lambda>b. CHR '','' # b) bs)"

lemma commas_simps [simp]: "commas [] = []" "commas (b # bs) = CHR '','' # b @ commas bs"
  by (simp_all add: commas_def)





section \<open>Properties\<close>



definition fmt0 :: mtc_fmt_t where
  "fmt0 = \<lparr>mf_format = CFG_FMT_STATSD, mf_prefix = Some ''app.'', mf_max_len = 512, mf_verbosity = 4, mf_tags = None\<rparr>"

definition evt0 :: event_t where
  "evt0 = INT_EVENT ''req'' 5 DELTA
     (Some [STRFIELD ''x'' (Some ''1'') 4 True, STRFIELD ''y'' (Some ''2'') 4 True, STRFIELD ''x'' (Some ''3'') 4 True,
            STRFIELD ''z'' (Some ''4'') 9 True])"

lemma show_5: "show_int 5 = ''5''"
  by code_simp




text \<open>
  A first field that is not written costs the tag separator: its name counts as added, so the
  next tag follows after a comma and the line has no \<^verbatim>\<open>|#\<close>. Here the first field has a NULL
  string.
\<close>

theorem statsd_lost_separator:
  "mtcFormatStatsDString (Some fmt0)
     (Some (INT_EVENT ''req'' 5 DELTA (Some [STRFIELD ''x'' None 4 True, STRFIELD ''y'' (Some ''2'') 4 True])))
     None True True True True = Some (Some (''app.req:5|c,y:2'' @ ''\<newline>''))"
  by code_simp

text \<open>
  A limit of \<open>UINT_MAX\<close>, which the setter accepts, makes \<open>max_len + 1\<close> wrap to a buffer of no
  bytes: formatting any event whose head is shorter than the limit writes outside it.
\<close>

theorem statsd_max_len_overflow:
  assumes "mtcFormatStatsDMaxLenSet (Some f) (- 1) = Some fmt" "mf_prefix f = Some p"
    and "value_text (e_value e) = Some v" "length p + length (e_name e) + length v + 2 < 2 ^ 32 - 1"
  shows "mtcFormatStatsDString (Some fmt) (Some e) flt True True True True = None"
proof -
  have fmt: "mf_max_len fmt = - 1" "mf_prefix fmt = Some p"
    using assms(1,2) by (auto simp: mtcFormatStatsDMaxLenSet_def)
  have max: "unat (- 1 :: u32) = 2 ^ 32 - 1"
    by (simp add: unsigned_minus_1_eq_mask mask_eq_exp_minus_1)
  have "length (statsdType (e_type e)) \<le> 2" by (cases "e_type e") simp_all
  then have "\<not> length p + length (e_name e) + length v + length (statsdType (e_type e)) \<ge> unat (- 1 :: u32)"
    using assms(4) unfolding max by linarith
  moreover have "put_text (buf_size fmt) [] s = None" for s
    by (simp add: put_text_def buf_size_def fmt)
  ultimately show ?thesis
    using fmt assms(3) by (simp add: mtcFormatStatsDString_def Let_def)
qed

theorem statsd_max_len_overflow_witness:
  "mtcFormatStatsDString (mtcFormatStatsDMaxLenSet (Some fmt0) (- 1)) (Some evt0) None True True True True = None"
proof -
  have s: "mtcFormatStatsDMaxLenSet (Some fmt0) (- 1) = Some (fmt0\<lparr>mf_max_len := - 1\<rparr>)"
    by (simp add: mtcFormatStatsDMaxLenSet_def)
  have "value_text (e_value evt0) = Some '':5|''" "mf_prefix fmt0 = Some ''app.''" "e_name evt0 = ''req''"
    by (simp_all add: evt0_def INT_EVENT_def value_text_def show_5 fmt0_def)
  with statsd_max_len_overflow [OF s, of "''app.''" evt0 "'':5|''" None] s show ?thesis by simp
qed

text \<open>
  C18. Percent-encoding round trip: for every C string, \<open>fmtUrlDecode\<close> undoes \<open>fmtUrlEncode\<close>, and
  both stay within the buffers they allocate.
\<close>

theorem url_roundtrip:
  assumes "CHR 0x00 \<notin> set s"
  shows "\<exists>t. fmtUrlEncode (Some s) True = Some (Some t) \<and> fmtUrlDecode (Some t) True = Some (Some s)"
proof -
  have "takeWhile (\<lambda>c. c \<noteq> CHR 0x00) s = s"
    using assms by auto
  then show ?thesis
    using length_encode [of s] length_decode [of "encode_loop s"]
    by (simp add: fmtUrlEncode_def fmtUrlDecode_def decode_encode mult.commute)
qed

theorem url_roundtrip_witness:
  "fmtUrlEncode (Some ''a b'') True = Some (Some ''a%20b'') \<and>
   (\<exists>t. fmtUrlEncode (Some ''a b'') True = Some (Some t) \<and> fmtUrlDecode (Some t) True = Some (Some ''a b''))"
proof -
  have "CHR 0x00 \<notin> set ''a b''" by simp
  from url_roundtrip [OF this] show ?thesis
    by (simp add: fmtUrlEncode_def isUnreserved_def in_range_def toHex_def)
qed

end
