(* ===== verification/Alloc.thy ===== *)
theory Alloc
  imports Prelude "HOL-Library.Multiset"
begin

text \<open>
  Accounting of the heap blocks an operation allocates and frees. An allocation succeeds or not, as
  its argument says, and returns a new block; freeing a block that is not live (a double free)
  is undefined. Leaks are live blocks that nothing refers to any more.

  The second part holds heap strings: a block with the C string it contains.
\<close>

type_synonym block = nat

record amem =
  am_live :: "block list"
  am_next :: block

definition am_alloc :: "bool \<Rightarrow> amem \<Rightarrow> block option \<times> amem" where
  "am_alloc ok m =
     (if ok then (Some (am_next m), m\<lparr>am_live := am_next m # am_live m, am_next := Suc (am_next m)\<rparr>)
      else (None, m))"

definition am_free :: "block \<Rightarrow> amem \<Rightarrow> amem option" where
  "am_free b m = (if b \<in> set (am_live m) then Some (m\<lparr>am_live := remove1 b (am_live m)\<rparr>) else None)"

text \<open>\<open>if (p) free(p)\<close>\<close>

definition am_free_opt :: "block option \<Rightarrow> amem \<Rightarrow> amem option" where
  "am_free_opt p m = (case p of None \<Rightarrow> Some m | Some b \<Rightarrow> am_free b m)"

text \<open>
  \<open>realloc\<close>, which moves the block when it succeeds. The allocator refuses requests above
  \<open>PTRDIFF_MAX\<close>.
\<close>

definition am_realloc :: "block option \<Rightarrow> u64 \<Rightarrow> bool \<Rightarrow> amem \<Rightarrow> (block option \<times> amem) option" where
  "am_realloc p sz ok m =
     (if \<not> ok \<or> sz \<ge> 0x8000000000000000 then Some (None, m)
      else do { m \<leftarrow> am_free_opt p m; Some (am_alloc True m) })"

definition am_ok :: "amem \<Rightarrow> bool" where
  "am_ok m \<longleftrightarrow> distinct (am_live m) \<and> (\<forall>b\<in>set (am_live m). b < am_next m)"

definition am_empty :: amem where
  "am_empty = \<lparr>am_live = [], am_next = 1\<rparr>"

lemma am_ok_next: "am_ok m \<Longrightarrow> am_next m \<notin> set (am_live m)"
  by (auto simp: am_ok_def)

section \<open>Ownership\<close>

text \<open>The heap is well formed and its live blocks are exactly those of the multiset.\<close>

definition owns :: "amem \<Rightarrow> block multiset \<Rightarrow> bool" where
  "owns m B \<longleftrightarrow> am_ok m \<and> mset (am_live m) = B"

lemma owns_empty [simp]: "owns am_empty {#}"
  by (simp add: owns_def am_empty_def am_ok_def)

definition blk :: "block option \<Rightarrow> block multiset" where
  "blk p = (case p of None \<Rightarrow> {#} | Some b \<Rightarrow> {#b#})"

lemma blk_simps [simp]: "blk None = {#}" "blk (Some b) = {#b#}"
  by (simp_all add: blk_def)

lemma owns_ok: "owns m B \<Longrightarrow> am_ok m"
  by (simp add: owns_def)

lemma owns_live: "owns m B \<Longrightarrow> mset (am_live m) = B"
  by (simp add: owns_def)

lemma owns_alloc: "owns m B \<Longrightarrow> am_alloc ok m = (p, m') \<Longrightarrow> owns m' (blk p + B)"
  by (auto simp: owns_def am_alloc_def am_ok_def less_Suc_eq split: if_splits)

lemma owns_free:
  assumes "owns m (add_mset b B)"
  obtains m' where "am_free b m = Some m'" "owns m' B"
proof
  have "b \<in> set (am_live m)"
    using assms by (metis owns_live set_mset_mset union_single_eq_member)
  then show "am_free b m = Some (m\<lparr>am_live := remove1 b (am_live m)\<rparr>)"
    by (simp add: am_free_def)
  show "owns (m\<lparr>am_live := remove1 b (am_live m)\<rparr>) B"
    using assms by (auto simp: owns_def am_ok_def dest: in_set_remove1 [THEN iffD1, rotated] notin_set_remove1)
qed

lemma owns_free_opt:
  assumes "owns m (blk p + B)"
  obtains m' where "am_free_opt p m = Some m'" "owns m' B"
  using assms by (cases p) (auto simp: am_free_opt_def elim: owns_free)

lemma owns_realloc:
  assumes "owns m (blk p + B)"
  obtains m' where "am_realloc p sz ok m = Some (None, m')" "owns m' (blk p + B)" "m' = m"
      "\<not> ok \<or> sz \<ge> 0x8000000000000000"
    | b m' where "am_realloc p sz ok m = Some (Some b, m')" "owns m' (add_mset b B)"
      "ok" "sz < 0x8000000000000000"
proof (cases "\<not> ok \<or> sz \<ge> 0x8000000000000000")
  case True
  with assms that(1) show ?thesis by (simp add: am_realloc_def)
next
  case False
  obtain m1 where m1: "am_free_opt p m = Some m1" "owns m1 B"
    using owns_free_opt [OF assms] .
  obtain b m' where b: "am_alloc True m1 = (Some b, m')" by (simp add: am_alloc_def)
  show ?thesis
    using that(2) [of b m'] False m1(1) owns_alloc [OF m1(2) b] b by (simp add: am_realloc_def not_le)
qed

section \<open>Heap strings\<close>

type_synonym hstr = "block \<times> string"

definition sblk :: "hstr option \<Rightarrow> block multiset" where
  "sblk s = blk (map_option fst s)"

lemma sblk_simps [simp]: "sblk None = {#}" "sblk (Some (b, t)) = {#b#}" "sblk (Some s) = {#fst s#}"
  by (simp_all add: sblk_def)

text \<open>The string of a pointer to a heap string.\<close>

definition str_of :: "hstr option \<Rightarrow> string option" where
  "str_of s = map_option snd s"

lemma str_of_simps [simp]: "str_of None = None" "str_of (Some (b, t)) = Some t"
  by (simp_all add: str_of_def)

definition c_strdup :: "string \<Rightarrow> bool \<Rightarrow> amem \<Rightarrow> hstr option \<times> amem" where
  "c_strdup s ok m = (let (p, m) = am_alloc ok m in (map_option (\<lambda>b. (b, s)) p, m))"

text \<open>\<open>(s) ? strdup(s) : NULL\<close>\<close>

definition c_strdup_opt :: "string option \<Rightarrow> bool \<Rightarrow> amem \<Rightarrow> hstr option \<times> amem" where
  "c_strdup_opt s ok m = (case s of None \<Rightarrow> (None, m) | Some s \<Rightarrow> c_strdup s ok m)"

text \<open>\<open>if (p) free(p); p = (s) ? strdup(s) : NULL\<close>\<close>

definition c_replace :: "hstr option \<Rightarrow> string option \<Rightarrow> bool \<Rightarrow> amem \<Rightarrow> (hstr option \<times> amem) option" where
  "c_replace p s ok m = do { m \<leftarrow> am_free_opt (map_option fst p) m; Some (c_strdup_opt s ok m) }"

lemma owns_strdup:
  assumes "owns m B" "c_strdup s ok m = (p, m')"
  shows "owns m' (sblk p + B)" "str_of p = (if ok then Some s else None)"
  using assms owns_alloc [OF assms(1), of ok]
  by (auto simp: c_strdup_def am_alloc_def Let_def sblk_def str_of_def split: if_splits)

lemma owns_strdup_opt:
  assumes "owns m B" "c_strdup_opt s ok m = (p, m')"
  shows "owns m' (sblk p + B)" "str_of p = (if ok then s else None)"
  using assms owns_strdup [OF assms(1), of "the s" ok]
  by (auto simp: c_strdup_opt_def split: option.splits)

lemma owns_replace:
  assumes "owns m (sblk p + B)"
  obtains q m' where "c_replace p s ok m = Some (q, m')" "owns m' (sblk q + B)"
    "str_of q = (if ok then s else None)"
proof -
  obtain m1 where m1: "am_free_opt (map_option fst p) m = Some m1" "owns m1 B"
    using owns_free_opt assms unfolding sblk_def .
  obtain q m' where q: "c_strdup_opt s ok m1 = (q, m')" by fastforce
  show thesis
    using that m1(1) owns_strdup_opt [OF m1(2) q] q by (simp add: c_replace_def)
qed

text \<open>Arrays of pointers.\<close>

definition sblks :: "hstr option list \<Rightarrow> block multiset" where
  "sblks ss = sum_list (map sblk ss)"

lemma sum_list_update:
  fixes f :: "'a \<Rightarrow> 'b multiset"
  assumes "i < length xs"
  shows "sum_list (map f (xs[i := x])) = f x + (sum_list (map f xs) - f (xs ! i))"
    "f (xs ! i) \<subseteq># sum_list (map f xs)"
proof -
  have "xs = take i xs @ xs ! i # drop (Suc i) xs"
    using assms by (rule id_take_nth_drop)
  then have *: "sum_list (map f xs) = f (xs ! i) + (sum_list (map f (take i xs)) + sum_list (map f (drop (Suc i) xs)))"
    by (metis (no_types, lifting) ac_simps(3) list.simps(9) map_append sum_list.Cons sum_list.append)
  from * show "f (xs ! i) \<subseteq># sum_list (map f xs)" by simp
  from * show "sum_list (map f (xs[i := x])) = f x + (sum_list (map f xs) - f (xs ! i))"
    using assms by (simp add: upd_conv_take_nth_drop ac_simps)
qed

lemma sum_list_take_out:
  fixes f :: "'a \<Rightarrow> 'b multiset"
  assumes "i < length xs"
  shows "sum_list (map f xs) = f (xs ! i) + (sum_list (map f xs) - f (xs ! i))"
  by (rule subset_mset.add_diff_inverse [OF sum_list_update(2) [OF assms], symmetric])

end
