(* ===== verification/Evtutils.thy ===== *)
theory Evtutils
  imports Event Alloc
begin

text \<open>
  The allocation and deallocation of events of \<^verbatim>\<open>src/evtutils.c\<close>, with their heap blocks
  accounted for. A \<open>protocol_info\<close> refers to its block and to its data: the block of an
  \<open>http_post\<close> with the block of its header, if it has one, or the block of a protocol name.
\<close>

datatype proto_data = NoData | Post block "block option" | ProtName block

record protocol_info =
  pi_block :: block
  pi_evtype :: metric_t
  pi_ptype :: metric_t
  pi_data :: proto_data

text \<open>The zero of \<open>metric_t\<close>, which \<open>calloc\<close> leaves in both type members, is \<open>OPEN_PORTS\<close>.\<close>

definition evtProtoAllocHttpBase :: "bool \<Rightarrow> bool \<Rightarrow> amem \<Rightarrow> (protocol_info option \<times> amem) option" where
  "evtProtoAllocHttpBase ok1 ok2 m =
     (let (proto, m) = am_alloc ok1 m; (post, m) = am_alloc ok2 m
      in (case (proto, post) of
            (Some b, Some p) \<Rightarrow>
              Some (Some \<lparr>pi_block = b, pi_evtype = EVT_PROTO, pi_ptype = OPEN_PORTS, pi_data = Post p None\<rparr>, m)
          | _ \<Rightarrow> do { m \<leftarrow> am_free_opt post m; m \<leftarrow> am_free_opt proto m; Some (None, m) }))"

definition evtProtoAllocHttp1 :: "bool \<Rightarrow> bool \<Rightarrow> bool \<Rightarrow> amem \<Rightarrow> (protocol_info option \<times> amem) option" where
  "evtProtoAllocHttp1 isResponse ok1 ok2 m =
     do {
       (proto, m) \<leftarrow> evtProtoAllocHttpBase ok1 ok2 m;
       Some (map_option (\<lambda>p. p\<lparr>pi_ptype := (if isResponse then EVT_HRES else EVT_HREQ)\<rparr>) proto, m)
     }"

definition evtProtoFree :: "protocol_info option \<Rightarrow> amem \<Rightarrow> (bool \<times> amem) option" where
  "evtProtoFree proto m =
     (case proto of
        None \<Rightarrow> Some (False, m)
      | Some p \<Rightarrow>
          do {
            m \<leftarrow> (if pi_ptype p = EVT_HREQ \<or> pi_ptype p = EVT_HRES \<or> pi_ptype p = EVT_H2FRAME
                  then (case pi_data p of
                          Post post hdr \<Rightarrow> do { m \<leftarrow> am_free_opt hdr m; am_free post m }
                        | _ \<Rightarrow> Some m)
                  else if pi_ptype p = EVT_DETECT
                  then (case pi_data p of ProtName b \<Rightarrow> am_free b m | _ \<Rightarrow> Some m)
                  else Some m);
            m \<leftarrow> am_free (pi_block p) m;
            Some (True, m)
          })"

definition evtProtoAllocHttp2Frame :: "bool \<Rightarrow> bool \<Rightarrow> bool \<Rightarrow> amem \<Rightarrow> (protocol_info option \<times> amem) option" where
  "evtProtoAllocHttp2Frame ok1 ok2 ok3 m =
     do {
       (proto, m) \<leftarrow> evtProtoAllocHttpBase ok1 ok2 m;
       let (frame, m) = am_alloc ok3 m;
       case (proto, frame) of
         (Some p, Some f) \<Rightarrow>
           Some (Some (p\<lparr>pi_ptype := EVT_H2FRAME,
                         pi_data := (case pi_data p of Post b hdr \<Rightarrow> Post b (Some f) | d \<Rightarrow> d)\<rparr>), m)
       | _ \<Rightarrow>
           do {
             m \<leftarrow> (case proto of None \<Rightarrow> Some m | Some p \<Rightarrow> map_option snd (evtProtoFree (Some p) m));
             m \<leftarrow> am_free_opt frame m;
             Some (None, m)
           }
     }"

definition evtProtoAllocDetect :: "bool \<Rightarrow> bool \<Rightarrow> bool \<Rightarrow> amem \<Rightarrow> (protocol_info option \<times> amem) option" where
  "evtProtoAllocDetect protocolName ok1 ok2 m =
     (if \<not> protocolName then Some (None, m)
      else
        let (proto, m) = am_alloc ok1 m; (protname, m) = am_alloc ok2 m
        in (case (proto, protname) of
              (Some b, Some n) \<Rightarrow>
                Some (Some \<lparr>pi_block = b, pi_evtype = EVT_PROTO, pi_ptype = EVT_DETECT, pi_data = ProtName n\<rparr>, m)
            | _ \<Rightarrow> do { m \<leftarrow> am_free_opt protname m; m \<leftarrow> am_free_opt proto m; Some (None, m) }))"

text \<open>An event: a protocol event, or any other type, which is one block without nested allocations.\<close>

datatype evt = ProtoEvt protocol_info | FlatEvt metric_t block

definition evtFree :: "evt option \<Rightarrow> amem \<Rightarrow> (bool \<times> amem) option" where
  "evtFree event m =
     (case event of
        None \<Rightarrow> Some (False, m)
      | Some (ProtoEvt p) \<Rightarrow>
          if pi_evtype p = EVT_PROTO then map_option (\<lambda>(r, m). (True, m)) (evtProtoFree (Some p) m)
          else map_option (\<lambda>m. (True, m)) (am_free (pi_block p) m)
      | Some (FlatEvt t b) \<Rightarrow> map_option (\<lambda>m. (True, m)) (am_free b m))"

section \<open>Properties\<close>

lemma am_ok_fresh:
  assumes "am_ok m"
  shows "am_next m \<notin> set (am_live m)" "Suc (am_next m) \<notin> set (am_live m)" "Suc (Suc (am_next m)) \<notin> set (am_live m)"
  using assms by (auto simp: am_ok_def)

lemmas evt_defs = evtProtoAllocHttpBase_def evtProtoAllocHttp1_def evtProtoAllocHttp2Frame_def
  evtProtoAllocDetect_def evtProtoFree_def evtFree_def am_alloc_def am_free_def am_free_opt_def

text \<open>
  C19. Every event that an allocator returns is released completely by \<open>evtFree\<close>: nothing is freed
  twice, and exactly the blocks that were live before the allocation are live again. This holds
  for HTTP/1 requests and responses, HTTP/2 frames and protocol detection events.
\<close>

theorem evt_alloc_free:
  assumes "am_ok m"
    and "evtProtoAllocHttp1 isResponse ok1 ok2 m = Some (Some p, m') \<or>
         evtProtoAllocHttp2Frame ok1 ok2 ok3 m = Some (Some p, m') \<or>
         evtProtoAllocDetect name ok1 ok2 m = Some (Some p, m')"
  shows "\<exists>m''. evtFree (Some (ProtoEvt p)) m' = Some (True, m'') \<and> am_live m'' = am_live m"
  using assms(2)
proof (elim disjE)
  assume "evtProtoAllocHttp1 isResponse ok1 ok2 m = Some (Some p, m')"
  then show ?thesis
    using am_ok_fresh [OF assms(1)] by (cases ok1; cases ok2; cases isResponse) (auto simp: evt_defs)
next
  assume "evtProtoAllocHttp2Frame ok1 ok2 ok3 m = Some (Some p, m')"
  then show ?thesis
    using am_ok_fresh [OF assms(1)] by (cases ok1; cases ok2; cases ok3) (auto simp: evt_defs)
next
  assume "evtProtoAllocDetect name ok1 ok2 m = Some (Some p, m')"
  then show ?thesis
    using am_ok_fresh [OF assms(1)] by (cases ok1; cases ok2; cases name) (auto simp: evt_defs)
qed

theorem evt_alloc_free_witness:
  "\<exists>p m' m''. evtProtoAllocHttp2Frame True True True am_empty = Some (Some p, m') \<and>
              evtFree (Some (ProtoEvt p)) m' = Some (True, m'') \<and> am_live m'' = []"
proof -
  have ok: "am_ok am_empty" by (simp add: am_ok_def am_empty_def)
  obtain p m' where p: "evtProtoAllocHttp2Frame True True True am_empty = Some (Some p, m')"
    by (simp add: evt_defs Let_def)
  with evt_alloc_free [OF ok, of True True True p m' True True] show ?thesis
    by (auto simp: am_empty_def)
qed

text \<open>
  A failed allocation leaves no blocks behind, with one exception: when the base of an HTTP/2
  frame event is allocated but not the frame, \<open>evtProtoFree\<close> is called before the type is
  set, so the \<open>http_post\<close> stays live and is leaked.
\<close>

theorem evt_alloc_failure:
  assumes "am_ok m"
  shows "(\<not> (ok1 \<and> ok2) \<longrightarrow>
            (\<exists>m'. evtProtoAllocHttp1 isResponse ok1 ok2 m = Some (None, m') \<and> am_live m' = am_live m) \<and>
            (\<exists>m'. evtProtoAllocDetect True ok1 ok2 m = Some (None, m') \<and> am_live m' = am_live m) \<and>
            (\<exists>m'. evtProtoAllocHttp2Frame ok1 ok2 ok3 m = Some (None, m') \<and> am_live m' = am_live m)) \<and>
         (\<exists>m' post. evtProtoAllocHttp2Frame True True False m = Some (None, m') \<and>
            post \<notin> set (am_live m) \<and> am_live m' = post # am_live m)"
proof
  show "\<not> (ok1 \<and> ok2) \<longrightarrow>
          (\<exists>m'. evtProtoAllocHttp1 isResponse ok1 ok2 m = Some (None, m') \<and> am_live m' = am_live m) \<and>
          (\<exists>m'. evtProtoAllocDetect True ok1 ok2 m = Some (None, m') \<and> am_live m' = am_live m) \<and>
          (\<exists>m'. evtProtoAllocHttp2Frame ok1 ok2 ok3 m = Some (None, m') \<and> am_live m' = am_live m)"
    using am_ok_fresh [OF assms] by (cases ok1; cases ok2; cases ok3) (simp_all add: evt_defs)
  show "\<exists>m' post. evtProtoAllocHttp2Frame True True False m = Some (None, m') \<and>
          post \<notin> set (am_live m) \<and> am_live m' = post # am_live m"
    using am_ok_fresh [OF assms] by (simp add: evt_defs)
qed

theorem evt_alloc_failure_witness:
  "(\<exists>m'. evtProtoAllocHttp1 True True False am_empty = Some (None, m') \<and> am_live m' = []) \<and>
   (\<exists>m' post. evtProtoAllocHttp2Frame True True False am_empty = Some (None, m') \<and> am_live m' = [post])"
proof -
  have "am_ok am_empty" by (simp add: am_ok_def am_empty_def)
  from evt_alloc_failure [OF this, of True False True True] show ?thesis
    by (auto simp: am_empty_def)
qed

end
