(* ===== verification/Cfg_Types.thy ===== *)
theory Cfg_Types
  imports Mtcformat Alloc
begin

text \<open>
  The data of the configuration component (\<^verbatim>\<open>src/cfg.c\<close>): the enumerations and the default
  values of \<^verbatim>\<open>src/appviewtypes.h\<close>, the structures of \<^verbatim>\<open>src/cfg.c\<close>, and the heap strings
  they own.

  An enumeration argument of a setter is the unsigned int that C passes, because the setters are
  called with values of no enumerator (\<open>strToVal\<close> answers \<open>-1\<close> for an unknown name) and
  test for them; the functions \<open>..._val\<close> give the enumerators their C values.
\<close>

section \<open>Enumerations\<close>

datatype cfg_transport_t = CFG_UDP | CFG_UNIX | CFG_FILE | CFG_TCP | CFG_EDGE
datatype which_transport_t = CFG_MTC | CFG_CTL | CFG_LOG | CFG_LS | CFG_WHICH_MAX
datatype cfg_log_level_t = CFG_LOG_TRACE | CFG_LOG_DEBUG | CFG_LOG_INFO | CFG_LOG_WARN | CFG_LOG_ERROR | CFG_LOG_NONE
datatype cfg_buffer_t = CFG_BUFFER_FULLY | CFG_BUFFER_LINE
datatype metric_watch_t = CFG_MTC_FS | CFG_MTC_NET | CFG_MTC_HTTP | CFG_MTC_DNS | CFG_MTC_PROC | CFG_MTC_STATSD

fun format_val :: "cfg_mtc_format_t \<Rightarrow> u32" where
  "format_val CFG_FMT_STATSD = 0"
| "format_val CFG_FMT_NDJSON = 1"
| "format_val CFG_FORMAT_MAX = 2"

fun transport_val :: "cfg_transport_t \<Rightarrow> u32" where
  "transport_val CFG_UDP = 0"
| "transport_val CFG_UNIX = 1"
| "transport_val CFG_FILE = 2"
| "transport_val CFG_TCP = 3"
| "transport_val CFG_EDGE = 4"

fun which_val :: "which_transport_t \<Rightarrow> u32" where
  "which_val CFG_MTC = 0"
| "which_val CFG_CTL = 1"
| "which_val CFG_LOG = 2"
| "which_val CFG_LS = 3"
| "which_val CFG_WHICH_MAX = 4"

fun log_val :: "cfg_log_level_t \<Rightarrow> u32" where
  "log_val CFG_LOG_TRACE = 0"
| "log_val CFG_LOG_DEBUG = 1"
| "log_val CFG_LOG_INFO = 2"
| "log_val CFG_LOG_WARN = 3"
| "log_val CFG_LOG_ERROR = 4"
| "log_val CFG_LOG_NONE = 5"

fun buffer_val :: "cfg_buffer_t \<Rightarrow> u32" where
  "buffer_val CFG_BUFFER_FULLY = 0"
| "buffer_val CFG_BUFFER_LINE = 1"

fun watch_val :: "watch_t \<Rightarrow> u32" where
  "watch_val CFG_SRC_FILE = 0"
| "watch_val CFG_SRC_CONSOLE = 1"
| "watch_val CFG_SRC_SYSLOG = 2"
| "watch_val CFG_SRC_METRIC = 3"
| "watch_val CFG_SRC_HTTP = 4"
| "watch_val CFG_SRC_NET = 5"
| "watch_val CFG_SRC_FS = 6"
| "watch_val CFG_SRC_DNS = 7"
| "watch_val CFG_SRC_SEC = 8"
| "watch_val CFG_SRC_MAX = 9"

fun metric_watch_val :: "metric_watch_t \<Rightarrow> u32" where
  "metric_watch_val CFG_MTC_FS = 0"
| "metric_watch_val CFG_MTC_NET = 1"
| "metric_watch_val CFG_MTC_HTTP = 2"
| "metric_watch_val CFG_MTC_DNS = 3"
| "metric_watch_val CFG_MTC_PROC = 4"
| "metric_watch_val CFG_MTC_STATSD = 5"

section \<open>Default values\<close>

text \<open>
  The backslash of the default file name expression, \<^verbatim>\<open>(\/logs?\/)|(\.log$)|(\.log[.\d])\<close> once C
  has read its escapes, is written as a character code.
\<close>

definition DEFAULT_SRC_FILE_NAME :: "string option" where
  "DEFAULT_SRC_FILE_NAME =
     Some (''('' @ [CHR 0x5C] @ ''/logs?'' @ [CHR 0x5C] @ ''/)|('' @ [CHR 0x5C] @ ''.log$)|('' @ [CHR 0x5C] @
           ''.log[.'' @ [CHR 0x5C] @ ''d])'')"

definition DEFAULT_MTC_ENABLE :: u32 where
  "DEFAULT_MTC_ENABLE = 1"

definition DEFAULT_MTC_FORMAT :: u32 where
  "DEFAULT_MTC_FORMAT = format_val CFG_FMT_STATSD"

definition DEFAULT_MTC_FS_ENABLE :: u32 where
  "DEFAULT_MTC_FS_ENABLE = 1"

definition DEFAULT_MTC_NET_ENABLE :: u32 where
  "DEFAULT_MTC_NET_ENABLE = 1"

definition DEFAULT_MTC_HTTP_ENABLE :: u32 where
  "DEFAULT_MTC_HTTP_ENABLE = 1"

definition DEFAULT_MTC_DNS_ENABLE :: u32 where
  "DEFAULT_MTC_DNS_ENABLE = 1"

definition DEFAULT_MTC_PROC_ENABLE :: u32 where
  "DEFAULT_MTC_PROC_ENABLE = 1"

definition DEFAULT_MTC_STATSD_ENABLE :: u32 where
  "DEFAULT_MTC_STATSD_ENABLE = 1"

definition DEFAULT_NUM_TAGS :: u32 where
  "DEFAULT_NUM_TAGS = 8"

definition DEFAULT_COMMAND_DIR :: "string option" where
  "DEFAULT_COMMAND_DIR = Some ''/tmp''"

definition DEFAULT_LOG_LEVEL :: u32 where
  "DEFAULT_LOG_LEVEL = log_val CFG_LOG_WARN"

definition DEFAULT_SUMMARY_PERIOD :: u32 where
  "DEFAULT_SUMMARY_PERIOD = 10"

definition DEFAULT_EVT_ENABLE :: u32 where
  "DEFAULT_EVT_ENABLE = 1"

definition DEFAULT_CTL_FORMAT :: u32 where
  "DEFAULT_CTL_FORMAT = format_val CFG_FMT_NDJSON"

definition DEFAULT_SRC_FILE_VALUE :: "string option" where
  "DEFAULT_SRC_FILE_VALUE = Some ''.*''"

definition DEFAULT_SRC_CONSOLE_VALUE :: "string option" where
  "DEFAULT_SRC_CONSOLE_VALUE = Some ''.*''"

definition DEFAULT_SRC_SYSLOG_VALUE :: "string option" where
  "DEFAULT_SRC_SYSLOG_VALUE = Some ''.*''"

definition DEFAULT_SRC_METRIC_VALUE :: "string option" where
  "DEFAULT_SRC_METRIC_VALUE = Some ''.*''"

definition DEFAULT_SRC_HTTP_VALUE :: "string option" where
  "DEFAULT_SRC_HTTP_VALUE = Some ''.*''"

definition DEFAULT_SRC_NET_VALUE :: "string option" where
  "DEFAULT_SRC_NET_VALUE = Some ''.*''"

definition DEFAULT_SRC_FS_VALUE :: "string option" where
  "DEFAULT_SRC_FS_VALUE = Some ''.*''"

definition DEFAULT_SRC_DNS_VALUE :: "string option" where
  "DEFAULT_SRC_DNS_VALUE = Some ''.*''"

definition DEFAULT_SRC_SEC_VALUE :: "string option" where
  "DEFAULT_SRC_SEC_VALUE = Some ''.*''"

definition DEFAULT_SRC_FILE_FIELD :: "string option" where
  "DEFAULT_SRC_FILE_FIELD = Some ''.*''"

definition DEFAULT_SRC_CONSOLE_FIELD :: "string option" where
  "DEFAULT_SRC_CONSOLE_FIELD = Some ''.*''"

definition DEFAULT_SRC_SYSLOG_FIELD :: "string option" where
  "DEFAULT_SRC_SYSLOG_FIELD = Some ''.*''"

definition DEFAULT_SRC_METRIC_FIELD :: "string option" where
  "DEFAULT_SRC_METRIC_FIELD = Some ''^[^h]+''"

definition DEFAULT_SRC_HTTP_FIELD :: "string option" where
  "DEFAULT_SRC_HTTP_FIELD = Some ''.*''"

definition DEFAULT_SRC_NET_FIELD :: "string option" where
  "DEFAULT_SRC_NET_FIELD = Some ''.*''"

definition DEFAULT_SRC_FS_FIELD :: "string option" where
  "DEFAULT_SRC_FS_FIELD = Some ''.*''"

definition DEFAULT_SRC_DNS_FIELD :: "string option" where
  "DEFAULT_SRC_DNS_FIELD = Some ''.*''"

definition DEFAULT_SRC_SEC_FIELD :: "string option" where
  "DEFAULT_SRC_SEC_FIELD = Some ''.*''"

definition DEFAULT_SRC_CONSOLE_NAME :: "string option" where
  "DEFAULT_SRC_CONSOLE_NAME = Some ''(stdout)|(stderr)''"

definition DEFAULT_SRC_SYSLOG_NAME :: "string option" where
  "DEFAULT_SRC_SYSLOG_NAME = Some ''.*''"

definition DEFAULT_SRC_METRIC_NAME :: "string option" where
  "DEFAULT_SRC_METRIC_NAME = Some ''.*''"

definition DEFAULT_SRC_HTTP_NAME :: "string option" where
  "DEFAULT_SRC_HTTP_NAME = Some ''.*''"

definition DEFAULT_SRC_NET_NAME :: "string option" where
  "DEFAULT_SRC_NET_NAME = Some ''.*''"

definition DEFAULT_SRC_FS_NAME :: "string option" where
  "DEFAULT_SRC_FS_NAME = Some ''.*''"

definition DEFAULT_SRC_DNS_NAME :: "string option" where
  "DEFAULT_SRC_DNS_NAME = Some ''.*''"

definition DEFAULT_SRC_SEC_NAME :: "string option" where
  "DEFAULT_SRC_SEC_NAME = Some ''.*''"

definition DEFAULT_ALLOW_BINARY_CONSOLE :: u32 where
  "DEFAULT_ALLOW_BINARY_CONSOLE = 1"

definition DEFAULT_SRC_FILE :: u32 where
  "DEFAULT_SRC_FILE = 1"

definition DEFAULT_SRC_CONSOLE :: u32 where
  "DEFAULT_SRC_CONSOLE = 1"

definition DEFAULT_SRC_SYSLOG :: u32 where
  "DEFAULT_SRC_SYSLOG = 0"

definition DEFAULT_SRC_METRIC :: u32 where
  "DEFAULT_SRC_METRIC = 0"

definition DEFAULT_SRC_HTTP :: u32 where
  "DEFAULT_SRC_HTTP = 1"

definition DEFAULT_SRC_NET :: u32 where
  "DEFAULT_SRC_NET = 1"

definition DEFAULT_SRC_FS :: u32 where
  "DEFAULT_SRC_FS = 1"

definition DEFAULT_SRC_DNS :: u32 where
  "DEFAULT_SRC_DNS = 1"

definition DEFAULT_SRC_SEC :: u32 where
  "DEFAULT_SRC_SEC = 1"

definition DEFAULT_MAXEVENTSPERSEC :: u32 where
  "DEFAULT_MAXEVENTSPERSEC = 10000"

definition DEFAULT_ENHANCE_FS :: u32 where
  "DEFAULT_ENHANCE_FS = 1"

definition DEFAULT_PROCESS_START_MSG :: u32 where
  "DEFAULT_PROCESS_START_MSG = 1"

definition DEFAULT_PAYLOAD_ENABLE :: u32 where
  "DEFAULT_PAYLOAD_ENABLE = 0"

definition DEFAULT_PAYLOAD_DIR :: "string option" where
  "DEFAULT_PAYLOAD_DIR = Some ''/tmp''"

definition DEFAULT_MTC_TYPE :: u32 where
  "DEFAULT_MTC_TYPE = transport_val CFG_UDP"

definition DEFAULT_MTC_HOST :: "string option" where
  "DEFAULT_MTC_HOST = Some ''127.0.0.1''"

definition DEFAULT_MTC_PORT :: "string option" where
  "DEFAULT_MTC_PORT = Some ''8125''"

definition DEFAULT_MTC_PATH :: "string option" where
  "DEFAULT_MTC_PATH = None"

definition DEFAULT_MTC_BUF :: u32 where
  "DEFAULT_MTC_BUF = buffer_val CFG_BUFFER_LINE"

definition DEFAULT_CTL_TYPE :: u32 where
  "DEFAULT_CTL_TYPE = transport_val CFG_TCP"

definition DEFAULT_CTL_HOST :: "string option" where
  "DEFAULT_CTL_HOST = Some ''127.0.0.1''"

definition DEFAULT_CTL_PORT :: "string option" where
  "DEFAULT_CTL_PORT = Some ''9109''"

definition DEFAULT_CTL_PATH :: "string option" where
  "DEFAULT_CTL_PATH = None"

definition DEFAULT_CTL_BUF :: u32 where
  "DEFAULT_CTL_BUF = buffer_val CFG_BUFFER_LINE"

definition DEFAULT_LOG_TYPE :: u32 where
  "DEFAULT_LOG_TYPE = transport_val CFG_FILE"

definition DEFAULT_LS_TYPE :: u32 where
  "DEFAULT_LS_TYPE = transport_val CFG_EDGE"

definition DEFAULT_LS_HOST :: "string option" where
  "DEFAULT_LS_HOST = Some ''127.0.0.1''"

definition DEFAULT_LS_PORT :: "string option" where
  "DEFAULT_LS_PORT = Some ''10090''"

definition DEFAULT_LS_PATH :: "string option" where
  "DEFAULT_LS_PATH = None"

definition DEFAULT_LS_BUF :: u32 where
  "DEFAULT_LS_BUF = buffer_val CFG_BUFFER_LINE"

definition DEFAULT_LOG_HOST :: "string option" where
  "DEFAULT_LOG_HOST = None"

definition DEFAULT_LOG_PORT :: "string option" where
  "DEFAULT_LOG_PORT = None"

definition DEFAULT_LOG_PATH :: "string option" where
  "DEFAULT_LOG_PATH = Some ''/tmp/appview.log''"

definition DEFAULT_LOG_BUF :: u32 where
  "DEFAULT_LOG_BUF = buffer_val CFG_BUFFER_LINE"

definition DEFAULT_TLS_ENABLE :: u32 where
  "DEFAULT_TLS_ENABLE = 0"

definition DEFAULT_TLS_VALIDATE_SERVER :: u32 where
  "DEFAULT_TLS_VALIDATE_SERVER = 1"

definition DEFAULT_TLS_CA_CERT :: "string option" where
  "DEFAULT_TLS_CA_CERT = None"

definition DEFAULT_LOGSTREAM_ENABLE :: u32 where
  "DEFAULT_LOGSTREAM_ENABLE = 0"

definition DEFAULT_LOGSTREAM_CLOUD :: u32 where
  "DEFAULT_LOGSTREAM_CLOUD = 0"

definition DEFAULT_COREDUMP_ENABLE :: u32 where
  "DEFAULT_COREDUMP_ENABLE = 0"

definition DEFAULT_BACKTRACE_ENABLE :: u32 where
  "DEFAULT_BACKTRACE_ENABLE = 0"

definition DEFAULT_IPC_ENABLE :: u32 where
  "DEFAULT_IPC_ENABLE = 1"

definition valueFilterDefault :: "string option list" where
  "valueFilterDefault =
     [DEFAULT_SRC_FILE_VALUE, DEFAULT_SRC_CONSOLE_VALUE, DEFAULT_SRC_SYSLOG_VALUE, DEFAULT_SRC_METRIC_VALUE,
      DEFAULT_SRC_HTTP_VALUE, DEFAULT_SRC_NET_VALUE, DEFAULT_SRC_FS_VALUE, DEFAULT_SRC_DNS_VALUE,
      DEFAULT_SRC_SEC_VALUE]"

definition fieldFilterDefault :: "string option list" where
  "fieldFilterDefault =
     [DEFAULT_SRC_FILE_FIELD, DEFAULT_SRC_CONSOLE_FIELD, DEFAULT_SRC_SYSLOG_FIELD, DEFAULT_SRC_METRIC_FIELD,
      DEFAULT_SRC_HTTP_FIELD, DEFAULT_SRC_NET_FIELD, DEFAULT_SRC_FS_FIELD, DEFAULT_SRC_DNS_FIELD,
      DEFAULT_SRC_SEC_FIELD]"

definition nameFilterDefault :: "string option list" where
  "nameFilterDefault =
     [DEFAULT_SRC_FILE_NAME, DEFAULT_SRC_CONSOLE_NAME, DEFAULT_SRC_SYSLOG_NAME, DEFAULT_SRC_METRIC_NAME,
      DEFAULT_SRC_HTTP_NAME, DEFAULT_SRC_NET_NAME, DEFAULT_SRC_FS_NAME, DEFAULT_SRC_DNS_NAME,
      DEFAULT_SRC_SEC_NAME]"

definition srcEnabledDefault :: "u32 list" where
  "srcEnabledDefault =
     [DEFAULT_SRC_FILE, DEFAULT_SRC_CONSOLE, DEFAULT_SRC_SYSLOG, DEFAULT_SRC_METRIC, DEFAULT_SRC_HTTP,
      DEFAULT_SRC_NET, DEFAULT_SRC_FS, DEFAULT_SRC_DNS, DEFAULT_SRC_SEC]"

definition typeDefault :: "u32 list" where
  "typeDefault = [DEFAULT_MTC_TYPE, DEFAULT_CTL_TYPE, DEFAULT_LOG_TYPE, DEFAULT_LS_TYPE]"

definition hostDefault :: "string option list" where
  "hostDefault = [DEFAULT_MTC_HOST, DEFAULT_CTL_HOST, DEFAULT_LOG_HOST, DEFAULT_LS_HOST]"

definition portDefault :: "string option list" where
  "portDefault = [DEFAULT_MTC_PORT, DEFAULT_CTL_PORT, DEFAULT_LOG_PORT, DEFAULT_LS_PORT]"

definition pathDefault :: "string option list" where
  "pathDefault = [DEFAULT_MTC_PATH, DEFAULT_CTL_PATH, DEFAULT_LOG_PATH, DEFAULT_LS_PATH]"

definition bufDefault :: "u32 list" where
  "bufDefault = [DEFAULT_MTC_BUF, DEFAULT_CTL_BUF, DEFAULT_LOG_BUF, DEFAULT_LS_BUF]"

section \<open>Structures\<close>

text \<open>
  The arrays of fixed size are lists of that length (part of the invariant). A pointer to a heap
  string is a block with the string it holds. The compiled regular expression of a header is
  represented by the pattern it was compiled from.
\<close>

record transport_struct_t =
  tp_type :: u32
  tp_host :: "hstr option"
  tp_port :: "hstr option"
  tp_tls_enable :: u32
  tp_tls_validateserver :: u32
  tp_tls_cacertpath :: "hstr option"
  tp_path :: "hstr option"
  tp_buf_policy :: u32

record header_extract_t =
  he_block :: block
  he_valid :: bool
  he_re :: "string option"
  he_filter :: "hstr option"

record tag_t =
  tg_block :: block
  tg_name :: hstr
  tg_value :: hstr

record mtc_cfg =
  mtc_enable :: u32
  mtc_categories :: u8
  mtc_format :: u32
  mtc_prefix :: "hstr option"
  mtc_maxlen :: u32
  mtc_statsd_enable :: u32
  mtc_period :: u32
  mtc_verbosity :: u32

record evt_cfg =
  evt_enable :: u32
  evt_format :: u32
  evt_ratelimit :: u32
  evt_valuefilter :: "hstr option list"
  evt_fieldfilter :: "hstr option list"
  evt_namefilter :: "hstr option list"
  evt_src :: "u32 list"
  evt_numHeaders :: u64
  evt_hextract :: "(block \<times> header_extract_t option list) option"
  evt_allowbinaryconsole :: u32

record config_t =
  c_block :: block
  c_mtc :: mtc_cfg
  c_evt :: evt_cfg
  c_log_level :: u32
  c_pay_enable :: u32
  c_pay_dir :: "hstr option"
  c_logstream_enable :: u32
  c_logstream_cloud :: u32
  c_coredump :: u8
  c_backtrace :: u8
  c_transport :: "transport_struct_t list"
  c_tags :: "(block \<times> tag_t option list) option"
  c_max_tags :: u32
  c_commanddir :: "hstr option"
  c_processstartmsg :: u32
  c_enhancefs :: u32
  c_authtoken :: "hstr option"
  c_ipcEnable :: u32

end
