(* ===== verification/Cfg.thy ===== *)
theory Cfg
  imports Cfg_Types
begin

text \<open>
  The operations of \<^verbatim>\<open>src/cfg.c\<close>: constructor, destructor, accessors and setters of the
  configuration. A pointer to a configuration may be NULL (\<open>None\<close>). The operations that allocate
  or free take the heap and return it; their outer option is undefined (\<open>None\<close>) for a double free
  or an access outside an array. The setters that do not touch the heap map configurations to
  configurations.
\<close>

unbundle bit_operations_syntax

section \<open>Bits of a category set\<close>

definition APPVIEW_BIT_SET :: "u8 \<Rightarrow> u32 \<Rightarrow> u8" where
  "APPVIEW_BIT_SET base bit_val = ucast (ucast base OR push_bit (unat bit_val) (1 :: u64))"

definition APPVIEW_BIT_CLEAR :: "u8 \<Rightarrow> u32 \<Rightarrow> u8" where
  "APPVIEW_BIT_CLEAR base bit_val = ucast (ucast base AND NOT (push_bit (unat bit_val) (1 :: u64)))"

definition APPVIEW_BIT_SET_VAR :: "u8 \<Rightarrow> u32 \<Rightarrow> u32 \<Rightarrow> u8" where
  "APPVIEW_BIT_SET_VAR base bit_val val =
     (if val \<noteq> 0 then APPVIEW_BIT_SET base bit_val else APPVIEW_BIT_CLEAR base bit_val)"

definition APPVIEW_BIT_CHECK :: "u8 \<Rightarrow> u32 \<Rightarrow> u32" where
  "APPVIEW_BIT_CHECK base bit_val = (if ucast base AND push_bit (unat bit_val) (1 :: u64) \<noteq> 0 then 1 else 0)"

section \<open>Constructor and destructor\<close>

text \<open>
  The allocations of the constructor are numbered in program order: \<open>ok k\<close> says whether the
  \<open>k\<close>-th succeeds. The loops run over the tables of defaults.
\<close>

fun create_sources ::
  "(nat \<Rightarrow> bool) \<Rightarrow> nat \<Rightarrow> (string option \<times> string option \<times> string option) list \<Rightarrow> amem \<Rightarrow>
   (hstr option \<times> hstr option \<times> hstr option) list \<times> amem" where
  "create_sources ok k [] m = ([], m)"
| "create_sources ok k ((val_def, field_def, name_def) # defs) m =
     (let (v, m) = c_strdup_opt val_def (ok k) m;
          (f, m) = c_strdup_opt field_def (ok (k + 1)) m;
          (n, m) = c_strdup_opt name_def (ok (k + 2)) m;
          (rest, m) = create_sources ok (k + 3) defs m
      in ((v, f, n) # rest, m))"

fun create_transports ::
  "(nat \<Rightarrow> bool) \<Rightarrow> nat \<Rightarrow> (u32 \<times> string option \<times> string option \<times> string option \<times> u32) list \<Rightarrow> amem \<Rightarrow>
   transport_struct_t list \<times> amem" where
  "create_transports ok k [] m = ([], m)"
| "create_transports ok k ((type_def, host_def, port_def, path_def, buf_def) # defs) m =
     (let (host, m) = c_strdup_opt host_def (ok k) m;
          (port, m) = c_strdup_opt port_def (ok (k + 1)) m;
          (path, m) = c_strdup_opt path_def (ok (k + 2)) m;
          (cacert, m) = c_strdup_opt DEFAULT_TLS_CA_CERT (ok (k + 3)) m;
          (rest, m) = create_transports ok (k + 4) defs m
      in (\<lparr>tp_type = type_def, tp_host = host, tp_port = port, tp_tls_enable = DEFAULT_TLS_ENABLE,
           tp_tls_validateserver = DEFAULT_TLS_VALIDATE_SERVER, tp_tls_cacertpath = cacert,
           tp_path = path, tp_buf_policy = buf_def\<rparr> # rest, m))"

definition categoriesDefault :: u8 where
  "categoriesDefault =
     (let c = 0;
          c = APPVIEW_BIT_SET_VAR c (metric_watch_val CFG_MTC_FS) DEFAULT_MTC_FS_ENABLE;
          c = APPVIEW_BIT_SET_VAR c (metric_watch_val CFG_MTC_NET) DEFAULT_MTC_NET_ENABLE;
          c = APPVIEW_BIT_SET_VAR c (metric_watch_val CFG_MTC_HTTP) DEFAULT_MTC_HTTP_ENABLE;
          c = APPVIEW_BIT_SET_VAR c (metric_watch_val CFG_MTC_DNS) DEFAULT_MTC_DNS_ENABLE
      in APPVIEW_BIT_SET_VAR c (metric_watch_val CFG_MTC_PROC) DEFAULT_MTC_PROC_ENABLE)"

definition cfgCreateDefault :: "(nat \<Rightarrow> bool) \<Rightarrow> amem \<Rightarrow> config_t option \<times> amem" where
  "cfgCreateDefault ok m =
     (case am_alloc (ok 0) m of
        (None, m) \<Rightarrow> (None, m)
      | (Some c, m) \<Rightarrow>
          let (prefix, m) = c_strdup DEFAULT_STATSD_PREFIX (ok 1) m;
              (srcs, m) = create_sources ok 2 (zip valueFilterDefault (zip fieldFilterDefault nameFilterDefault)) m;
              (tps, m) = create_transports ok 29
                (zip typeDefault (zip hostDefault (zip portDefault (zip pathDefault bufDefault)))) m;
              (dir, m) = c_strdup_opt DEFAULT_PAYLOAD_DIR (ok 45) m;
              (cmd, m) = c_strdup_opt DEFAULT_COMMAND_DIR (ok 46) m
          in (Some
                \<lparr>c_block = c,
                 c_mtc = \<lparr>mtc_enable = DEFAULT_MTC_ENABLE, mtc_categories = categoriesDefault,
                   mtc_format = DEFAULT_MTC_FORMAT, mtc_prefix = prefix, mtc_maxlen = DEFAULT_STATSD_MAX_LEN,
                   mtc_statsd_enable = DEFAULT_MTC_STATSD_ENABLE, mtc_period = DEFAULT_SUMMARY_PERIOD,
                   mtc_verbosity = DEFAULT_MTC_VERBOSITY\<rparr>,
                 c_evt = \<lparr>evt_enable = DEFAULT_EVT_ENABLE, evt_format = DEFAULT_CTL_FORMAT,
                   evt_ratelimit = DEFAULT_MAXEVENTSPERSEC,
                   evt_valuefilter = map fst srcs, evt_fieldfilter = map (fst \<circ> snd) srcs,
                   evt_namefilter = map (snd \<circ> snd) srcs, evt_src = srcEnabledDefault,
                   evt_numHeaders = 0, evt_hextract = None,
                   evt_allowbinaryconsole = DEFAULT_ALLOW_BINARY_CONSOLE\<rparr>,
                 c_log_level = DEFAULT_LOG_LEVEL, c_pay_enable = DEFAULT_PAYLOAD_ENABLE, c_pay_dir = dir,
                 c_logstream_enable = DEFAULT_LOGSTREAM_ENABLE, c_logstream_cloud = DEFAULT_LOGSTREAM_CLOUD,
                 c_coredump = ucast DEFAULT_COREDUMP_ENABLE, c_backtrace = ucast DEFAULT_BACKTRACE_ENABLE,
                 c_transport = tps, c_tags = None, c_max_tags = DEFAULT_NUM_TAGS, c_commanddir = cmd,
                 c_processstartmsg = DEFAULT_PROCESS_START_MSG, c_enhancefs = DEFAULT_ENHANCE_FS,
                 c_authtoken = None, c_ipcEnable = DEFAULT_IPC_ENABLE\<rparr>, m))"

text \<open>\<open>if (p) free(p)\<close> on heap strings, one and many.\<close>

definition free_str :: "hstr option \<Rightarrow> amem \<Rightarrow> amem option" where
  "free_str s m = am_free_opt (map_option fst s) m"

fun free_strs :: "hstr option list \<Rightarrow> amem \<Rightarrow> amem option" where
  "free_strs [] m = Some m"
| "free_strs (s # ss) m = do { m \<leftarrow> free_str s m; free_strs ss m }"

fun destroy_headers :: "header_extract_t option list \<Rightarrow> amem \<Rightarrow> amem option" where
  "destroy_headers [] m = Some m"
| "destroy_headers (None # hs) m = destroy_headers hs m"
| "destroy_headers (Some h # hs) m =
     do {
       m \<leftarrow> free_str (he_filter h) m;
       m \<leftarrow> am_free (he_block h) m;
       destroy_headers hs m
     }"

text \<open>The loop over the tags runs to the first empty entry; running off the array is undefined.\<close>

fun destroy_tags :: "tag_t option list \<Rightarrow> amem \<Rightarrow> amem option" where
  "destroy_tags [] m = None"
| "destroy_tags (None # ts) m = Some m"
| "destroy_tags (Some t # ts) m =
     do {
       m \<leftarrow> am_free (fst (tg_name t)) m;
       m \<leftarrow> am_free (fst (tg_value t)) m;
       m \<leftarrow> am_free (tg_block t) m;
       destroy_tags ts m
     }"

definition cfgDestroy :: "config_t option \<Rightarrow> amem \<Rightarrow> (config_t option \<times> amem) option" where
  "cfgDestroy cfg m =
     (case cfg of
        None \<Rightarrow> Some (None, m)
      | Some c \<Rightarrow>
          do {
            m \<leftarrow> free_str (mtc_prefix (c_mtc c)) m;
            m \<leftarrow> free_str (c_commanddir c) m;
            m \<leftarrow> free_strs (concat (map (\<lambda>(v, f, n). [v, f, n])
                   (zip (evt_valuefilter (c_evt c)) (zip (evt_fieldfilter (c_evt c)) (evt_namefilter (c_evt c)))))) m;
            m \<leftarrow> (case evt_hextract (c_evt c) of
                    None \<Rightarrow> Some m
                  | Some (b, hs) \<Rightarrow>
                      do { m \<leftarrow> destroy_headers (take (unat (evt_numHeaders (c_evt c))) hs) m; am_free b m });
            m \<leftarrow> free_strs (concat (map (\<lambda>t. [tp_host t, tp_port t, tp_path t]) (c_transport c))) m;
            m \<leftarrow> free_str (c_pay_dir c) m;
            m \<leftarrow> (case c_tags c of
                    None \<Rightarrow> Some m
                  | Some (b, ts) \<Rightarrow> do { m \<leftarrow> destroy_tags ts m; am_free b m });
            m \<leftarrow> free_str (c_authtoken c) m;
            m \<leftarrow> am_free (c_block c) m;
            Some (None, m)
          })"

section \<open>Accessors\<close>

definition cfgMtcEnable :: "config_t option \<Rightarrow> u32" where
  "cfgMtcEnable cfg = (case cfg of None \<Rightarrow> DEFAULT_MTC_ENABLE | Some c \<Rightarrow> mtc_enable (c_mtc c))"

definition cfgMtcWatchEnable :: "config_t option \<Rightarrow> u32 \<Rightarrow> u32" where
  "cfgMtcWatchEnable cfg category =
     (if category = metric_watch_val CFG_MTC_FS
      then (case cfg of None \<Rightarrow> DEFAULT_MTC_FS_ENABLE | Some c \<Rightarrow> APPVIEW_BIT_CHECK (mtc_categories (c_mtc c)) category)
      else if category = metric_watch_val CFG_MTC_NET
      then (case cfg of None \<Rightarrow> DEFAULT_MTC_NET_ENABLE | Some c \<Rightarrow> APPVIEW_BIT_CHECK (mtc_categories (c_mtc c)) category)
      else if category = metric_watch_val CFG_MTC_HTTP
      then (case cfg of None \<Rightarrow> DEFAULT_MTC_HTTP_ENABLE | Some c \<Rightarrow> APPVIEW_BIT_CHECK (mtc_categories (c_mtc c)) category)
      else if category = metric_watch_val CFG_MTC_DNS
      then (case cfg of None \<Rightarrow> DEFAULT_MTC_DNS_ENABLE | Some c \<Rightarrow> APPVIEW_BIT_CHECK (mtc_categories (c_mtc c)) category)
      else if category = metric_watch_val CFG_MTC_PROC
      then (case cfg of None \<Rightarrow> DEFAULT_MTC_PROC_ENABLE | Some c \<Rightarrow> APPVIEW_BIT_CHECK (mtc_categories (c_mtc c)) category)
      else if category = metric_watch_val CFG_MTC_STATSD
      then (case cfg of None \<Rightarrow> DEFAULT_MTC_STATSD_ENABLE | Some c \<Rightarrow> mtc_statsd_enable (c_mtc c))
      else 0)"

definition cfgMtcFormat :: "config_t option \<Rightarrow> u32" where
  "cfgMtcFormat cfg = (case cfg of None \<Rightarrow> DEFAULT_MTC_FORMAT | Some c \<Rightarrow> mtc_format (c_mtc c))"

definition cfgMtcStatsDPrefix :: "config_t option \<Rightarrow> string" where
  "cfgMtcStatsDPrefix cfg =
     (case cfg of
        None \<Rightarrow> DEFAULT_STATSD_PREFIX
      | Some c \<Rightarrow> (case mtc_prefix (c_mtc c) of None \<Rightarrow> DEFAULT_STATSD_PREFIX | Some s \<Rightarrow> snd s))"

definition cfgMtcStatsDMaxLen :: "config_t option \<Rightarrow> u32" where
  "cfgMtcStatsDMaxLen cfg = (case cfg of None \<Rightarrow> DEFAULT_STATSD_MAX_LEN | Some c \<Rightarrow> mtc_maxlen (c_mtc c))"

definition cfgMtcPeriod :: "config_t option \<Rightarrow> u32" where
  "cfgMtcPeriod cfg = (case cfg of None \<Rightarrow> DEFAULT_SUMMARY_PERIOD | Some c \<Rightarrow> mtc_period (c_mtc c))"

definition cfgCmdDir :: "config_t option \<Rightarrow> string option" where
  "cfgCmdDir cfg = (case cfg of None \<Rightarrow> DEFAULT_COMMAND_DIR | Some c \<Rightarrow> str_of (c_commanddir c))"

definition cfgSendProcessStartMsg :: "config_t option \<Rightarrow> u32" where
  "cfgSendProcessStartMsg cfg = (case cfg of None \<Rightarrow> DEFAULT_PROCESS_START_MSG | Some c \<Rightarrow> c_processstartmsg c)"

definition cfgEvtEnable :: "config_t option \<Rightarrow> u32" where
  "cfgEvtEnable cfg = (case cfg of None \<Rightarrow> DEFAULT_EVT_ENABLE | Some c \<Rightarrow> evt_enable (c_evt c))"

definition cfgEventFormat :: "config_t option \<Rightarrow> u32" where
  "cfgEventFormat cfg = (case cfg of None \<Rightarrow> DEFAULT_CTL_FORMAT | Some c \<Rightarrow> evt_format (c_evt c))"

definition cfgEvtRateLimit :: "config_t option \<Rightarrow> u32" where
  "cfgEvtRateLimit cfg = (case cfg of None \<Rightarrow> DEFAULT_MAXEVENTSPERSEC | Some c \<Rightarrow> evt_ratelimit (c_evt c))"

definition cfgEnhanceFs :: "config_t option \<Rightarrow> u32" where
  "cfgEnhanceFs cfg = (case cfg of None \<Rightarrow> DEFAULT_ENHANCE_FS | Some c \<Rightarrow> c_enhancefs c)"

definition cfgEvtFormatValueFilter :: "config_t option \<Rightarrow> u32 \<Rightarrow> string option" where
  "cfgEvtFormatValueFilter cfg i =
     (if i < watch_val CFG_SRC_MAX
      then (case cfg of None \<Rightarrow> valueFilterDefault ! unat i | Some c \<Rightarrow> str_of (evt_valuefilter (c_evt c) ! unat i))
      else valueFilterDefault ! unat (watch_val CFG_SRC_FILE))"

definition cfgEvtFormatFieldFilter :: "config_t option \<Rightarrow> u32 \<Rightarrow> string option" where
  "cfgEvtFormatFieldFilter cfg i =
     (if i < watch_val CFG_SRC_MAX
      then (case cfg of None \<Rightarrow> fieldFilterDefault ! unat i | Some c \<Rightarrow> str_of (evt_fieldfilter (c_evt c) ! unat i))
      else fieldFilterDefault ! unat (watch_val CFG_SRC_FILE))"

definition cfgEvtFormatNameFilter :: "config_t option \<Rightarrow> u32 \<Rightarrow> string option" where
  "cfgEvtFormatNameFilter cfg i =
     (if i < watch_val CFG_SRC_MAX
      then (case cfg of None \<Rightarrow> nameFilterDefault ! unat i | Some c \<Rightarrow> str_of (evt_namefilter (c_evt c) ! unat i))
      else nameFilterDefault ! unat (watch_val CFG_SRC_FILE))"

definition cfgEvtFormatNumHeaders :: "config_t option \<Rightarrow> u64" where
  "cfgEvtFormatNumHeaders cfg = (case cfg of None \<Rightarrow> 0 | Some c \<Rightarrow> evt_numHeaders (c_evt c))"

text \<open>
  The header entry that both header accessors select: \<open>num\<close> is converted to \<open>size_t\<close> for
  the comparison, so that a negative one is too large.
\<close>

definition header_at :: "config_t option \<Rightarrow> int \<Rightarrow> header_extract_t option" where
  "header_at cfg num =
     (case cfg of
        None \<Rightarrow> None
      | Some c \<Rightarrow>
          if (word_of_int num :: u64) < evt_numHeaders (c_evt c)
          then (case evt_hextract (c_evt c) of
                  None \<Rightarrow> None
                | Some (b, hs) \<Rightarrow>
                    (case hs ! nat num of
                       None \<Rightarrow> None
                     | Some h \<Rightarrow> if he_valid h then Some h else None))
          else None)"

definition cfgEvtFormatHeader :: "config_t option \<Rightarrow> int \<Rightarrow> string option" where
  "cfgEvtFormatHeader cfg num = (case header_at cfg num of None \<Rightarrow> None | Some h \<Rightarrow> str_of (he_filter h))"

definition cfgEvtFormatHeaderRe :: "config_t option \<Rightarrow> int \<Rightarrow> string option" where
  "cfgEvtFormatHeaderRe cfg num = (case header_at cfg num of None \<Rightarrow> None | Some h \<Rightarrow> he_re h)"

definition cfgEvtFormatSourceEnabled :: "config_t option \<Rightarrow> u32 \<Rightarrow> u32" where
  "cfgEvtFormatSourceEnabled cfg i =
     (if i < watch_val CFG_SRC_MAX
      then (case cfg of None \<Rightarrow> srcEnabledDefault ! unat i | Some c \<Rightarrow> evt_src (c_evt c) ! unat i)
      else srcEnabledDefault ! unat (watch_val CFG_SRC_FILE))"

definition cfgEvtAllowBinaryConsole :: "config_t option \<Rightarrow> u32" where
  "cfgEvtAllowBinaryConsole cfg = (case cfg of None \<Rightarrow> DEFAULT_ALLOW_BINARY_CONSOLE | Some c \<Rightarrow> evt_allowbinaryconsole (c_evt c))"

definition cfgMtcVerbosity :: "config_t option \<Rightarrow> u32" where
  "cfgMtcVerbosity cfg = (case cfg of None \<Rightarrow> DEFAULT_MTC_VERBOSITY | Some c \<Rightarrow> mtc_verbosity (c_mtc c))"

definition cfgTransportType :: "config_t option \<Rightarrow> u32 \<Rightarrow> u32" where
  "cfgTransportType cfg i =
     (if i < which_val CFG_WHICH_MAX
      then (case cfg of None \<Rightarrow> typeDefault ! unat i | Some c \<Rightarrow> tp_type (c_transport c ! unat i))
      else typeDefault ! unat (which_val CFG_LOG))"

definition cfgTransportHost :: "config_t option \<Rightarrow> u32 \<Rightarrow> string option" where
  "cfgTransportHost cfg i =
     (if i < which_val CFG_WHICH_MAX
      then (case cfg of None \<Rightarrow> hostDefault ! unat i | Some c \<Rightarrow> str_of (tp_host (c_transport c ! unat i)))
      else hostDefault ! unat (which_val CFG_LOG))"

definition cfgTransportPort :: "config_t option \<Rightarrow> u32 \<Rightarrow> string option" where
  "cfgTransportPort cfg i =
     (if i < which_val CFG_WHICH_MAX
      then (case cfg of None \<Rightarrow> portDefault ! unat i | Some c \<Rightarrow> str_of (tp_port (c_transport c ! unat i)))
      else portDefault ! unat (which_val CFG_LOG))"

definition cfgTransportPath :: "config_t option \<Rightarrow> u32 \<Rightarrow> string option" where
  "cfgTransportPath cfg i =
     (if i < which_val CFG_WHICH_MAX
      then (case cfg of None \<Rightarrow> pathDefault ! unat i | Some c \<Rightarrow> str_of (tp_path (c_transport c ! unat i)))
      else pathDefault ! unat (which_val CFG_LOG))"

definition cfgTransportBuf :: "config_t option \<Rightarrow> u32 \<Rightarrow> u32" where
  "cfgTransportBuf cfg i =
     (if i < which_val CFG_WHICH_MAX
      then (case cfg of None \<Rightarrow> bufDefault ! unat i | Some c \<Rightarrow> tp_buf_policy (c_transport c ! unat i))
      else bufDefault ! unat (which_val CFG_LOG))"

definition cfgTransportTlsEnable :: "config_t option \<Rightarrow> u32 \<Rightarrow> u32" where
  "cfgTransportTlsEnable cfg i =
     (if i < which_val CFG_WHICH_MAX
      then (case cfg of None \<Rightarrow> DEFAULT_TLS_ENABLE | Some c \<Rightarrow> tp_tls_enable (c_transport c ! unat i))
      else DEFAULT_TLS_ENABLE)"

definition cfgTransportTlsValidateServer :: "config_t option \<Rightarrow> u32 \<Rightarrow> u32" where
  "cfgTransportTlsValidateServer cfg i =
     (if i < which_val CFG_WHICH_MAX
      then (case cfg of None \<Rightarrow> DEFAULT_TLS_VALIDATE_SERVER | Some c \<Rightarrow> tp_tls_validateserver (c_transport c ! unat i))
      else DEFAULT_TLS_VALIDATE_SERVER)"

definition cfgTransportTlsCACertPath :: "config_t option \<Rightarrow> u32 \<Rightarrow> string option" where
  "cfgTransportTlsCACertPath cfg i =
     (if i < which_val CFG_WHICH_MAX
      then (case cfg of None \<Rightarrow> DEFAULT_TLS_CA_CERT | Some c \<Rightarrow> str_of (tp_tls_cacertpath (c_transport c ! unat i)))
      else DEFAULT_TLS_CA_CERT)"

definition cfgCustomTags :: "config_t option \<Rightarrow> (block \<times> tag_t option list) option" where
  "cfgCustomTags cfg = (case cfg of None \<Rightarrow> None | Some c \<Rightarrow> c_tags c)"

text \<open>
  The search for a tag answers with its position. The scan is undefined when it runs off the array.
\<close>

fun tag_scan :: "tag_t option list \<Rightarrow> string \<Rightarrow> nat \<Rightarrow> nat option option" where
  "tag_scan [] tagName i = None"
| "tag_scan (None # ts) tagName i = Some None"
| "tag_scan (Some t # ts) tagName i = (if tagName = snd (tg_name t) then Some (Some i) else tag_scan ts tagName (Suc i))"

definition cfgCustomTag :: "config_t option \<Rightarrow> string option \<Rightarrow> nat option option" where
  "cfgCustomTag cfg tagName =
     (case (tagName, cfg) of
        (Some tagName, Some c) \<Rightarrow> (case c_tags c of None \<Rightarrow> Some None | Some (b, ts) \<Rightarrow> tag_scan ts tagName 0)
      | _ \<Rightarrow> Some None)"

definition cfgCustomTagValue :: "config_t option \<Rightarrow> string option \<Rightarrow> string option option" where
  "cfgCustomTagValue cfg tagName =
     do {
       t \<leftarrow> cfgCustomTag cfg tagName;
       case (t, cfgCustomTags cfg) of
         (Some i, Some (b, ts)) \<Rightarrow> do { e \<leftarrow> aget ts (int i); tag \<leftarrow> e; Some (Some (snd (tg_value tag))) }
       | _ \<Rightarrow> Some None
     }"

definition cfgLogLevel :: "config_t option \<Rightarrow> u32" where
  "cfgLogLevel cfg = (case cfg of None \<Rightarrow> DEFAULT_LOG_LEVEL | Some c \<Rightarrow> c_log_level c)"

definition cfgPayEnable :: "config_t option \<Rightarrow> u32" where
  "cfgPayEnable cfg = (case cfg of None \<Rightarrow> DEFAULT_PAYLOAD_ENABLE | Some c \<Rightarrow> c_pay_enable c)"

definition cfgPayDir :: "config_t option \<Rightarrow> string option" where
  "cfgPayDir cfg = (case cfg of None \<Rightarrow> DEFAULT_PAYLOAD_DIR | Some c \<Rightarrow> str_of (c_pay_dir c))"

definition cfgLogStreamEnable :: "config_t option \<Rightarrow> u32" where
  "cfgLogStreamEnable cfg = (case cfg of None \<Rightarrow> DEFAULT_LOGSTREAM_ENABLE | Some c \<Rightarrow> c_logstream_enable c)"

definition cfgLogStreamCloud :: "config_t option \<Rightarrow> u32" where
  "cfgLogStreamCloud cfg = (case cfg of None \<Rightarrow> DEFAULT_LOGSTREAM_CLOUD | Some c \<Rightarrow> c_logstream_cloud c)"

definition cfgAuthToken :: "config_t option \<Rightarrow> string option" where
  "cfgAuthToken cfg = (case cfg of None \<Rightarrow> None | Some c \<Rightarrow> str_of (c_authtoken c))"

definition cfgSnapshotCoredumpEnable :: "config_t option \<Rightarrow> u32" where
  "cfgSnapshotCoredumpEnable cfg = (case cfg of None \<Rightarrow> DEFAULT_COREDUMP_ENABLE | Some c \<Rightarrow> ucast (c_coredump c))"

definition cfgSnapshotBacktraceEnable :: "config_t option \<Rightarrow> u32" where
  "cfgSnapshotBacktraceEnable cfg = (case cfg of None \<Rightarrow> DEFAULT_BACKTRACE_ENABLE | Some c \<Rightarrow> ucast (c_backtrace c))"

definition cfgIpcEnable :: "config_t option \<Rightarrow> u32" where
  "cfgIpcEnable cfg = (case cfg of None \<Rightarrow> DEFAULT_IPC_ENABLE | Some c \<Rightarrow> c_ipcEnable c)"

section \<open>Setters without allocation\<close>

definition cfgMtcEnableSet :: "config_t option \<Rightarrow> u32 \<Rightarrow> config_t option" where
  "cfgMtcEnableSet cfg val =
     (case cfg of None \<Rightarrow> None | Some c \<Rightarrow> if val > 1 then Some c else Some (c\<lparr>c_mtc := (c_mtc c)\<lparr>mtc_enable := val\<rparr>\<rparr>))"

definition cfgMtcFormatSet :: "config_t option \<Rightarrow> u32 \<Rightarrow> config_t option" where
  "cfgMtcFormatSet cfg fmt =
     (case cfg of None \<Rightarrow> None | Some c \<Rightarrow> if fmt \<ge> format_val CFG_FORMAT_MAX then Some c else Some (c\<lparr>c_mtc := (c_mtc c)\<lparr>mtc_format := fmt\<rparr>\<rparr>))"

definition cfgMtcStatsDMaxLenSet :: "config_t option \<Rightarrow> u32 \<Rightarrow> config_t option" where
  "cfgMtcStatsDMaxLenSet cfg len =
     (case cfg of None \<Rightarrow> None | Some c \<Rightarrow> Some (c\<lparr>c_mtc := (c_mtc c)\<lparr>mtc_maxlen := len\<rparr>\<rparr>))"

definition cfgMtcPeriodSet :: "config_t option \<Rightarrow> u32 \<Rightarrow> config_t option" where
  "cfgMtcPeriodSet cfg val =
     (case cfg of None \<Rightarrow> None | Some c \<Rightarrow> Some (c\<lparr>c_mtc := (c_mtc c)\<lparr>mtc_period := val\<rparr>\<rparr>))"

definition cfgMtcWatchEnableSet :: "config_t option \<Rightarrow> u32 \<Rightarrow> u32 \<Rightarrow> config_t option" where
  "cfgMtcWatchEnableSet cfg val type =
     (case cfg of
        None \<Rightarrow> None
      | Some c \<Rightarrow>
          if val > 1 then Some c
          else if type = metric_watch_val CFG_MTC_FS \<or> type = metric_watch_val CFG_MTC_NET \<or>
                  type = metric_watch_val CFG_MTC_HTTP \<or> type = metric_watch_val CFG_MTC_DNS \<or>
                  type = metric_watch_val CFG_MTC_PROC
          then Some (c\<lparr>c_mtc := (c_mtc c)\<lparr>mtc_categories := APPVIEW_BIT_SET_VAR (mtc_categories (c_mtc c)) type val\<rparr>\<rparr>)
          else if type = metric_watch_val CFG_MTC_STATSD
          then Some (c\<lparr>c_mtc := (c_mtc c)\<lparr>mtc_statsd_enable := val\<rparr>\<rparr>)
          else Some c)"

definition cfgSendProcessStartMsgSet :: "config_t option \<Rightarrow> u32 \<Rightarrow> config_t option" where
  "cfgSendProcessStartMsgSet cfg val =
     (case cfg of None \<Rightarrow> None | Some c \<Rightarrow> if val > 1 then Some c else Some (c\<lparr>c_processstartmsg := val\<rparr>))"

definition cfgMtcVerbositySet :: "config_t option \<Rightarrow> u32 \<Rightarrow> config_t option" where
  "cfgMtcVerbositySet cfg val =
     (case cfg of None \<Rightarrow> None | Some c \<Rightarrow> Some (c\<lparr>c_mtc := (c_mtc c)\<lparr>mtc_verbosity := if val > CFG_MAX_VERBOSITY then CFG_MAX_VERBOSITY else val\<rparr>\<rparr>))"

definition cfgEvtEnableSet :: "config_t option \<Rightarrow> u32 \<Rightarrow> config_t option" where
  "cfgEvtEnableSet cfg val =
     (case cfg of None \<Rightarrow> None | Some c \<Rightarrow> if val > 1 then Some c else Some (c\<lparr>c_evt := (c_evt c)\<lparr>evt_enable := val\<rparr>\<rparr>))"

definition cfgEventFormatSet :: "config_t option \<Rightarrow> u32 \<Rightarrow> config_t option" where
  "cfgEventFormatSet cfg fmt =
     (case cfg of None \<Rightarrow> None | Some c \<Rightarrow> if fmt \<ge> format_val CFG_FORMAT_MAX then Some c else Some (c\<lparr>c_evt := (c_evt c)\<lparr>evt_format := fmt\<rparr>\<rparr>))"

definition cfgEvtRateLimitSet :: "config_t option \<Rightarrow> u32 \<Rightarrow> config_t option" where
  "cfgEvtRateLimitSet cfg val =
     (case cfg of None \<Rightarrow> None | Some c \<Rightarrow> Some (c\<lparr>c_evt := (c_evt c)\<lparr>evt_ratelimit := val\<rparr>\<rparr>))"

definition cfgEnhanceFsSet :: "config_t option \<Rightarrow> u32 \<Rightarrow> config_t option" where
  "cfgEnhanceFsSet cfg val =
     (case cfg of None \<Rightarrow> None | Some c \<Rightarrow> if val > 1 then Some c else Some (c\<lparr>c_enhancefs := val\<rparr>))"

definition cfgEvtFormatSourceEnabledSet :: "config_t option \<Rightarrow> u32 \<Rightarrow> u32 \<Rightarrow> config_t option" where
  "cfgEvtFormatSourceEnabledSet cfg src val =
     (case cfg of
        None \<Rightarrow> None
      | Some c \<Rightarrow>
          if src \<ge> watch_val CFG_SRC_MAX \<or> val > 1 then Some c
          else Some (c\<lparr>c_evt := (c_evt c)\<lparr>evt_src := (evt_src (c_evt c))[unat src := val]\<rparr>\<rparr>))"

definition cfgEvtAllowBinaryConsoleSet :: "config_t option \<Rightarrow> u32 \<Rightarrow> config_t option" where
  "cfgEvtAllowBinaryConsoleSet cfg val =
     (case cfg of None \<Rightarrow> None | Some c \<Rightarrow> if val > 1 then Some c else Some (c\<lparr>c_evt := (c_evt c)\<lparr>evt_allowbinaryconsole := val\<rparr>\<rparr>))"

text \<open>The update of one transport of the array.\<close>

definition tp_upd :: "(transport_struct_t \<Rightarrow> transport_struct_t) \<Rightarrow> u32 \<Rightarrow> config_t \<Rightarrow> config_t" where
  "tp_upd f t c = c\<lparr>c_transport := (c_transport c)[unat t := f (c_transport c ! unat t)]\<rparr>"

definition cfgTransportTypeSet :: "config_t option \<Rightarrow> u32 \<Rightarrow> u32 \<Rightarrow> config_t option" where
  "cfgTransportTypeSet cfg t type =
     (case cfg of
        None \<Rightarrow> None
      | Some c \<Rightarrow>
          if t \<ge> which_val CFG_WHICH_MAX \<or> type > transport_val CFG_EDGE then Some c
          else Some (tp_upd (\<lambda>p. p\<lparr>tp_type := type\<rparr>) t c))"

definition cfgTransportBufSet :: "config_t option \<Rightarrow> u32 \<Rightarrow> u32 \<Rightarrow> config_t option" where
  "cfgTransportBufSet cfg t buf =
     (case cfg of
        None \<Rightarrow> None
      | Some c \<Rightarrow>
          if t \<ge> which_val CFG_WHICH_MAX \<or> buf < buffer_val CFG_BUFFER_FULLY \<or> buf > buffer_val CFG_BUFFER_LINE then Some c
          else Some (tp_upd (\<lambda>p. p\<lparr>tp_buf_policy := buf\<rparr>) t c))"

definition cfgTransportTlsEnableSet :: "config_t option \<Rightarrow> u32 \<Rightarrow> u32 \<Rightarrow> config_t option" where
  "cfgTransportTlsEnableSet cfg t val =
     (case cfg of
        None \<Rightarrow> None
      | Some c \<Rightarrow>
          if t \<ge> which_val CFG_WHICH_MAX \<or> val > 1 then Some c
          else Some (tp_upd (\<lambda>p. p\<lparr>tp_tls_enable := val\<rparr>) t c))"

definition cfgTransportTlsValidateServerSet :: "config_t option \<Rightarrow> u32 \<Rightarrow> u32 \<Rightarrow> config_t option" where
  "cfgTransportTlsValidateServerSet cfg t val =
     (case cfg of
        None \<Rightarrow> None
      | Some c \<Rightarrow>
          if t \<ge> which_val CFG_WHICH_MAX \<or> val > 1 then Some c
          else Some (tp_upd (\<lambda>p. p\<lparr>tp_tls_validateserver := val\<rparr>) t c))"

definition cfgLogLevelSet :: "config_t option \<Rightarrow> u32 \<Rightarrow> config_t option" where
  "cfgLogLevelSet cfg level =
     (case cfg of None \<Rightarrow> None | Some c \<Rightarrow> if level > log_val CFG_LOG_NONE then Some c else Some (c\<lparr>c_log_level := level\<rparr>))"

definition cfgPayEnableSet :: "config_t option \<Rightarrow> u32 \<Rightarrow> config_t option" where
  "cfgPayEnableSet cfg val =
     (case cfg of None \<Rightarrow> None | Some c \<Rightarrow> if val > 1 then Some c else Some (c\<lparr>c_pay_enable := val\<rparr>))"

definition cfgLogStreamEnableSet :: "config_t option \<Rightarrow> u32 \<Rightarrow> config_t option" where
  "cfgLogStreamEnableSet cfg val =
     (case cfg of None \<Rightarrow> None | Some c \<Rightarrow> if val > 1 then Some c else Some (c\<lparr>c_logstream_enable := val\<rparr>))"

definition cfgLogStreamCloudSet :: "config_t option \<Rightarrow> u32 \<Rightarrow> config_t option" where
  "cfgLogStreamCloudSet cfg val =
     (case cfg of None \<Rightarrow> None | Some c \<Rightarrow> if val > 1 then Some c else Some (c\<lparr>c_logstream_cloud := val\<rparr>))"

definition cfgSnapshotCoredumpSet :: "config_t option \<Rightarrow> u32 \<Rightarrow> config_t option" where
  "cfgSnapshotCoredumpSet cfg val =
     (case cfg of None \<Rightarrow> None | Some c \<Rightarrow> if val > 1 then Some c else Some (c\<lparr>c_coredump := ucast val\<rparr>))"

definition cfgSnapshotBacktraceSet :: "config_t option \<Rightarrow> u32 \<Rightarrow> config_t option" where
  "cfgSnapshotBacktraceSet cfg val =
     (case cfg of None \<Rightarrow> None | Some c \<Rightarrow> if val > 1 then Some c else Some (c\<lparr>c_backtrace := ucast val\<rparr>))"

definition cfgIpcEnableSet :: "config_t option \<Rightarrow> u32 \<Rightarrow> config_t option" where
  "cfgIpcEnableSet cfg val =
     (case cfg of None \<Rightarrow> None | Some c \<Rightarrow> if val > 1 then Some c else Some (c\<lparr>c_ipcEnable := val\<rparr>))"

section \<open>Setters of strings\<close>

text \<open>
  A string setter frees the old string and stores a copy of the new one, or of the default when the
  argument is NULL or empty. A failed copy leaves a null pointer.
\<close>

definition non_empty :: "string option \<Rightarrow> string option \<Rightarrow> string option" where
  "non_empty dflt s = (if s = None \<or> s = Some [] then dflt else s)"

text \<open>The copy of the prefix that \<open>cfgMtcStatsDPrefixSet\<close> stores ends in a dot.\<close>

definition dotted :: "string \<Rightarrow> string" where
  "dotted prefix = (if last prefix \<noteq> CHR ''.'' then prefix @ ''.'' else prefix)"

definition cfgMtcStatsDPrefixSet ::
  "config_t option \<Rightarrow> string option \<Rightarrow> bool \<Rightarrow> amem \<Rightarrow> (config_t option \<times> amem) option" where
  "cfgMtcStatsDPrefixSet cfg prefix ok m =
     (case cfg of
        None \<Rightarrow> Some (None, m)
      | Some c \<Rightarrow>
          do {
            (p, m) \<leftarrow> c_replace (mtc_prefix (c_mtc c))
                       (Some (case prefix of None \<Rightarrow> DEFAULT_STATSD_PREFIX
                             | Some s \<Rightarrow> if s = [] then DEFAULT_STATSD_PREFIX else dotted s)) ok m;
            Some (Some (c\<lparr>c_mtc := (c_mtc c)\<lparr>mtc_prefix := p\<rparr>\<rparr>), m)
          })"

definition cfgCmdDirSet ::
  "config_t option \<Rightarrow> string option \<Rightarrow> bool \<Rightarrow> amem \<Rightarrow> (config_t option \<times> amem) option" where
  "cfgCmdDirSet cfg path ok m =
     (case cfg of
        None \<Rightarrow> Some (None, m)
      | Some c \<Rightarrow>
          do {
            (p, m) \<leftarrow> c_replace (c_commanddir c) (non_empty DEFAULT_COMMAND_DIR path) ok m;
            Some (Some (c\<lparr>c_commanddir := p\<rparr>), m)
          })"

definition cfgPayDirSet ::
  "config_t option \<Rightarrow> string option \<Rightarrow> bool \<Rightarrow> amem \<Rightarrow> (config_t option \<times> amem) option" where
  "cfgPayDirSet cfg dir ok m =
     (case cfg of
        None \<Rightarrow> Some (None, m)
      | Some c \<Rightarrow>
          do {
            (p, m) \<leftarrow> c_replace (c_pay_dir c) (non_empty DEFAULT_PAYLOAD_DIR dir) ok m;
            Some (Some (c\<lparr>c_pay_dir := p\<rparr>), m)
          })"

definition cfgAuthTokenSet ::
  "config_t option \<Rightarrow> string option \<Rightarrow> bool \<Rightarrow> amem \<Rightarrow> (config_t option \<times> amem) option" where
  "cfgAuthTokenSet cfg authtoken ok m =
     (case cfg of
        None \<Rightarrow> Some (None, m)
      | Some c \<Rightarrow>
          do {
            (p, m) \<leftarrow> c_replace (c_authtoken c) (non_empty None authtoken) ok m;
            Some (Some (c\<lparr>c_authtoken := p\<rparr>), m)
          })"

definition cfgEvtFormatValueFilterSet ::
  "config_t option \<Rightarrow> u32 \<Rightarrow> string option \<Rightarrow> bool \<Rightarrow> amem \<Rightarrow> (config_t option \<times> amem) option" where
  "cfgEvtFormatValueFilterSet cfg src filter_text ok m =
     (case cfg of
        None \<Rightarrow> Some (None, m)
      | Some c \<Rightarrow>
          if src \<ge> watch_val CFG_SRC_MAX then Some (Some c, m)
          else do {
            (p, m) \<leftarrow> c_replace (evt_valuefilter (c_evt c) ! unat src) (non_empty (valueFilterDefault ! unat src) filter_text) ok m;
            Some (Some (c\<lparr>c_evt := (c_evt c)\<lparr>evt_valuefilter := (evt_valuefilter (c_evt c))[unat src := p]\<rparr>\<rparr>), m)
          })"

definition cfgEvtFormatFieldFilterSet ::
  "config_t option \<Rightarrow> u32 \<Rightarrow> string option \<Rightarrow> bool \<Rightarrow> amem \<Rightarrow> (config_t option \<times> amem) option" where
  "cfgEvtFormatFieldFilterSet cfg src filter_text ok m =
     (case cfg of
        None \<Rightarrow> Some (None, m)
      | Some c \<Rightarrow>
          if src \<ge> watch_val CFG_SRC_MAX then Some (Some c, m)
          else do {
            (p, m) \<leftarrow> c_replace (evt_fieldfilter (c_evt c) ! unat src) (non_empty (fieldFilterDefault ! unat src) filter_text) ok m;
            Some (Some (c\<lparr>c_evt := (c_evt c)\<lparr>evt_fieldfilter := (evt_fieldfilter (c_evt c))[unat src := p]\<rparr>\<rparr>), m)
          })"

definition cfgEvtFormatNameFilterSet ::
  "config_t option \<Rightarrow> u32 \<Rightarrow> string option \<Rightarrow> bool \<Rightarrow> amem \<Rightarrow> (config_t option \<times> amem) option" where
  "cfgEvtFormatNameFilterSet cfg src filter_text ok m =
     (case cfg of
        None \<Rightarrow> Some (None, m)
      | Some c \<Rightarrow>
          if src \<ge> watch_val CFG_SRC_MAX then Some (Some c, m)
          else do {
            (p, m) \<leftarrow> c_replace (evt_namefilter (c_evt c) ! unat src) (non_empty (nameFilterDefault ! unat src) filter_text) ok m;
            Some (Some (c\<lparr>c_evt := (c_evt c)\<lparr>evt_namefilter := (evt_namefilter (c_evt c))[unat src := p]\<rparr>\<rparr>), m)
          })"

definition cfgTransportHostSet ::
  "config_t option \<Rightarrow> u32 \<Rightarrow> string option \<Rightarrow> bool \<Rightarrow> amem \<Rightarrow> (config_t option \<times> amem) option" where
  "cfgTransportHostSet cfg t host ok m =
     (case cfg of
        None \<Rightarrow> Some (None, m)
      | Some c \<Rightarrow>
          if t \<ge> which_val CFG_WHICH_MAX then Some (Some c, m)
          else do {
            (p, m) \<leftarrow> c_replace (tp_host (c_transport c ! unat t)) (host) ok m;
            Some (Some (tp_upd (\<lambda>s. s\<lparr>tp_host := p\<rparr>) t c), m)
          })"

definition cfgTransportPortSet ::
  "config_t option \<Rightarrow> u32 \<Rightarrow> string option \<Rightarrow> bool \<Rightarrow> amem \<Rightarrow> (config_t option \<times> amem) option" where
  "cfgTransportPortSet cfg t port ok m =
     (case cfg of
        None \<Rightarrow> Some (None, m)
      | Some c \<Rightarrow>
          if t \<ge> which_val CFG_WHICH_MAX then Some (Some c, m)
          else do {
            (p, m) \<leftarrow> c_replace (tp_port (c_transport c ! unat t)) (port) ok m;
            Some (Some (tp_upd (\<lambda>s. s\<lparr>tp_port := p\<rparr>) t c), m)
          })"

definition cfgTransportPathSet ::
  "config_t option \<Rightarrow> u32 \<Rightarrow> string option \<Rightarrow> bool \<Rightarrow> amem \<Rightarrow> (config_t option \<times> amem) option" where
  "cfgTransportPathSet cfg t path ok m =
     (case cfg of
        None \<Rightarrow> Some (None, m)
      | Some c \<Rightarrow>
          if t \<ge> which_val CFG_WHICH_MAX then Some (Some c, m)
          else do {
            (p, m) \<leftarrow> c_replace (tp_path (c_transport c ! unat t)) (path) ok m;
            Some (Some (tp_upd (\<lambda>s. s\<lparr>tp_path := p\<rparr>) t c), m)
          })"

definition cfgTransportTlsCACertPathSet ::
  "config_t option \<Rightarrow> u32 \<Rightarrow> string option \<Rightarrow> bool \<Rightarrow> amem \<Rightarrow> (config_t option \<times> amem) option" where
  "cfgTransportTlsCACertPathSet cfg t path ok m =
     (case cfg of
        None \<Rightarrow> Some (None, m)
      | Some c \<Rightarrow>
          if t \<ge> which_val CFG_WHICH_MAX then Some (Some c, m)
          else do {
            (p, m) \<leftarrow> c_replace (tp_tls_cacertpath (c_transport c ! unat t)) (non_empty None path) ok m;
            Some (Some (tp_upd (\<lambda>s. s\<lparr>tp_tls_cacertpath := p\<rparr>) t c), m)
          })"

section \<open>Headers\<close>

text \<open>
  Whether the regular expression library accepts a pattern is the argument \<open>regcomp\<close>. The outcomes
  of the three allocations are \<open>ok1\<close> to \<open>ok3\<close>.
\<close>

definition new_header :: "(string \<Rightarrow> bool) \<Rightarrow> string \<Rightarrow> bool \<Rightarrow> bool \<Rightarrow> amem \<Rightarrow> header_extract_t option \<times> amem" where
  "new_header regcomp pat ok2 ok3 m =
     (case am_alloc ok2 m of
        (None, m) \<Rightarrow> (None, m)
      | (Some b, m) \<Rightarrow>
          if regcomp pat
          then (let (f, m) = c_strdup pat ok3 m
                in (Some \<lparr>he_block = b, he_valid = True, he_re = Some pat, he_filter = f\<rparr>, m))
          else (Some \<lparr>he_block = b, he_valid = False, he_re = None, he_filter = None\<rparr>, m))"

definition cfgEvtFormatHeaderSet ::
  "(string \<Rightarrow> bool) \<Rightarrow> config_t option \<Rightarrow> string option \<Rightarrow> bool \<Rightarrow> bool \<Rightarrow> bool \<Rightarrow> amem \<Rightarrow>
   (config_t option \<times> amem) option" where
  "cfgEvtFormatHeaderSet regcomp cfg filter_text ok1 ok2 ok3 m =
     (case (cfg, filter_text) of
        (Some c, Some pat) \<Rightarrow>
          do {
            let headnum = evt_numHeaders (c_evt c) + 1;
            let arr = evt_hextract (c_evt c);
            (tempex, m) \<leftarrow> am_realloc (map_option fst arr) (headnum * 8) ok1 m;
            case tempex of
              None \<Rightarrow> Some (Some c, m)
            | Some b \<Rightarrow>
                do {
                  let hs = c_realloc None (unat headnum) (case arr of None \<Rightarrow> [] | Some (b, hs) \<Rightarrow> hs);
                  let (h, m) = new_header regcomp pat ok2 ok3 m;
                  hs \<leftarrow> aset hs (uint (evt_numHeaders (c_evt c))) h;
                  Some (Some (c\<lparr>c_evt := (c_evt c)\<lparr>evt_hextract := Some (b, hs), evt_numHeaders := headnum\<rparr>\<rparr>), m)
                }
          }
      | _ \<Rightarrow> Some (cfg, m))"

section \<open>Custom tags\<close>

text \<open>The first empty entry of the array, or its length.\<close>

fun tag_free_slot :: "tag_t option list \<Rightarrow> nat" where
  "tag_free_slot [] = 0"
| "tag_free_slot (None # ts) = 0"
| "tag_free_slot (Some t # ts) = Suc (tag_free_slot ts)"

text \<open>
  The steps of \<open>cfgCustomTagAdd\<close>: replace the value of an existing tag, make room, store the new
  tag. \<open>ok k\<close> says whether the \<open>k\<close>-th allocation succeeds, in the order of the text of the function.
\<close>

definition tag_replace :: "config_t \<Rightarrow> nat \<Rightarrow> hstr \<Rightarrow> amem \<Rightarrow> (config_t \<times> amem) option" where
  "tag_replace c i newvalue m =
     do {
       (b, ts) \<leftarrow> c_tags c;
       e \<leftarrow> aget ts (int i);
       t \<leftarrow> e;
       m \<leftarrow> am_free (fst (tg_value t)) m;
       Some (c\<lparr>c_tags := Some (b, ts[i := Some (t\<lparr>tg_value := newvalue\<rparr>)])\<rparr>, m)
     }"

definition tag_first :: "config_t \<Rightarrow> bool \<Rightarrow> amem \<Rightarrow> config_t \<times> amem" where
  "tag_first c ok m =
     (case c_tags c of
        Some _ \<Rightarrow> (c, m)
      | None \<Rightarrow> (case am_alloc ok m of
                   (None, m) \<Rightarrow> (c, m)
                 | (Some b, m) \<Rightarrow> (c\<lparr>c_tags := Some (b, replicate (unat (c_max_tags c)) None)\<rparr>, m)))"

text \<open>
  The doubled number of entries is stored in an int; its product with the size of a pointer is
  computed in \<open>size_t\<close>. The new entries are cleared. The flag says whether there is room now.
\<close>

definition tag_grow :: "config_t \<Rightarrow> nat \<Rightarrow> bool \<Rightarrow> amem \<Rightarrow> (bool \<times> config_t \<times> amem) option" where
  "tag_grow c i ok m =
     (if word_of_nat i \<ge> c_max_tags c - 1
      then do {
        let tmp_max_tags = to_int32 (uint (c_max_tags c * 2));
        (temp, m) \<leftarrow> am_realloc (map_option fst (c_tags c)) (8 * word_of_int tmp_max_tags) ok m;
        case temp of
          None \<Rightarrow> Some (False, c, m)
        | Some b \<Rightarrow>
            (case c_tags c of
               None \<Rightarrow> None
             | Some (_, ts) \<Rightarrow>
                 Some (True, c\<lparr>c_tags := Some (b, c_realloc None (nat tmp_max_tags) ts),
                               c_max_tags := word_of_int tmp_max_tags\<rparr>, m))
      }
      else Some (True, c, m))"

definition tag_store ::
  "config_t \<Rightarrow> nat \<Rightarrow> string \<Rightarrow> string \<Rightarrow> bool \<Rightarrow> bool \<Rightarrow> bool \<Rightarrow> amem \<Rightarrow> (config_t \<times> amem) option" where
  "tag_store c i name val_text ok3 ok4 ok5 m =
     (let (t, m) = am_alloc ok3 m; (n, m) = c_strdup name ok4 m; (v, m) = c_strdup val_text ok5 m
      in (case (t, n, v) of
            (Some tb, Some n, Some v) \<Rightarrow>
              do {
                (b, ts) \<leftarrow> c_tags c;
                ts \<leftarrow> aset ts (int i) (Some \<lparr>tg_block = tb, tg_name = n, tg_value = v\<rparr>);
                Some (c\<lparr>c_tags := Some (b, ts)\<rparr>, m)
              }
          | _ \<Rightarrow> do { m \<leftarrow> am_free_opt t m; m \<leftarrow> free_str n m; m \<leftarrow> free_str v m; Some (c, m) }))"

definition tag_new :: "config_t \<Rightarrow> string \<Rightarrow> string \<Rightarrow> (nat \<Rightarrow> bool) \<Rightarrow> amem \<Rightarrow> (config_t option \<times> amem) option" where
  "tag_new c name val ok m =
     do {
       let (c, m) = tag_first c (ok 1) m;
       case c_tags c of
         None \<Rightarrow> Some (Some c, m)
       | Some (b, ts) \<Rightarrow>
           do {
             let i = tag_free_slot ts;
             (room, c, m) \<leftarrow> tag_grow c i (ok 2) m;
             if \<not> room then Some (Some c, m)
             else map_option (\<lambda>(c, m). (Some c, m)) (tag_store c i name val (ok 3) (ok 4) (ok 5) m)
           }
     }"

definition cfgCustomTagAdd ::
  "config_t option \<Rightarrow> string option \<Rightarrow> string option \<Rightarrow> (nat \<Rightarrow> bool) \<Rightarrow> amem \<Rightarrow> (config_t option \<times> amem) option" where
  "cfgCustomTagAdd cfg name val_text ok m =
     (case (cfg, name, val_text) of
        (Some c, Some name, Some val) \<Rightarrow>
          do {
            t \<leftarrow> cfgCustomTag (Some c) (Some name);
            let (newvalue, m) = (case t of None \<Rightarrow> (None, m) | Some i \<Rightarrow> c_strdup val (ok 0) m);
            case (t, newvalue) of
              (Some i, Some v) \<Rightarrow> map_option (\<lambda>(c, m). (Some c, m)) (tag_replace c i v m)
            | _ \<Rightarrow> tag_new c name val ok m
          }
      | _ \<Rightarrow> Some (cfg, m))"

end
