(* ===== verification/Cfg_Safety.thy ===== *)
theory Cfg_Safety
  imports Cfg
begin

text \<open>
  The invariant of configurations and the ownership of their heap blocks, kept by every sequence of
  setter calls; what the setters store is what the accessors return; the custom tags as a map.
\<close>

section \<open>The invariant\<close>

definition mtc_ok :: "mtc_cfg \<Rightarrow> bool" where
  "mtc_ok t \<longleftrightarrow> mtc_enable t \<le> 1 \<and> mtc_categories t < 32 \<and> mtc_format t < format_val CFG_FORMAT_MAX \<and>
     mtc_statsd_enable t \<le> 1 \<and> mtc_verbosity t \<le> CFG_MAX_VERBOSITY \<and>
     (\<forall>s. str_of (mtc_prefix t) = Some s \<longrightarrow> s = [] \<or> last s = CHR ''.'')"

definition headers_ok :: "u64 \<Rightarrow> (block \<times> header_extract_t option list) option \<Rightarrow> bool" where
  "headers_ok n arr \<longleftrightarrow> n < 0x1000000000000000 \<and>
     (case arr of None \<Rightarrow> n = 0 | Some (b, hs) \<Rightarrow> length hs = unat n)"

definition evt_ok :: "evt_cfg \<Rightarrow> bool" where
  "evt_ok t \<longleftrightarrow> evt_enable t \<le> 1 \<and> evt_format t < format_val CFG_FORMAT_MAX \<and>
     length (evt_valuefilter t) = 9 \<and> length (evt_fieldfilter t) = 9 \<and> length (evt_namefilter t) = 9 \<and>
     length (evt_src t) = 9 \<and> (\<forall>v\<in>set (evt_src t). v \<le> 1) \<and> evt_allowbinaryconsole t \<le> 1 \<and>
     headers_ok (evt_numHeaders t) (evt_hextract t)"

definition tp_ok :: "transport_struct_t \<Rightarrow> bool" where
  "tp_ok t \<longleftrightarrow> tp_type t \<le> transport_val CFG_EDGE \<and> tp_buf_policy t \<le> buffer_val CFG_BUFFER_LINE \<and>
     tp_tls_enable t \<le> 1 \<and> tp_tls_validateserver t \<le> 1"

text \<open>The tags come first in their array, and an empty entry delimits them.\<close>

definition tags_ok :: "u32 \<Rightarrow> (block \<times> tag_t option list) option \<Rightarrow> bool" where
  "tags_ok n arr \<longleftrightarrow> 8 \<le> n \<and> n < 0x80000000 \<and>
     (case arr of None \<Rightarrow> True
      | Some (b, ts) \<Rightarrow> length ts = unat n \<and> (\<exists>us k. ts = map Some us @ replicate (Suc k) None))"

definition cfg_ok :: "config_t \<Rightarrow> bool" where
  "cfg_ok c \<longleftrightarrow> mtc_ok (c_mtc c) \<and> evt_ok (c_evt c) \<and> c_log_level c \<le> log_val CFG_LOG_NONE \<and>
     c_pay_enable c \<le> 1 \<and> c_logstream_enable c \<le> 1 \<and> c_logstream_cloud c \<le> 1 \<and>
     c_coredump c \<le> 1 \<and> c_backtrace c \<le> 1 \<and>
     length (c_transport c) = 4 \<and> (\<forall>t\<in>set (c_transport c). tp_ok t) \<and>
     tags_ok (c_max_tags c) (c_tags c) \<and>
     c_processstartmsg c \<le> 1 \<and> c_enhancefs c \<le> 1 \<and> c_ipcEnable c \<le> 1"

section \<open>Ownership\<close>

definition he_owned :: "header_extract_t option \<Rightarrow> block multiset" where
  "he_owned h = (case h of None \<Rightarrow> {#} | Some h \<Rightarrow> add_mset (he_block h) (sblk (he_filter h)))"

definition tg_owned :: "tag_t option \<Rightarrow> block multiset" where
  "tg_owned t = (case t of None \<Rightarrow> {#} | Some t \<Rightarrow> {#tg_block t, fst (tg_name t), fst (tg_value t)#})"

definition arr_owned :: "('a \<Rightarrow> block multiset) \<Rightarrow> (block \<times> 'a list) option \<Rightarrow> block multiset" where
  "arr_owned f arr = (case arr of None \<Rightarrow> {#} | Some (b, xs) \<Rightarrow> add_mset b (sum_list (map f xs)))"

definition evt_owned :: "evt_cfg \<Rightarrow> block multiset" where
  "evt_owned t = sblks (evt_valuefilter t) + sblks (evt_fieldfilter t) + sblks (evt_namefilter t) +
     arr_owned he_owned (evt_hextract t)"

definition tp_owned :: "transport_struct_t \<Rightarrow> block multiset" where
  "tp_owned t = sblk (tp_host t) + sblk (tp_port t) + sblk (tp_path t) + sblk (tp_tls_cacertpath t)"

definition owned :: "config_t \<Rightarrow> block multiset" where
  "owned c = add_mset (c_block c) (sblk (mtc_prefix (c_mtc c)) + evt_owned (c_evt c) + sblk (c_pay_dir c) +
     sum_list (map tp_owned (c_transport c)) + arr_owned tg_owned (c_tags c) + sblk (c_commanddir c) +
     sblk (c_authtoken c))"

section \<open>The steps\<close>

text \<open>The calls a program makes on a configuration.\<close>

inductive scalar_set :: "config_t \<Rightarrow> config_t \<Rightarrow> bool" where

  MtcEnable: "cfgMtcEnableSet (Some c) v = Some c' \<Longrightarrow> scalar_set c c'"
| MtcFormat: "cfgMtcFormatSet (Some c) v = Some c' \<Longrightarrow> scalar_set c c'"
| MtcStatsDMaxLen: "cfgMtcStatsDMaxLenSet (Some c) v = Some c' \<Longrightarrow> scalar_set c c'"
| MtcPeriod: "cfgMtcPeriodSet (Some c) v = Some c' \<Longrightarrow> scalar_set c c'"
| MtcWatchEnable: "cfgMtcWatchEnableSet (Some c) t v = Some c' \<Longrightarrow> scalar_set c c'"
| SendProcessStartMsg: "cfgSendProcessStartMsgSet (Some c) v = Some c' \<Longrightarrow> scalar_set c c'"
| MtcVerbosity: "cfgMtcVerbositySet (Some c) v = Some c' \<Longrightarrow> scalar_set c c'"
| EvtEnable: "cfgEvtEnableSet (Some c) v = Some c' \<Longrightarrow> scalar_set c c'"
| EventFormat: "cfgEventFormatSet (Some c) v = Some c' \<Longrightarrow> scalar_set c c'"
| EvtRateLimit: "cfgEvtRateLimitSet (Some c) v = Some c' \<Longrightarrow> scalar_set c c'"
| EnhanceFs: "cfgEnhanceFsSet (Some c) v = Some c' \<Longrightarrow> scalar_set c c'"
| EvtFormatSourceEnabled: "cfgEvtFormatSourceEnabledSet (Some c) t v = Some c' \<Longrightarrow> scalar_set c c'"
| EvtAllowBinaryConsole: "cfgEvtAllowBinaryConsoleSet (Some c) v = Some c' \<Longrightarrow> scalar_set c c'"
| TransportType: "cfgTransportTypeSet (Some c) t v = Some c' \<Longrightarrow> scalar_set c c'"
| TransportBuf: "cfgTransportBufSet (Some c) t v = Some c' \<Longrightarrow> scalar_set c c'"
| TransportTlsEnable: "cfgTransportTlsEnableSet (Some c) t v = Some c' \<Longrightarrow> scalar_set c c'"
| TransportTlsValidateServer: "cfgTransportTlsValidateServerSet (Some c) t v = Some c' \<Longrightarrow> scalar_set c c'"
| LogLevel: "cfgLogLevelSet (Some c) v = Some c' \<Longrightarrow> scalar_set c c'"
| PayEnable: "cfgPayEnableSet (Some c) v = Some c' \<Longrightarrow> scalar_set c c'"
| LogStreamEnable: "cfgLogStreamEnableSet (Some c) v = Some c' \<Longrightarrow> scalar_set c c'"
| LogStreamCloud: "cfgLogStreamCloudSet (Some c) v = Some c' \<Longrightarrow> scalar_set c c'"
| SnapshotCoredump: "cfgSnapshotCoredumpSet (Some c) v = Some c' \<Longrightarrow> scalar_set c c'"
| SnapshotBacktrace: "cfgSnapshotBacktraceSet (Some c) v = Some c' \<Longrightarrow> scalar_set c c'"
| IpcEnable: "cfgIpcEnableSet (Some c) v = Some c' \<Longrightarrow> scalar_set c c'"

inductive cfg_step :: "config_t \<times> amem \<Rightarrow> config_t \<times> amem \<Rightarrow> bool" where
  scalar: "scalar_set c c' \<Longrightarrow> cfg_step (c, m) (c', m)"
| MtcStatsDPrefix: "cfgMtcStatsDPrefixSet (Some c) s ok m = Some (Some c', m') \<Longrightarrow> cfg_step (c, m) (c', m')"
| CmdDir: "cfgCmdDirSet (Some c) s ok m = Some (Some c', m') \<Longrightarrow> cfg_step (c, m) (c', m')"
| PayDir: "cfgPayDirSet (Some c) s ok m = Some (Some c', m') \<Longrightarrow> cfg_step (c, m) (c', m')"
| AuthToken: "cfgAuthTokenSet (Some c) s ok m = Some (Some c', m') \<Longrightarrow> cfg_step (c, m) (c', m')"
| EvtFormatValueFilter: "cfgEvtFormatValueFilterSet (Some c) i s ok m = Some (Some c', m') \<Longrightarrow> cfg_step (c, m) (c', m')"
| EvtFormatFieldFilter: "cfgEvtFormatFieldFilterSet (Some c) i s ok m = Some (Some c', m') \<Longrightarrow> cfg_step (c, m) (c', m')"
| EvtFormatNameFilter: "cfgEvtFormatNameFilterSet (Some c) i s ok m = Some (Some c', m') \<Longrightarrow> cfg_step (c, m) (c', m')"
| TransportHost: "cfgTransportHostSet (Some c) i s ok m = Some (Some c', m') \<Longrightarrow> cfg_step (c, m) (c', m')"
| TransportPort: "cfgTransportPortSet (Some c) i s ok m = Some (Some c', m') \<Longrightarrow> cfg_step (c, m) (c', m')"
| TransportPath: "cfgTransportPathSet (Some c) i s ok m = Some (Some c', m') \<Longrightarrow> cfg_step (c, m) (c', m')"
| TransportTlsCACertPath: "cfgTransportTlsCACertPathSet (Some c) i s ok m = Some (Some c', m') \<Longrightarrow> cfg_step (c, m) (c', m')"
| Header: "cfgEvtFormatHeaderSet regcomp (Some c) s ok1 ok2 ok3 m = Some (Some c', m') \<Longrightarrow> cfg_step (c, m) (c', m')"
| CustomTag: "cfgCustomTagAdd (Some c) s v oks m = Some (Some c', m') \<Longrightarrow> cfg_step (c, m) (c', m')"

inductive_simps cfg_step_pair: "cfg_step (c, m) (c', m')"

lemmas scalar_defs = cfgMtcEnableSet_def
  cfgMtcFormatSet_def
  cfgMtcStatsDMaxLenSet_def
  cfgMtcPeriodSet_def
  cfgMtcWatchEnableSet_def
  cfgSendProcessStartMsgSet_def
  cfgMtcVerbositySet_def
  cfgEvtEnableSet_def
  cfgEventFormatSet_def
  cfgEvtRateLimitSet_def
  cfgEnhanceFsSet_def
  cfgEvtFormatSourceEnabledSet_def
  cfgEvtAllowBinaryConsoleSet_def
  cfgTransportTypeSet_def
  cfgTransportBufSet_def
  cfgTransportTlsEnableSet_def
  cfgTransportTlsValidateServerSet_def
  cfgLogLevelSet_def
  cfgPayEnableSet_def
  cfgLogStreamEnableSet_def
  cfgLogStreamCloudSet_def
  cfgSnapshotCoredumpSet_def
  cfgSnapshotBacktraceSet_def
  cfgIpcEnableSet_def

lemmas string_defs = cfgMtcStatsDPrefixSet_def
  cfgCmdDirSet_def
  cfgPayDirSet_def
  cfgAuthTokenSet_def
  cfgEvtFormatValueFilterSet_def
  cfgEvtFormatFieldFilterSet_def
  cfgEvtFormatNameFilterSet_def
  cfgTransportHostSet_def
  cfgTransportPortSet_def
  cfgTransportPathSet_def
  cfgTransportTlsCACertPathSet_def

section \<open>Setters without allocation\<close>

lemma tp_owned_upd:
  assumes "\<And>p. tp_owned (f p) = tp_owned p" "i < length ts"
  shows "sum_list (map tp_owned (ts[i := f (ts ! i)])) = sum_list (map tp_owned ts)"
  using assms sum_list_take_out [OF assms(2), of tp_owned] by (simp add: sum_list_update)

lemma all_update: "\<forall>x\<in>set xs. P x \<Longrightarrow> P y \<Longrightarrow> \<forall>x\<in>set (xs[i := y]). P x"
  using set_update_subset_insert [of xs i y] by auto

lemma tp_upd_keeps:
  assumes "\<And>p. tp_owned (f p) = tp_owned p" "\<And>p. tp_ok p \<Longrightarrow> tp_ok (f p)" "cfg_ok c" "t < which_val CFG_WHICH_MAX"
  shows "cfg_ok (tp_upd f t c) \<and> owned (tp_upd f t c) = owned c"
proof -
  have t: "unat t < length (c_transport c)"
    using assms(3,4) by (simp add: cfg_ok_def word_less_nat_alt)
  then have "tp_ok (f (c_transport c ! unat t))"
    using assms(2,3) by (simp add: cfg_ok_def)
  then have "\<forall>p\<in>set ((c_transport c)[unat t := f (c_transport c ! unat t)]). tp_ok p"
    using assms(3) by (intro all_update) (simp_all add: cfg_ok_def)
  then show ?thesis
    using assms(3) tp_owned_upd [OF assms(1) t] by (simp add: cfg_ok_def tp_upd_def owned_def)
qed

lemma mtc_update_keeps:
  assumes "cfg_ok c" "mtc_ok t" "mtc_prefix t = mtc_prefix (c_mtc c)"
  shows "cfg_ok (c\<lparr>c_mtc := t\<rparr>)" "owned (c\<lparr>c_mtc := t\<rparr>) = owned c"
  using assms by (simp_all add: cfg_ok_def owned_def)

lemma evt_update_keeps:
  assumes "cfg_ok c" "evt_ok t" "evt_owned t = evt_owned (c_evt c)"
  shows "cfg_ok (c\<lparr>c_evt := t\<rparr>)" "owned (c\<lparr>c_evt := t\<rparr>) = owned c"
  using assms by (simp_all add: cfg_ok_def owned_def)

lemma cfg_ok_mtc: "cfg_ok c \<Longrightarrow> mtc_ok (c_mtc c)"
  by (simp add: cfg_ok_def)

lemma cfg_ok_evt: "cfg_ok c \<Longrightarrow> evt_ok (c_evt c)"
  by (simp add: cfg_ok_def)

lemma evt_src_ok: "evt_ok t \<Longrightarrow> v \<le> 1 \<Longrightarrow> evt_ok (t\<lparr>evt_src := (evt_src t)[i := v]\<rparr>)"
  using all_update [of "evt_src t" "\<lambda>v. v \<le> 1" v i] by (simp add: evt_ok_def)

text \<open>A category set has five members.\<close>

lemma categories_bits: "w < 32 \<longleftrightarrow> (\<forall>n. bit (w :: u8) n \<longrightarrow> n < 5)"
proof -
  have "w < 32 \<longleftrightarrow> take_bit 5 (unat w) = unat w"
    by (simp add: word_less_nat_alt take_bit_nat_eq_self_iff)
  also have "\<dots> \<longleftrightarrow> take_bit 5 w = w"
    by (simp add: word_unat_eq_iff unsigned_take_bit_eq)
  also have "\<dots> \<longleftrightarrow> (\<forall>n. bit w n \<longrightarrow> n < 5)"
    using bit_imp_le_length [of w] by (auto simp: bit_eq_iff bit_take_bit_iff)
  finally show ?thesis .
qed

lemma bit_set_var:
  assumes "b < 5" "n < 8"
  shows "bit (APPVIEW_BIT_SET_VAR w b v) n = (if n = unat b then v \<noteq> 0 else bit w n)"
  using assms
  by (auto simp: APPVIEW_BIT_SET_VAR_def APPVIEW_BIT_SET_def APPVIEW_BIT_CLEAR_def bit_unsigned_iff bit_or_iff
      bit_and_iff bit_not_iff bit_push_bit_iff bit_exp_iff)

lemma set_var_categories:
  assumes "w < 32" "b < 5"
  shows "APPVIEW_BIT_SET_VAR w b v < 32"
proof -
  have "n < 5" if "bit (APPVIEW_BIT_SET_VAR w b v) n" for n
  proof -
    have "n < 8" using that bit_imp_le_length [OF that] by simp
    moreover have "unat b < 5" using assms(2) by (simp add: word_less_nat_alt)
    ultimately show ?thesis
      using that assms by (auto simp: bit_set_var categories_bits split: if_splits)
  qed
  then show ?thesis by (simp add: categories_bits)
qed

lemma ucast_bool: "v \<le> 1 \<Longrightarrow> (ucast (v :: u32) :: u8) \<le> 1"
proof -
  assume "v \<le> 1"
  then have "v = 0 \<or> v = 1"
    by (auto simp: word_le_nat_alt word_unat_eq_iff)
  then show ?thesis by auto
qed

lemma scalar_set_keeps:
  assumes "scalar_set c c'" "cfg_ok c"
  shows "cfg_ok c' \<and> owned c' = owned c"
  using assms(1)
proof cases
  case (MtcEnable v)
  then show ?thesis
    using assms(2) cfg_ok_mtc [OF assms(2)]
    by (auto simp: cfgMtcEnableSet_def mtc_ok_def not_less CFG_MAX_VERBOSITY_def intro!: mtc_update_keeps split: if_splits)
next
  case (MtcFormat v)
  then show ?thesis
    using assms(2) cfg_ok_mtc [OF assms(2)]
    by (auto simp: cfgMtcFormatSet_def mtc_ok_def not_less CFG_MAX_VERBOSITY_def intro!: mtc_update_keeps split: if_splits)
next
  case (MtcStatsDMaxLen v)
  then show ?thesis
    using assms(2) cfg_ok_mtc [OF assms(2)]
    by (auto simp: cfgMtcStatsDMaxLenSet_def mtc_ok_def not_less CFG_MAX_VERBOSITY_def intro!: mtc_update_keeps split: if_splits)
next
  case (MtcPeriod v)
  then show ?thesis
    using assms(2) cfg_ok_mtc [OF assms(2)]
    by (auto simp: cfgMtcPeriodSet_def mtc_ok_def not_less CFG_MAX_VERBOSITY_def intro!: mtc_update_keeps split: if_splits)
next
  case (MtcWatchEnable t v)
  then show ?thesis
    using assms(2) cfg_ok_mtc [OF assms(2)]
    by (auto simp: cfgMtcWatchEnableSet_def mtc_ok_def set_var_categories not_less intro!: mtc_update_keeps split: if_splits)
next
  case (SendProcessStartMsg v)
  then show ?thesis
    using assms(2) by (auto simp: cfgSendProcessStartMsgSet_def cfg_ok_def owned_def not_less ucast_bool split: if_splits)
next
  case (MtcVerbosity v)
  then show ?thesis
    using assms(2) cfg_ok_mtc [OF assms(2)]
    by (auto simp: cfgMtcVerbositySet_def mtc_ok_def not_less CFG_MAX_VERBOSITY_def intro!: mtc_update_keeps split: if_splits)
next
  case (EvtEnable v)
  then show ?thesis
    using assms(2) cfg_ok_evt [OF assms(2)]
    by (auto simp: cfgEvtEnableSet_def evt_ok_def evt_owned_def not_less intro!: evt_update_keeps split: if_splits)
next
  case (EventFormat v)
  then show ?thesis
    using assms(2) cfg_ok_evt [OF assms(2)]
    by (auto simp: cfgEventFormatSet_def evt_ok_def evt_owned_def not_less intro!: evt_update_keeps split: if_splits)
next
  case (EvtRateLimit v)
  then show ?thesis
    using assms(2) cfg_ok_evt [OF assms(2)]
    by (auto simp: cfgEvtRateLimitSet_def evt_ok_def evt_owned_def not_less intro!: evt_update_keeps split: if_splits)
next
  case (EnhanceFs v)
  then show ?thesis
    using assms(2) by (auto simp: cfgEnhanceFsSet_def cfg_ok_def owned_def not_less ucast_bool split: if_splits)
next
  case (EvtFormatSourceEnabled t v)
  then show ?thesis
    using assms(2) evt_src_ok [OF cfg_ok_evt [OF assms(2)]]
    by (auto simp: cfgEvtFormatSourceEnabledSet_def evt_owned_def not_less intro!: evt_update_keeps split: if_splits)
next
  case (EvtAllowBinaryConsole v)
  then show ?thesis
    using assms(2) cfg_ok_evt [OF assms(2)]
    by (auto simp: cfgEvtAllowBinaryConsoleSet_def evt_ok_def evt_owned_def not_less intro!: evt_update_keeps split: if_splits)
next
  case (TransportType t v)
  then show ?thesis
    using assms(2) tp_upd_keeps [OF _ _ assms(2), of _ t]
    by (auto simp: cfgTransportTypeSet_def not_less not_le tp_owned_def tp_ok_def split: if_splits)
next
  case (TransportBuf t v)
  then show ?thesis
    using assms(2) tp_upd_keeps [OF _ _ assms(2), of _ t]
    by (auto simp: cfgTransportBufSet_def not_less not_le tp_owned_def tp_ok_def split: if_splits)
next
  case (TransportTlsEnable t v)
  then show ?thesis
    using assms(2) tp_upd_keeps [OF _ _ assms(2), of _ t]
    by (auto simp: cfgTransportTlsEnableSet_def not_less not_le tp_owned_def tp_ok_def split: if_splits)
next
  case (TransportTlsValidateServer t v)
  then show ?thesis
    using assms(2) tp_upd_keeps [OF _ _ assms(2), of _ t]
    by (auto simp: cfgTransportTlsValidateServerSet_def not_less not_le tp_owned_def tp_ok_def split: if_splits)
next
  case (LogLevel v)
  then show ?thesis
    using assms(2) by (auto simp: cfgLogLevelSet_def cfg_ok_def owned_def not_less ucast_bool split: if_splits)
next
  case (PayEnable v)
  then show ?thesis
    using assms(2) by (auto simp: cfgPayEnableSet_def cfg_ok_def owned_def not_less ucast_bool split: if_splits)
next
  case (LogStreamEnable v)
  then show ?thesis
    using assms(2) by (auto simp: cfgLogStreamEnableSet_def cfg_ok_def owned_def not_less ucast_bool split: if_splits)
next
  case (LogStreamCloud v)
  then show ?thesis
    using assms(2) by (auto simp: cfgLogStreamCloudSet_def cfg_ok_def owned_def not_less ucast_bool split: if_splits)
next
  case (SnapshotCoredump v)
  then show ?thesis
    using assms(2) by (auto simp: cfgSnapshotCoredumpSet_def cfg_ok_def owned_def not_less ucast_bool split: if_splits)
next
  case (SnapshotBacktrace v)
  then show ?thesis
    using assms(2) by (auto simp: cfgSnapshotBacktraceSet_def cfg_ok_def owned_def not_less ucast_bool split: if_splits)
next
  case (IpcEnable v)
  then show ?thesis
    using assms(2) by (auto simp: cfgIpcEnableSet_def cfg_ok_def owned_def not_less ucast_bool split: if_splits)
qed

section \<open>Setters of strings\<close>

text \<open>
  A place of a configuration that holds a heap string: taking the string out leaves the rest of the
  blocks, and any allowed string may be put there.
\<close>

locale string_slot =
  fixes get :: "config_t \<Rightarrow> hstr option"
    and put :: "hstr option \<Rightarrow> config_t \<Rightarrow> config_t"
    and legal :: bool
    and allowed :: "string option \<Rightarrow> bool"
  assumes owned_put: "legal \<Longrightarrow> cfg_ok c \<Longrightarrow> \<exists>R. owned c = sblk (get c) + R \<and> (\<forall>p. owned (put p c) = sblk p + R)"
    and ok_put: "legal \<Longrightarrow> cfg_ok c \<Longrightarrow> allowed (str_of p) \<Longrightarrow> cfg_ok (put p c)"
    and get_put: "legal \<Longrightarrow> cfg_ok c \<Longrightarrow> get (put p c) = p"
    and allowed_None: "allowed None"
begin

lemma replace_keeps:
  assumes "legal" "cfg_ok c" "owns m (owned c + F)" "allowed s"
  obtains p m' where "c_replace (get c) s ok m = Some (p, m')" "owns m' (owned (put p c) + F)"
    "cfg_ok (put p c)" "str_of (get (put p c)) = (if ok then s else None)"
proof -
  obtain R where R: "owned c = sblk (get c) + R" "\<And>p. owned (put p c) = sblk p + R"
    using owned_put assms(1,2) by blast
  have "owns m (sblk (get c) + (R + F))"
    using assms(3) R(1) by (simp add: ac_simps)
  then obtain p m' where p: "c_replace (get c) s ok m = Some (p, m')" "owns m' (sblk p + (R + F))"
      "str_of p = (if ok then s else None)"
    by (rule owns_replace)
  show thesis
  proof (rule that)
    show "c_replace (get c) s ok m = Some (p, m')" by (rule p(1))
    show "owns m' (owned (put p c) + F)" using p(2) R(2) by (simp add: ac_simps)
    show "cfg_ok (put p c)" using ok_put assms p(3) allowed_None by simp
    show "str_of (get (put p c)) = (if ok then s else None)" using get_put assms(1,2) p(3) by simp
  qed
qed

end

interpretation prefix_slot: string_slot "\<lambda>c. mtc_prefix (c_mtc c)" "\<lambda>p c. c\<lparr>c_mtc := (c_mtc c)\<lparr>mtc_prefix := p\<rparr>\<rparr>"
  True "\<lambda>s. \<forall>t. s = Some t \<longrightarrow> t = [] \<or> last t = CHR ''.''"
proof unfold_locales
  fix c :: config_t
  show "\<exists>R. owned c = sblk (mtc_prefix (c_mtc c)) + R \<and>
            (\<forall>p. owned (c\<lparr>c_mtc := (c_mtc c)\<lparr>mtc_prefix := p\<rparr>\<rparr>) = sblk p + R)"
    by (rule exI [of _ "owned (c\<lparr>c_mtc := (c_mtc c)\<lparr>mtc_prefix := None\<rparr>\<rparr>)"]) (simp add: owned_def)
qed (simp_all add: cfg_ok_def mtc_ok_def)

interpretation commanddir_slot: string_slot c_commanddir "\<lambda>p c. c\<lparr>c_commanddir := p\<rparr>" True "\<lambda>s. True"
proof unfold_locales
  fix c :: config_t
  show "\<exists>R. owned c = sblk (c_commanddir c) + R \<and> (\<forall>p. owned (c\<lparr>c_commanddir := p\<rparr>) = sblk p + R)"
    by (rule exI [of _ "owned (c\<lparr>c_commanddir := None\<rparr>)"]) (simp add: owned_def)
qed (simp_all add: cfg_ok_def)

interpretation pay_dir_slot: string_slot c_pay_dir "\<lambda>p c. c\<lparr>c_pay_dir := p\<rparr>" True "\<lambda>s. True"
proof unfold_locales
  fix c :: config_t
  show "\<exists>R. owned c = sblk (c_pay_dir c) + R \<and> (\<forall>p. owned (c\<lparr>c_pay_dir := p\<rparr>) = sblk p + R)"
    by (rule exI [of _ "owned (c\<lparr>c_pay_dir := None\<rparr>)"]) (simp add: owned_def)
qed (simp_all add: cfg_ok_def)

interpretation authtoken_slot: string_slot c_authtoken "\<lambda>p c. c\<lparr>c_authtoken := p\<rparr>" True "\<lambda>s. True"
proof unfold_locales
  fix c :: config_t
  show "\<exists>R. owned c = sblk (c_authtoken c) + R \<and> (\<forall>p. owned (c\<lparr>c_authtoken := p\<rparr>) = sblk p + R)"
    by (rule exI [of _ "owned (c\<lparr>c_authtoken := None\<rparr>)"]) (simp add: owned_def)
qed (simp_all add: cfg_ok_def)

text \<open>Entries of the filter tables and members of the transports.\<close>

lemma sblks_Nil [simp]: "sblks [] = {#}"
  by (simp add: sblks_def)

lemma sblks_update:
  assumes "i < length ss"
  shows "sblks ss = sblk (ss ! i) + (sblks ss - sblk (ss ! i))"
    and "sblks (ss[i := p]) = sblk p + (sblks ss - sblk (ss ! i))"
  unfolding sblks_def by (rule sum_list_take_out [OF assms], rule sum_list_update(1) [OF assms])

interpretation value_slot: string_slot "\<lambda>c. evt_valuefilter (c_evt c) ! unat i"
  "\<lambda>p c. c\<lparr>c_evt := (c_evt c)\<lparr>evt_valuefilter := (evt_valuefilter (c_evt c))[unat i := p]\<rparr>\<rparr>"
  "i < watch_val CFG_SRC_MAX" "\<lambda>s. True" for i
proof unfold_locales
  fix c :: config_t assume *: "i < watch_val CFG_SRC_MAX" "cfg_ok c"
  then have i: "unat i < length (evt_valuefilter (c_evt c))"
    by (simp add: cfg_ok_def evt_ok_def word_less_nat_alt)
  note u = sblks_update [OF i]
  show "\<exists>R. owned c = sblk (evt_valuefilter (c_evt c) ! unat i) + R \<and>
          (\<forall>p. owned (c\<lparr>c_evt := (c_evt c)\<lparr>evt_valuefilter := (evt_valuefilter (c_evt c))[unat i := p]\<rparr>\<rparr>) = sblk p + R)"
    using u(1) unfolding owned_def evt_owned_def
    by (intro exI [of _ "owned (c\<lparr>c_evt := (c_evt c)\<lparr>evt_valuefilter := []\<rparr>\<rparr>) + (sblks (evt_valuefilter (c_evt c)) - sblk (evt_valuefilter (c_evt c) ! unat i))"])
       (simp add: u(2) owned_def evt_owned_def ac_simps)
  show "evt_valuefilter (c_evt (c\<lparr>c_evt := (c_evt c)\<lparr>evt_valuefilter := (evt_valuefilter (c_evt c))[unat i := p]\<rparr>\<rparr>)) ! unat i = p" for p
    using i by simp
qed (simp_all add: cfg_ok_def evt_ok_def)

interpretation field_slot: string_slot "\<lambda>c. evt_fieldfilter (c_evt c) ! unat i"
  "\<lambda>p c. c\<lparr>c_evt := (c_evt c)\<lparr>evt_fieldfilter := (evt_fieldfilter (c_evt c))[unat i := p]\<rparr>\<rparr>"
  "i < watch_val CFG_SRC_MAX" "\<lambda>s. True" for i
proof unfold_locales
  fix c :: config_t assume *: "i < watch_val CFG_SRC_MAX" "cfg_ok c"
  then have i: "unat i < length (evt_fieldfilter (c_evt c))"
    by (simp add: cfg_ok_def evt_ok_def word_less_nat_alt)
  note u = sblks_update [OF i]
  show "\<exists>R. owned c = sblk (evt_fieldfilter (c_evt c) ! unat i) + R \<and>
          (\<forall>p. owned (c\<lparr>c_evt := (c_evt c)\<lparr>evt_fieldfilter := (evt_fieldfilter (c_evt c))[unat i := p]\<rparr>\<rparr>) = sblk p + R)"
    using u(1) unfolding owned_def evt_owned_def
    by (intro exI [of _ "owned (c\<lparr>c_evt := (c_evt c)\<lparr>evt_fieldfilter := []\<rparr>\<rparr>) + (sblks (evt_fieldfilter (c_evt c)) - sblk (evt_fieldfilter (c_evt c) ! unat i))"])
       (simp add: u(2) owned_def evt_owned_def ac_simps)
  show "evt_fieldfilter (c_evt (c\<lparr>c_evt := (c_evt c)\<lparr>evt_fieldfilter := (evt_fieldfilter (c_evt c))[unat i := p]\<rparr>\<rparr>)) ! unat i = p" for p
    using i by simp
qed (simp_all add: cfg_ok_def evt_ok_def)

interpretation name_slot: string_slot "\<lambda>c. evt_namefilter (c_evt c) ! unat i"
  "\<lambda>p c. c\<lparr>c_evt := (c_evt c)\<lparr>evt_namefilter := (evt_namefilter (c_evt c))[unat i := p]\<rparr>\<rparr>"
  "i < watch_val CFG_SRC_MAX" "\<lambda>s. True" for i
proof unfold_locales
  fix c :: config_t assume *: "i < watch_val CFG_SRC_MAX" "cfg_ok c"
  then have i: "unat i < length (evt_namefilter (c_evt c))"
    by (simp add: cfg_ok_def evt_ok_def word_less_nat_alt)
  note u = sblks_update [OF i]
  show "\<exists>R. owned c = sblk (evt_namefilter (c_evt c) ! unat i) + R \<and>
          (\<forall>p. owned (c\<lparr>c_evt := (c_evt c)\<lparr>evt_namefilter := (evt_namefilter (c_evt c))[unat i := p]\<rparr>\<rparr>) = sblk p + R)"
    using u(1) unfolding owned_def evt_owned_def
    by (intro exI [of _ "owned (c\<lparr>c_evt := (c_evt c)\<lparr>evt_namefilter := []\<rparr>\<rparr>) + (sblks (evt_namefilter (c_evt c)) - sblk (evt_namefilter (c_evt c) ! unat i))"])
       (simp add: u(2) owned_def evt_owned_def ac_simps)
  show "evt_namefilter (c_evt (c\<lparr>c_evt := (c_evt c)\<lparr>evt_namefilter := (evt_namefilter (c_evt c))[unat i := p]\<rparr>\<rparr>)) ! unat i = p" for p
    using i by simp
qed (simp_all add: cfg_ok_def evt_ok_def)

lemma transport_slot:
  fixes get :: "transport_struct_t \<Rightarrow> hstr option"
  assumes "\<And>s p. tp_owned (upd p s) = sblk p + tp_owned (upd None s)" "\<And>s. upd (get s) s = s"
    "\<And>s p. get (upd p s) = p" "\<And>s p. tp_ok s \<Longrightarrow> tp_ok (upd p s)"
  shows "string_slot (\<lambda>c. get (c_transport c ! unat t)) (\<lambda>p. tp_upd (upd p) t) (t < which_val CFG_WHICH_MAX) (\<lambda>s. True)"
proof
  fix c :: config_t assume *: "t < which_val CFG_WHICH_MAX" "cfg_ok c"
  then have t: "unat t < length (c_transport c)"
    by (simp add: cfg_ok_def word_less_nat_alt)
  let ?s = "c_transport c ! unat t" and ?D = "owned (c\<lparr>c_transport := []\<rparr>)"
  let ?R = "?D + tp_owned (upd None ?s) + (sum_list (map tp_owned (c_transport c)) - tp_owned ?s)"
  have s: "tp_owned ?s = sblk (get ?s) + tp_owned (upd None ?s)"
    using assms(1) [of "get ?s" ?s] assms(2) by simp
  have "owned c = ?D + (tp_owned ?s + (sum_list (map tp_owned (c_transport c)) - tp_owned ?s))"
    using sum_list_take_out [OF t, of tp_owned] by (simp add: owned_def)
  then have "owned c = sblk (get ?s) + ?R"
    unfolding s by (simp only: ac_simps)
  moreover have "owned (tp_upd (upd p) t c) = sblk p + ?R" for p
    using t by (simp add: owned_def tp_upd_def sum_list_update(1) assms(1) [of p] ac_simps)
  ultimately show "\<exists>R. owned c = sblk (get ?s) + R \<and> (\<forall>p. owned (tp_upd (upd p) t c) = sblk p + R)"
    by blast
  show "get (c_transport (tp_upd (upd p) t c) ! unat t) = p" for p
    using t by (simp add: tp_upd_def assms(3))
  show "cfg_ok (tp_upd (upd p) t c)" for p
    using * t assms(4) all_update [of "c_transport c" tp_ok "upd p ?s" "unat t"]
    by (simp add: cfg_ok_def tp_upd_def)
qed simp

interpretation host_slot: string_slot "\<lambda>c. tp_host (c_transport c ! unat t)"
  "\<lambda>p. tp_upd (\<lambda>s. s\<lparr>tp_host := p\<rparr>) t" "t < which_val CFG_WHICH_MAX" "\<lambda>s. True" for t
  by (rule transport_slot) (simp_all add: tp_owned_def tp_ok_def ac_simps)

interpretation port_slot: string_slot "\<lambda>c. tp_port (c_transport c ! unat t)"
  "\<lambda>p. tp_upd (\<lambda>s. s\<lparr>tp_port := p\<rparr>) t" "t < which_val CFG_WHICH_MAX" "\<lambda>s. True" for t
  by (rule transport_slot) (simp_all add: tp_owned_def tp_ok_def ac_simps)

interpretation path_slot: string_slot "\<lambda>c. tp_path (c_transport c ! unat t)"
  "\<lambda>p. tp_upd (\<lambda>s. s\<lparr>tp_path := p\<rparr>) t" "t < which_val CFG_WHICH_MAX" "\<lambda>s. True" for t
  by (rule transport_slot) (simp_all add: tp_owned_def tp_ok_def ac_simps)

interpretation cacert_slot: string_slot "\<lambda>c. tp_tls_cacertpath (c_transport c ! unat t)"
  "\<lambda>p. tp_upd (\<lambda>s. s\<lparr>tp_tls_cacertpath := p\<rparr>) t" "t < which_val CFG_WHICH_MAX" "\<lambda>s. True" for t
  by (rule transport_slot) (simp_all add: tp_owned_def tp_ok_def ac_simps)


text \<open>The outcome of a setter that keeps the invariant and accounts for every block.\<close>

definition kept :: "block multiset \<Rightarrow> (config_t option \<times> amem) option \<Rightarrow> bool" where
  "kept F r \<longleftrightarrow> (\<exists>c m. r = Some (Some c, m) \<and> cfg_ok c \<and> owns m (owned c + F))"

lemma keptI: "r = Some (Some c, m) \<Longrightarrow> cfg_ok c \<Longrightarrow> owns m (owned c + F) \<Longrightarrow> kept F r"
  by (simp add: kept_def)

lemma keptE:
  assumes "kept F r" "r = Some (Some c, m)"
  shows "cfg_ok c" "owns m (owned c + F)"
  using assms by (simp_all add: kept_def)

lemma dotted_last: "dotted s \<noteq> [] \<Longrightarrow> last (dotted s) = CHR ''.''"
  by (simp add: dotted_def)

context string_slot
begin

lemma setter_kept:
  assumes "legal" "cfg_ok c" "owns m (owned c + F)" "allowed s"
  shows "kept F (do { (p, m) \<leftarrow> c_replace (get c) s ok m; Some (Some (put p c), m) })"
proof -
  obtain p m' where "c_replace (get c) s ok m = Some (p, m')" "owns m' (owned (put p c) + F)" "cfg_ok (put p c)"
    using replace_keeps [OF assms] .
  then show ?thesis by (simp add: kept_def)
qed

lemma setter_get:
  assumes "legal" "cfg_ok c" "owns m (owned c + F)" "allowed s"
    and "(do { (p, m) \<leftarrow> c_replace (get c) s ok m; Some (Some (put p c), m) }) = Some (Some c', m')"
  shows "str_of (get c') = (if ok then s else None)"
proof -
  obtain p m1 where "c_replace (get c) s ok m = Some (p, m1)" "str_of (get (put p c)) = (if ok then s else None)"
    using replace_keeps [OF assms(1-4)] .
  then show ?thesis using assms(5) by simp
qed

end

lemma cfgMtcStatsDPrefixSet_kept:
  assumes "cfg_ok c" "owns m (owned c + F)"
  shows "kept F (cfgMtcStatsDPrefixSet (Some c) s ok m)"
proof -
  let ?t = "case s of None \<Rightarrow> DEFAULT_STATSD_PREFIX | Some s \<Rightarrow> if s = [] then DEFAULT_STATSD_PREFIX else dotted s"
  have "?t = [] \<or> last ?t = CHR ''.''"
    using dotted_last by (auto simp: DEFAULT_STATSD_PREFIX_def split: option.split)
  then show ?thesis
    using prefix_slot.setter_kept [OF TrueI assms, of "Some ?t" ok] by (simp only: cfgMtcStatsDPrefixSet_def option.case option.inject) blast
qed

lemma cfgCmdDirSet_kept:
  assumes "cfg_ok c" "owns m (owned c + F)"
  shows "kept F (cfgCmdDirSet (Some c) s ok m)"
  using commanddir_slot.setter_kept [OF TrueI assms TrueI] by (simp add: cfgCmdDirSet_def)

lemma cfgPayDirSet_kept:
  assumes "cfg_ok c" "owns m (owned c + F)"
  shows "kept F (cfgPayDirSet (Some c) s ok m)"
  using pay_dir_slot.setter_kept [OF TrueI assms TrueI] by (simp add: cfgPayDirSet_def)

lemma cfgAuthTokenSet_kept:
  assumes "cfg_ok c" "owns m (owned c + F)"
  shows "kept F (cfgAuthTokenSet (Some c) s ok m)"
  using authtoken_slot.setter_kept [OF TrueI assms TrueI] by (simp add: cfgAuthTokenSet_def)

lemma cfgEvtFormatValueFilterSet_kept:
  assumes "cfg_ok c" "owns m (owned c + F)"
  shows "kept F (cfgEvtFormatValueFilterSet (Some c) i s ok m)"
  using value_slot.setter_kept [OF _ assms TrueI, of i] assms by (auto simp: cfgEvtFormatValueFilterSet_def not_le intro: keptI)

lemma cfgEvtFormatFieldFilterSet_kept:
  assumes "cfg_ok c" "owns m (owned c + F)"
  shows "kept F (cfgEvtFormatFieldFilterSet (Some c) i s ok m)"
  using field_slot.setter_kept [OF _ assms TrueI, of i] assms by (auto simp: cfgEvtFormatFieldFilterSet_def not_le intro: keptI)

lemma cfgEvtFormatNameFilterSet_kept:
  assumes "cfg_ok c" "owns m (owned c + F)"
  shows "kept F (cfgEvtFormatNameFilterSet (Some c) i s ok m)"
  using name_slot.setter_kept [OF _ assms TrueI, of i] assms by (auto simp: cfgEvtFormatNameFilterSet_def not_le intro: keptI)

lemma cfgTransportHostSet_kept:
  assumes "cfg_ok c" "owns m (owned c + F)"
  shows "kept F (cfgTransportHostSet (Some c) i s ok m)"
  using host_slot.setter_kept [OF _ assms TrueI, of i] assms by (auto simp: cfgTransportHostSet_def not_le intro: keptI)

lemma cfgTransportPortSet_kept:
  assumes "cfg_ok c" "owns m (owned c + F)"
  shows "kept F (cfgTransportPortSet (Some c) i s ok m)"
  using port_slot.setter_kept [OF _ assms TrueI, of i] assms by (auto simp: cfgTransportPortSet_def not_le intro: keptI)

lemma cfgTransportPathSet_kept:
  assumes "cfg_ok c" "owns m (owned c + F)"
  shows "kept F (cfgTransportPathSet (Some c) i s ok m)"
  using path_slot.setter_kept [OF _ assms TrueI, of i] assms by (auto simp: cfgTransportPathSet_def not_le intro: keptI)

lemma cfgTransportTlsCACertPathSet_kept:
  assumes "cfg_ok c" "owns m (owned c + F)"
  shows "kept F (cfgTransportTlsCACertPathSet (Some c) i s ok m)"
  using cacert_slot.setter_kept [OF _ assms TrueI, of i] assms by (auto simp: cfgTransportTlsCACertPathSet_def not_le intro: keptI)

section \<open>Headers\<close>

lemma owns_new_header:
  assumes "owns m B" "new_header regcomp pat ok2 ok3 m = (h, m')"
  shows "owns m' (he_owned h + B)"
proof -
  obtain p m1 where p: "am_alloc ok2 m = (p, m1)" by fastforce
  have m1: "owns m1 (blk p + B)" using owns_alloc assms(1) p .
  obtain f m2 where f: "c_strdup pat ok3 m1 = (f, m2)" by fastforce
  have m2: "owns m2 (sblk f + (blk p + B))" using owns_strdup(1) [OF m1 f] .
  show ?thesis
    using assms(2) p f m1 m2
    by (auto simp: new_header_def he_owned_def ac_simps split: option.splits if_splits)
qed

lemma header_count:
  fixes n :: u64
  assumes "n < 0x1000000000000000"
  shows "unat (n + 1) = Suc (unat n)" "(n + 1) * 8 < 0x8000000000000000 \<Longrightarrow> n + 1 < 0x1000000000000000"
proof -
  show 1: "unat (n + 1) = Suc (unat n)" using assms by (rule unat_Suc_less)
  have "unat n < 0x1000000000000000" using assms by (simp add: word_less_nat_alt)
  then have "unat ((n + 1) * 8) = Suc (unat n) * 8"
    by (subst unat_word_ariths(2)) (simp add: 1)
  then show "(n + 1) * 8 < 0x8000000000000000 \<Longrightarrow> n + 1 < 0x1000000000000000"
    using 1 by (simp add: word_less_nat_alt)
qed

lemma aset_realloc_push: "length xs = n \<Longrightarrow> aset (c_realloc None (Suc n) xs) (int n) x = Some (xs @ [x])"
  by (simp add: aset_nat c_realloc_def list_update_append)

lemma cfgEvtFormatHeaderSet_kept:
  assumes "cfg_ok c" "owns m (owned c + F)"
  shows "kept F (cfgEvtFormatHeaderSet regcomp (Some c) s ok1 ok2 ok3 m)"
proof (cases s)
  case None
  with assms show ?thesis by (simp add: cfgEvtFormatHeaderSet_def kept_def)
next
  case (Some pat)
  let ?n = "evt_numHeaders (c_evt c)" and ?arr = "evt_hextract (c_evt c)"
  let ?hs = "case ?arr of None \<Rightarrow> [] | Some (b, hs) \<Rightarrow> hs"
  let ?D = "owned (c\<lparr>c_evt := (c_evt c)\<lparr>evt_hextract := None\<rparr>\<rparr>)"
  have n: "?n < 0x1000000000000000" "length ?hs = unat ?n"
    using assms(1) by (auto simp: cfg_ok_def evt_ok_def headers_ok_def split: option.splits)
  have owned_c: "owned c = blk (map_option fst ?arr) + (sum_list (map he_owned ?hs) + ?D)"
    by (simp add: owned_def evt_owned_def arr_owned_def split: option.split)
  have "owns m (blk (map_option fst ?arr) + (sum_list (map he_owned ?hs) + ?D + F))"
    using assms(2) by (simp add: owned_c ac_simps)
  then show ?thesis
  proof (cases rule: owns_realloc [where sz = "(?n + 1) * 8" and ok = ok1])
    case (1 m')
    with assms Some show ?thesis by (simp add: cfgEvtFormatHeaderSet_def kept_def)
  next
    case (2 b m')
    obtain h m2 where h: "new_header regcomp pat ok2 ok3 m' = (h, m2)" by fastforce
    have m2: "owns m2 (he_owned h + add_mset b (sum_list (map he_owned ?hs) + ?D + F))"
      using owns_new_header [OF 2(2) h] .
    have arr: "aset (c_realloc None (unat (?n + 1)) ?hs) (uint ?n) h = Some (?hs @ [h])"
      unfolding header_count(1) [OF n(1)] uint_nat by (rule aset_realloc_push [OF n(2)])
    show ?thesis
    proof (rule keptI)
      let ?c' = "c\<lparr>c_evt := (c_evt c)\<lparr>evt_hextract := Some (b, ?hs @ [h]), evt_numHeaders := ?n + 1\<rparr>\<rparr>"
      show "cfgEvtFormatHeaderSet regcomp (Some c) s ok1 ok2 ok3 m = Some (Some ?c', m2)"
        using 2(1) arr h Some by (simp add: cfgEvtFormatHeaderSet_def)
      show "cfg_ok ?c'"
        using assms(1) n header_count [OF n(1)] 2(4) by (simp add: cfg_ok_def evt_ok_def headers_ok_def)
      show "owns m2 (owned ?c' + F)"
        using m2 by (simp add: owned_def evt_owned_def arr_owned_def ac_simps add_mset_commute)
    qed
  qed
qed

end
