(* ===== verification/Cfg_Tags.thy ===== *)
theory Cfg_Tags
  imports Cfg_Safety
begin

text \<open>
  The custom tags of a configuration: an array of pointers with a delimiting empty entry that grows
  by doubling. The lemmas describe what \<open>cfgCustomTagAdd\<close> leaves for every outcome of its allocations,
  through the list of names and values that the array holds.
\<close>

section \<open>Custom tags\<close>

text \<open>The tags of an array, up to the first empty entry, and their names and values.\<close>

definition tag_list_of :: "tag_t option list \<Rightarrow> tag_t list" where
  "tag_list_of ts = map the (takeWhile (\<lambda>t. t \<noteq> None) ts)"

definition tags_of :: "config_t \<Rightarrow> (string \<times> string) list" where
  "tags_of c = (case c_tags c of
       None \<Rightarrow> []
     | Some (b, ts) \<Rightarrow> map (\<lambda>t. (snd (tg_name t), snd (tg_value t))) (tag_list_of ts))"

fun update_first :: "string \<Rightarrow> string \<Rightarrow> (string \<times> string) list \<Rightarrow> (string \<times> string) list" where
  "update_first k v [] = []"
| "update_first k v ((k', v') # kvs) = (if k = k' then (k', v) # kvs else (k', v') # update_first k v kvs)"

abbreviation tag_array :: "tag_t list \<Rightarrow> nat \<Rightarrow> tag_t option list" where
  "tag_array us k \<equiv> map Some us @ replicate (Suc k) None"

lemma tag_list_of_array [simp]: "tag_list_of (tag_array us k) = us"
  by (induction us) (simp_all add: tag_list_of_def)

lemma tag_free_slot_array [simp]: "tag_free_slot (tag_array us k) = length us"
  by (induction us) simp_all

fun tag_index :: "string \<Rightarrow> tag_t list \<Rightarrow> nat option" where
  "tag_index nm [] = None"
| "tag_index nm (u # us) = (if nm = snd (tg_name u) then Some 0 else map_option Suc (tag_index nm us))"

lemma tag_scan_array: "tag_scan (tag_array us k) nm i = Some (map_option ((+) i) (tag_index nm us))"
  by (induction us arbitrary: i) (auto simp: option.map_comp comp_def intro!: option.map_cong0)

lemma tag_index_Some: "tag_index nm us = Some i \<Longrightarrow> i < length us \<and> snd (tg_name (us ! i)) = nm"
  by (induction us arbitrary: i) (auto split: if_splits)

lemma tag_index_None: "tag_index nm us = None \<longleftrightarrow> nm \<notin> (\<lambda>u. snd (tg_name u)) ` set us"
  by (induction us) auto

abbreviation tag_pair :: "tag_t \<Rightarrow> string \<times> string" where
  "tag_pair t \<equiv> (snd (tg_name t), snd (tg_value t))"

lemma tag_index_update:
  "tag_index nm us = Some i \<Longrightarrow>
   map tag_pair (us[i := (us ! i)\<lparr>tg_value := (b, v)\<rparr>]) = update_first nm v (map tag_pair us)"
  by (induction us arbitrary: i) (auto split: if_splits)

lemma tag_index_map_of: "map_of (map tag_pair us) nm = map_option (\<lambda>i. snd (tg_value (us ! i))) (tag_index nm us)"
  by (induction us) (auto simp: option.map_comp comp_def)

lemma map_of_update_first:
  "map_of (update_first k v kvs) x = (if x = k \<and> k \<in> fst ` set kvs then Some v else map_of kvs x)"
  by (induction k v kvs rule: update_first.induct) (auto simp: map_of_eq_None_iff rev_image_eqI)

text \<open>A configuration without its tags, and with them.\<close>

lemma owned_tags: "owned (c\<lparr>c_tags := arr\<rparr>) = arr_owned tg_owned arr + owned (c\<lparr>c_tags := None\<rparr>)"
  by (simp add: owned_def arr_owned_def)

lemma owned_max_tags: "owned (c\<lparr>c_tags := arr, c_max_tags := n\<rparr>) = owned (c\<lparr>c_tags := arr\<rparr>)"
  by (simp add: owned_def)

lemma owned_tags_self: "owned c = arr_owned tg_owned (c_tags c) + owned (c\<lparr>c_tags := None\<rparr>)"
  using owned_tags [where c = c and arr = "c_tags c"] by simp

lemma cfg_ok_tags: "cfg_ok c \<Longrightarrow> tags_ok n arr \<Longrightarrow> cfg_ok (c\<lparr>c_tags := arr, c_max_tags := n\<rparr>)"
  by (simp add: cfg_ok_def)

lemma cfg_ok_tags': "cfg_ok c \<Longrightarrow> tags_ok (c_max_tags c) arr \<Longrightarrow> cfg_ok (c\<lparr>c_tags := arr\<rparr>)"
  by (simp add: cfg_ok_def)

lemma tags_okI:
  "8 \<le> n \<Longrightarrow> n < 0x80000000 \<Longrightarrow> length us + Suc k = unat n \<Longrightarrow> tags_ok n (Some (b, tag_array us k))"
  unfolding tags_ok_def by auto

lemma cfg_ok_max: "cfg_ok c \<Longrightarrow> 8 \<le> c_max_tags c \<and> c_max_tags c < 0x80000000"
  by (simp add: cfg_ok_def tags_ok_def)

lemma cfg_ok_array:
  assumes "cfg_ok c" "c_tags c = Some (b, ts)"
  obtains us k where "ts = tag_array us k" "length us + Suc k = unat (c_max_tags c)" "tags_of c = map tag_pair us"
proof -
  obtain us k where ts: "ts = tag_array us k" "length ts = unat (c_max_tags c)"
    using assms by (auto simp: cfg_ok_def tags_ok_def)
  show thesis
    using that [OF ts(1)] ts assms(2) by (simp add: tags_of_def del: replicate_Suc)
qed

text \<open>The pieces of \<open>cfgCustomTagAdd\<close>.\<close>

lemma tag_replace_kept:
  assumes "cfg_ok c" "owns m (add_mset b (owned c + F))" "c_tags c = Some (tb, tag_array us k)"
    and "tag_index nm us = Some i"
  obtains c' m' where "tag_replace c i (b, v) m = Some (c', m')" "cfg_ok c'" "owns m' (owned c' + F)"
    "tags_of c' = update_first nm v (map tag_pair us)"
proof -
  have i: "i < length us" using tag_index_Some [OF assms(4)] by simp
  let ?t = "us ! i" and ?D = "owned (c\<lparr>c_tags := None\<rparr>)"
  let ?ts = "tag_array (us[i := ?t\<lparr>tg_value := (b, v)\<rparr>]) k"
  let ?R = "sum_list (map tg_owned (tag_array us k)) - tg_owned (Some ?t)"
  let ?c' = "c\<lparr>c_tags := Some (tb, ?ts)\<rparr>"
  have nth: "tag_array us k ! i = Some ?t" and upd: "(tag_array us k)[i := Some (?t\<lparr>tg_value := (b, v)\<rparr>)] = ?ts"
    using i by (simp_all add: nth_append list_update_append map_update)
  have li: "i < length (tag_array us k)" using i by simp
  have "sum_list (map tg_owned (tag_array us k)) = tg_owned (Some ?t) + ?R"
    using sum_list_take_out [OF li, of tg_owned] unfolding nth .
  then have "owned c = add_mset tb (tg_owned (Some ?t) + ?R + ?D)"
    by (subst owned_tags_self) (simp add: assms(3) arr_owned_def)
  then have "owns m (add_mset (fst (tg_value ?t))
      ({#tg_block ?t, fst (tg_name ?t), b, tb#} + (?R + ?D + F)))"
    using assms(2) by (simp add: tg_owned_def ac_simps add_mset_commute)
  then obtain m' where m': "am_free (fst (tg_value ?t)) m = Some m'"
      "owns m' ({#tg_block ?t, fst (tg_name ?t), b, tb#} + (?R + ?D + F))"
    by (rule owns_free)
  have "sum_list (map tg_owned ?ts) = tg_owned (Some (?t\<lparr>tg_value := (b, v)\<rparr>)) + ?R"
    using sum_list_update(1) [OF li, of tg_owned "Some (?t\<lparr>tg_value := (b, v)\<rparr>)"] unfolding upd nth .
  then have "owned ?c' = {#tg_block ?t, fst (tg_name ?t), b, tb#} + (?R + ?D)"
    by (subst owned_tags) (simp add: arr_owned_def tg_owned_def ac_simps add_mset_commute)
  then have "owns m' (owned ?c' + F)"
    using m'(2) by (simp add: ac_simps)
  moreover have "tag_replace c i (b, v) m = Some (?c', m')"
    using assms(3) i nth upd m'(1) by (simp add: tag_replace_def aget_nat)
  moreover have "cfg_ok ?c'"
    using assms(1,3) by (intro cfg_ok_tags') (auto simp: cfg_ok_def tags_ok_def)
  moreover have "tags_of ?c' = update_first nm v (map tag_pair us)"
    using tag_index_update [OF assms(4)] by (simp add: tags_of_def del: replicate_Suc)
  ultimately show thesis using that by blast
qed

lemma tg_owned_None [simp]: "tg_owned None = {#}"
  by (simp add: tg_owned_def)

lemma tg_owned_Some [simp]: "tg_owned (Some t) = {#tg_block t, fst (tg_name t), fst (tg_value t)#}"
  by (simp add: tg_owned_def)

lemma sum_list_replicate_empty [simp]: "sum_list (replicate j {#}) = {#}"
  by (induction j) simp_all

lemma tag_first_kept:
  assumes "cfg_ok c" "owns m (owned c + F)" "tag_first c ok m = (c', m')"
  shows "cfg_ok c'" "owns m' (owned c' + F)" "tags_of c' = tags_of c" "c_max_tags c' = c_max_tags c"
    "c_tags c' = None \<longleftrightarrow> c_tags c = None \<and> \<not> ok"
proof -
  have n: "8 \<le> c_max_tags c" "c_max_tags c < 0x80000000" using assms(1) by (simp_all add: cfg_ok_def tags_ok_def)
  then obtain k where k: "unat (c_max_tags c) = Suc k"
    by (cases "unat (c_max_tags c)") (simp_all add: word_le_nat_alt)
  have rep: "replicate (unat (c_max_tags c)) None = tag_array [] k" by (simp add: k)
  obtain p m1 where p: "am_alloc ok m = (p, m1)" "p = None \<longleftrightarrow> \<not> ok" by (cases ok) (simp_all add: am_alloc_def)
  have "cfg_ok c' \<and> owns m' (owned c' + F) \<and> tags_of c' = tags_of c \<and> c_max_tags c' = c_max_tags c \<and>
      (c_tags c' = None \<longleftrightarrow> c_tags c = None \<and> \<not> ok)"
  proof (cases "c_tags c = None \<and> ok")
    case True
    then obtain b where b: "p = Some b" using p(2) by auto
    have c': "c' = c\<lparr>c_tags := Some (b, tag_array [] k)\<rparr>" "m' = m1"
      using assms(3) True p(1) b rep by (simp_all add: tag_first_def)
    have "cfg_ok c'"
      unfolding c' using assms(1) n k by (intro cfg_ok_tags' tags_okI) simp_all
    moreover have "owned c' = add_mset b (owned c)"
      unfolding c' using True owned_tags_self [of c] by (subst owned_tags) (simp add: arr_owned_def)
    then have "owns m' (owned c' + F)"
      using owns_alloc [OF assms(2) p(1)] by (simp add: c' b)
    ultimately show ?thesis
      using True by (simp add: c' tags_of_def tag_list_of_def)
  next
    case False
    then have "c' = c" "m' = m"
      using assms(3) by (auto simp: tag_first_def am_alloc_def split: option.splits)
    with assms(1,2) False show ?thesis by auto
  qed
  then show "cfg_ok c'" "owns m' (owned c' + F)" "tags_of c' = tags_of c" "c_max_tags c' = c_max_tags c"
    "c_tags c' = None \<longleftrightarrow> c_tags c = None \<and> \<not> ok" by simp_all
qed

text \<open>Doubling the array: up to \<open>2 ^ 30\<close> entries the new size is exact; beyond, the request is refused.\<close>

lemma times_8: "(8 :: u64) * word_of_int x = word_of_int (8 * x)"
  by simp

lemma uint_of_int64: "uint (word_of_int x :: u64) = x mod 2 ^ 64"
  by (simp add: uint_word_of_int)

lemma uint_of_int32: "uint (word_of_int x :: u32) = x mod 2 ^ 32"
  by (simp add: uint_word_of_int)

lemma uint_twice:
  fixes n :: u32
  assumes "uint n < 0x80000000"
  shows "uint (n * 2) = 2 * uint n"
  using assms uint_ge_0 [of n] by (simp add: uint_word_ariths)

lemma size_small: "0 \<le> x \<Longrightarrow> x < 0x80000000 \<Longrightarrow> (8 :: u64) * word_of_int x < 0x8000000000000000"
  unfolding times_8 word_less_def uint_of_int64 by simp

lemma size_negative:
  assumes "- 0x80000000 \<le> x" "x < 0"
  shows "(8 :: u64) * word_of_int x \<ge> 0x8000000000000000"
proof -
  have "8 * x mod 2 ^ 64 = 8 * x + 2 ^ 64"
    using assms by (intro mod_pos_pos_trivial [of "8 * x + 2 ^ 64" "2 ^ 64", unfolded mod_add_self2]) simp_all
  then show ?thesis
    using assms unfolding times_8 word_le_def uint_of_int64 by simp
qed

lemma to_int32_small: "0 \<le> x \<Longrightarrow> x < 0x80000000 \<Longrightarrow> to_int32 x = x"
  by (simp add: to_int32_def)

lemma to_int32_large:
  assumes "0x80000000 \<le> x" "x < 0x100000000"
  shows "to_int32 x = x - 0x100000000"
proof -
  have "(x + 0x80000000) mod 0x100000000 = x - 0x80000000"
    using assms mod_pos_pos_trivial [of "x - 0x80000000" "0x100000000"]
      mod_add_self2 [of "x - 0x80000000" "0x100000000"] by (simp add: algebra_simps)
  then show ?thesis by (simp add: to_int32_def)
qed

lemma grow_exact:
  fixes n :: u32
  assumes "n < 0x40000000"
  shows "to_int32 (uint (n * 2)) = 2 * uint n" "(8 :: u64) * word_of_int (2 * uint n) < 0x8000000000000000"
    "unat (word_of_int (2 * uint n) :: u32) = 2 * unat n" "word_of_int (2 * uint n) < (0x80000000 :: u32)"
proof -
  have n: "0 \<le> uint n" "uint n < 0x40000000" using assms by (simp_all add: word_less_def)
  then show "to_int32 (uint (n * 2)) = 2 * uint n"
    by (simp add: uint_twice to_int32_small)
  show "(8 :: u64) * word_of_int (2 * uint n) < 0x8000000000000000"
    using n by (intro size_small) simp_all
  have u: "uint (word_of_int (2 * uint n) :: u32) = 2 * uint n"
    using n unfolding uint_of_int32 by simp
  show "unat (word_of_int (2 * uint n) :: u32) = 2 * unat n"
    using arg_cong [OF u, of nat] by (simp add: nat_mult_distrib)
  show "word_of_int (2 * uint n) < (0x80000000 :: u32)"
    unfolding word_less_def u using n by simp
qed

lemma grow_refused:
  fixes n :: u32
  assumes "\<not> n < 0x40000000" "n < 0x80000000"
  shows "(8 :: u64) * word_of_int (to_int32 (uint (n * 2))) \<ge> 0x8000000000000000"
proof -
  have n: "0x40000000 \<le> uint n" "uint n < 0x80000000"
    using assms by (simp_all add: word_less_def)
  then have "to_int32 (uint (n * 2)) = 2 * uint n - 0x100000000"
    by (simp add: uint_twice to_int32_large)
  then show ?thesis
    using n size_negative [of "2 * uint n - 0x100000000"] by simp
qed

lemma tag_grow_kept:
  assumes "cfg_ok c" "owns m (owned c + F)" "c_tags c = Some (b, tag_array us k)"
  obtains c' m' where "tag_grow c (length us) ok m = Some (False, c', m')" "c' = c" "m' = m"
      "k = 0" "\<not> (ok \<and> c_max_tags c < 0x40000000)"
    | c' m' b' k' where "tag_grow c (length us) ok m = Some (True, c', m')" "cfg_ok c'" "owns m' (owned c' + F)"
      "c_tags c' = Some (b', tag_array us (Suc k'))" "k \<noteq> 0 \<or> ok \<and> c_max_tags c < 0x40000000"
proof -
  let ?n = "c_max_tags c"
  have n: "8 \<le> ?n" "?n < 0x80000000" using cfg_ok_max [OF assms(1)] by simp_all
  have len: "length us + Suc k = unat ?n"
    using assms(1,3) by (auto simp: cfg_ok_def tags_ok_def)
  have full: "word_of_nat (length us) \<ge> ?n - 1 \<longleftrightarrow> k = 0"
  proof -
    have "unat (?n - 1) = unat ?n - 1"
      using n by (simp add: unat_sub word_le_nat_alt)
    moreover have "unat (word_of_nat (length us) :: u32) = length us"
      using len unsigned_less [of ?n, where ?'a = nat] by (simp add: unat_of_nat)
    ultimately show ?thesis
      using len by (simp add: word_le_nat_alt) linarith
  qed
  let ?D = "owned (c\<lparr>c_tags := None\<rparr>)" and ?S = "sum_list (map tg_owned (tag_array us k))"
  have "owns m (blk (map_option fst (c_tags c)) + (?S + ?D + F))"
    using assms(2,3) owned_tags_self [of c] by (simp add: arr_owned_def ac_simps)
  note re = owns_realloc [OF this, of "8 * word_of_int (to_int32 (uint (?n * 2)))" ok]
  show thesis
  proof (cases "k = 0")
    case False
    then obtain k' where "k = Suc k'" by (cases k) auto
    with False full assms that(2) show ?thesis by (auto simp: tag_grow_def)
  next
    case True
    show ?thesis
    proof (cases rule: re)
      case (1 m')
      have "\<not> (ok \<and> ?n < 0x40000000)"
        using 1(4) grow_exact(1,2) [of ?n] by auto
      with 1 True full that(1) show ?thesis by (simp add: tag_grow_def)
    next
      case (2 b' m')
      have small: "?n < 0x40000000" using 2(4) grow_refused [of ?n] n(2) by (meson not_le)
      note g = grow_exact [OF small]
      let ?c' = "c\<lparr>c_tags := Some (b', tag_array us (unat ?n)), c_max_tags := word_of_int (2 * uint ?n)\<rparr>"
      have arr: "c_realloc None (nat (2 * uint ?n)) (tag_array us k) = tag_array us (unat ?n)"
        using len True by (simp add: c_realloc_def nat_mult_distrib)
      show ?thesis
      proof (rule that(2))
        show "tag_grow c (length us) ok m = Some (True, ?c', m')"
          using 2(1) full True assms(3) arr by (simp add: tag_grow_def g(1) del: replicate_Suc)
        show "cfg_ok ?c'"
          using assms(1) n g(3,4) len True
          by (intro cfg_ok_tags tags_okI) (simp_all add: word_le_nat_alt)
        show "owns m' (owned ?c' + F)"
          using 2(2) unfolding owned_max_tags
          by (subst owned_tags) (simp add: arr_owned_def True ac_simps)
        show "c_tags ?c' = Some (b', tag_array us (Suc (unat ?n - 1)))"
          using n by (simp add: word_le_nat_alt)
      qed (use 2(3) small in simp)
    qed
  qed
qed

lemma tag_store_kept:
  assumes "cfg_ok c" "owns m (owned c + F)" "c_tags c = Some (b, tag_array us (Suc k))"
  obtains c' m' where "tag_store c (length us) nm v ok3 ok4 ok5 m = Some (c', m')" "cfg_ok c'"
    "owns m' (owned c' + F)"
    "tags_of c' = (if ok3 \<and> ok4 \<and> ok5 then map tag_pair us @ [(nm, v)] else map tag_pair us)"
proof -
  obtain t m1 where t: "am_alloc ok3 m = (t, m1)" "t = None \<longleftrightarrow> \<not> ok3"
    by (cases ok3) (simp_all add: am_alloc_def)
  obtain n m2 where n: "c_strdup nm ok4 m1 = (n, m2)" by fastforce
  obtain w m3 where w: "c_strdup v ok5 m2 = (w, m3)" by fastforce
  note o1 = owns_alloc [OF assms(2) t(1)]
  note o2 = owns_strdup [OF o1 n]
  note o3 = owns_strdup [OF o2(1) w]
  show thesis
  proof (cases "ok3 \<and> ok4 \<and> ok5")
    case True
    then obtain tb nb wb where bs: "t = Some tb" "n = Some (nb, nm)" "w = Some (wb, v)"
      using t(2) o2(2) o3(2) by (auto simp: str_of_def)
    let ?u = "\<lparr>tg_block = tb, tg_name = (nb, nm), tg_value = (wb, v)\<rparr>"
    let ?c' = "c\<lparr>c_tags := Some (b, tag_array (us @ [?u]) k)\<rparr>"
    show ?thesis
    proof (rule that)
      show "tag_store c (length us) nm v ok3 ok4 ok5 m = Some (?c', m3)"
        using assms(3) t(1) n w bs by (simp add: tag_store_def aset_nat list_update_append)
      show "cfg_ok ?c'"
        using assms(1,3) cfg_ok_max [OF assms(1)]
        by (intro cfg_ok_tags' tags_okI) (auto simp: cfg_ok_def tags_ok_def)
      show "owns m3 (owned ?c' + F)"
        using o3(1) owned_tags_self [of c] assms(3)
        by (subst owned_tags) (simp add: arr_owned_def bs tg_owned_def ac_simps add_mset_commute)
      show "tags_of ?c' = (if ok3 \<and> ok4 \<and> ok5 then map tag_pair us @ [(nm, v)] else map tag_pair us)"
        using True tag_list_of_array [of "us @ [?u]" k] by (simp add: tags_of_def)
    qed
  next
    case False
    have "owns m3 (blk t + (sblk n + (sblk w + (owned c + F))))"
      using o3(1) by (simp add: ac_simps)
    then obtain m4 where m4: "am_free_opt t m3 = Some m4" "owns m4 (sblk n + (sblk w + (owned c + F)))"
      by (rule owns_free_opt)
    then obtain m5 where m5: "free_str n m4 = Some m5" "owns m5 (sblk w + (owned c + F))"
      unfolding free_str_def sblk_def [of n] by - (erule owns_free_opt)
    then obtain m6 where m6: "free_str w m5 = Some m6" "owns m6 (owned c + F)"
      unfolding free_str_def sblk_def [of w] by - (erule owns_free_opt)
    have "t = None \<or> n = None \<or> w = None"
      using False t(2) o2(2) o3(2) by (auto simp: str_of_def split: if_splits)
    then have "tag_store c (length us) nm v ok3 ok4 ok5 m = Some (c, m6)"
      using t(1) n w m4(1) m5(1) m6(1) by (auto simp: tag_store_def split: option.split)
    moreover have "tags_of c = map tag_pair us"
      using assms(3) by (simp add: tags_of_def del: replicate_Suc)
    ultimately show ?thesis
      using that [of c m6] assms(1) m6(2) False by simp
  qed
qed

text \<open>What \<open>cfgCustomTagAdd\<close> leaves, for every outcome of its allocations.\<close>

definition tag_added :: "config_t \<Rightarrow> string \<Rightarrow> string \<Rightarrow> (nat \<Rightarrow> bool) \<Rightarrow> (string \<times> string) list" where
  "tag_added c nm v ok =
     (if nm \<in> fst ` set (tags_of c) \<and> ok 0 then update_first nm v (tags_of c)
      else if (c_tags c \<noteq> None \<or> ok 1) \<and>
              (length (tags_of c) + 1 < unat (c_max_tags c) \<or> ok 2 \<and> c_max_tags c < 0x40000000) \<and>
              ok 3 \<and> ok 4 \<and> ok 5
      then tags_of c @ [(nm, v)]
      else tags_of c)"

lemma map_option_plus_0: "map_option ((+) 0) (x :: nat option) = x"
  by (cases x) simp_all

lemma cfgCustomTag_index:
  assumes "cfg_ok c"
  shows "cfgCustomTag (Some c) (Some nm) =
    Some (case c_tags c of None \<Rightarrow> None | Some (b, ts) \<Rightarrow> tag_index nm (tag_list_of ts))"
proof (cases "c_tags c")
  case (Some p)
  obtain b ts where p: "p = (b, ts)" by fastforce
  obtain us k where "ts = tag_array us k" using cfg_ok_array assms Some p by metis
  then show ?thesis
    using Some p tag_scan_array [of us k nm 0] map_option_plus_0 [of "tag_index nm us"]
    by (simp add: cfgCustomTag_def del: replicate_Suc map_append)
qed (simp add: cfgCustomTag_def)

lemma tag_new_kept:
  assumes "cfg_ok c" "owns m (owned c + F)" "\<not> (nm \<in> fst ` set (tags_of c) \<and> ok 0)"
  obtains c' m' where
    "tag_new c nm v ok m = Some (Some c', m')"
    "cfg_ok c'" "owns m' (owned c' + F)" "tags_of c' = tag_added c nm v ok"
proof -
  obtain c1 m1 where f: "tag_first c (ok 1) m = (c1, m1)" by fastforce
  note k1 = tag_first_kept [OF assms(1,2) f]
  show thesis
  proof (cases "c_tags c1")
    case None
    show ?thesis
      using that [of c1 m1] k1 assms(3) None f by (simp add: tag_new_def tag_added_def del: One_nat_def)
  next
    case (Some p)
    obtain b ts where p: "p = (b, ts)" by fastforce
    obtain us k where u: "ts = tag_array us k" "length us + Suc k = unat (c_max_tags c1)" "tags_of c1 = map tag_pair us"
      using cfg_ok_array [OF k1(1) Some [unfolded p]] .
    then have a: "c_tags c1 = Some (b, tag_array us k)" "length us + Suc k = unat (c_max_tags c)"
        "tags_of c = map tag_pair us"
      using Some p k1(3,4) by simp_all
    have added: "tag_added c nm v ok =
        (if (k \<noteq> 0 \<or> ok 2 \<and> c_max_tags c < 0x40000000) \<and> ok 3 \<and> ok 4 \<and> ok 5
         then map tag_pair us @ [(nm, v)] else map tag_pair us)"
      using assms(3) k1(5) a Some by (auto simp: tag_added_def)
    from k1(1,2) a(1) show ?thesis
    proof (cases rule: tag_grow_kept [where ok = "ok 2"])
      case (1 c2 m2)
      show ?thesis
        by (rule that [of c1 m1])
           (use 1(4,5) k1 in \<open>auto simp: 1(1) [unfolded 1(2,3)] a added f tag_new_def Let_def simp del: replicate_Suc One_nat_def\<close>)
    next
      case (2 c2 m2 b2 k2)
      obtain c3 m3 where s: "tag_store c2 (length us) nm v (ok 3) (ok 4) (ok 5) m2 = Some (c3, m3)"
          "cfg_ok c3" "owns m3 (owned c3 + F)"
          "tags_of c3 = (if ok 3 \<and> ok 4 \<and> ok 5 then map tag_pair us @ [(nm, v)] else map tag_pair us)"
        using tag_store_kept [OF 2(2,3,4)] .
      show ?thesis
        by (rule that [of c3 m3]) (use 2(5) k1(4) in \<open>simp_all add: 2(1) a s added f tag_new_def Let_def del: replicate_Suc One_nat_def\<close>)
    qed
  qed
qed

lemma cfgCustomTagAdd_spec:
  assumes "cfg_ok c" "owns m (owned c + F)"
  obtains c' m' where "cfgCustomTagAdd (Some c) (Some nm) (Some v) ok m = Some (Some c', m')"
    "cfg_ok c'" "owns m' (owned c' + F)" "tags_of c' = tag_added c nm v ok"
proof (cases "nm \<in> fst ` set (tags_of c) \<and> ok 0")
  case True
  then obtain b ts where ts: "c_tags c = Some (b, ts)"
    by (cases "c_tags c") (auto simp: tags_of_def)
  obtain us k where us: "ts = tag_array us k" "tags_of c = map tag_pair us"
    using cfg_ok_array [OF assms(1) ts] .
  obtain i where i: "tag_index nm us = Some i"
    using True us(2) tag_index_None [of nm us] by (cases "tag_index nm us") (auto simp: image_image)
  obtain p m1 where "c_strdup v (ok 0) m = (p, m1)" by fastforce
  moreover note owns_strdup [OF assms(2) this]
  moreover obtain nb where p: "p = Some (nb, v)"
    using calculation True by (auto simp: str_of_def)
  ultimately have dup: "c_strdup v (ok 0) m = (Some (nb, v), m1)" "owns m1 (add_mset nb (owned c + F))"
    by simp_all
  obtain c' m' where r: "tag_replace c i (nb, v) m1 = Some (c', m')" "cfg_ok c'" "owns m' (owned c' + F)"
      "tags_of c' = update_first nm v (map tag_pair us)"
    using tag_replace_kept [OF assms(1) dup(2) ts [unfolded us(1)] i] .
  show thesis
  proof (rule that)
    show "cfgCustomTagAdd (Some c) (Some nm) (Some v) ok m = Some (Some c', m')"
      using cfgCustomTag_index [OF assms(1), of nm] ts us(1) i dup(1) r(1)
      by (simp add: cfgCustomTagAdd_def del: replicate_Suc)
    show "tags_of c' = tag_added c nm v ok"
      using r(4) True us(2) by (simp add: tag_added_def)
  qed (rule r)+
next
  case False
  obtain t where t: "cfgCustomTag (Some c) (Some nm) = Some t" using cfgCustomTag_index [OF assms(1)] by blast
  have "t = None \<or> \<not> ok 0"
  proof (cases "c_tags c")
    case (Some p)
    obtain b ts where p: "p = (b, ts)" by fastforce
    obtain us k where us: "ts = tag_array us k" "tags_of c = map tag_pair us"
      using cfg_ok_array [OF assms(1) Some [unfolded p]] .
    then have "t = tag_index nm us"
      using cfgCustomTag_index [OF assms(1), of nm] t Some p by (simp del: replicate_Suc)
    with False us(2) show ?thesis
      using tag_index_None [of nm us] by (force simp: image_image)
  qed (use cfgCustomTag_index [OF assms(1), of nm] t in simp)
  then have eq: "cfgCustomTagAdd (Some c) (Some nm) (Some v) ok m = tag_new c nm v ok m"
    using t by (auto simp: cfgCustomTagAdd_def c_strdup_def am_alloc_def split: option.split)
  obtain c' m' where "tag_new c nm v ok m = Some (Some c', m')" "cfg_ok c'" "owns m' (owned c' + F)"
      "tags_of c' = tag_added c nm v ok"
    using tag_new_kept [where nm = nm and ok = ok, OF assms False] .
  then show thesis using that eq by simp
qed

lemma cfgCustomTagAdd_kept:
  assumes "cfg_ok c" "owns m (owned c + F)"
  shows "kept F (cfgCustomTagAdd (Some c) nm v ok m)"
proof (cases "nm = None \<or> v = None")
  case True
  with assms show ?thesis by (auto simp: cfgCustomTagAdd_def kept_def split: option.split)
next
  case False
  then obtain nm' v' where "nm = Some nm'" "v = Some v'" by auto
  then show ?thesis using cfgCustomTagAdd_spec [OF assms, of nm' v' ok] by (metis keptI)
qed

lemma cfgCustomTagValue_spec:
  assumes "cfg_ok c"
  shows "cfgCustomTagValue (Some c) (Some nm) = Some (map_of (tags_of c) nm)"
proof (cases "c_tags c")
  case None
  then show ?thesis by (simp add: cfgCustomTagValue_def cfgCustomTag_def tags_of_def)
next
  case (Some p)
  obtain b ts where p: "p = (b, ts)" by fastforce
  obtain us k where us: "ts = tag_array us k" "tags_of c = map tag_pair us"
    using cfg_ok_array [OF assms Some [unfolded p]] .
  have idx: "cfgCustomTag (Some c) (Some nm) = Some (tag_index nm us)"
    using cfgCustomTag_index [OF assms, of nm] Some p us(1) by (simp del: replicate_Suc)
  show ?thesis
  proof (cases "tag_index nm us")
    case None
    then show ?thesis using idx us(2) tag_index_map_of [of us nm] by (simp add: cfgCustomTagValue_def)
  next
    case (Some i)
    then have "i < length us" using tag_index_Some by blast
    then have "aget ts (int i) = Some (Some (us ! i))"
      using us(1) by (simp add: aget_nat nth_append)
    then show ?thesis
      using idx us(2) tag_index_map_of [of us nm] Some \<open>c_tags c = Some p\<close> p
      by (simp add: cfgCustomTagValue_def cfgCustomTags_def)
  qed
qed

end
