(* ===== verification/Cfg_Props.thy ===== *)
theory Cfg_Props
  imports Cfg_Tags
begin

text \<open>
  The properties of the configuration component: what the constructor creates and the destructor
  frees, the invariant of every reachable configuration, accessors after setters, and the custom
  tags as a map.
\<close>

section \<open>Creation\<close>

lemma owns_create_sources:
  assumes "owns m B" "create_sources ok k defs m = (r, m')"
  shows "owns m' (sblks (map fst r) + sblks (map (fst \<circ> snd) r) + sblks (map (snd \<circ> snd) r) + B) \<and>
    length r = length defs"
  using assms
proof (induction ok k defs m arbitrary: B r m' rule: create_sources.induct)
  case (1 ok k m)
  then show ?case by simp
next
  case (2 ok k vd fd nd defs m)
  obtain v m1 where v: "c_strdup_opt vd (ok k) m = (v, m1)" by fastforce
  obtain f m2 where f: "c_strdup_opt fd (ok (k + 1)) m1 = (f, m2)" by fastforce
  obtain n m3 where n: "c_strdup_opt nd (ok (k + 2)) m2 = (n, m3)" by fastforce
  obtain rest m4 where rest: "create_sources ok (k + 3) defs m3 = (rest, m4)" by fastforce
  note o = owns_strdup_opt(1) [OF owns_strdup_opt(1) [OF owns_strdup_opt(1) [OF 2(2) v] f] n]
  have "r = (v, f, n) # rest" "m' = m4"
    using 2(3) v f n rest by (simp_all add: Let_def)
  then show ?case
    using 2(1) [OF refl v [symmetric] refl f [symmetric] refl n [symmetric] o rest] by (simp add: sblks_def ac_simps)
qed

lemma owns_create_transports:
  assumes "owns m B" "create_transports ok k defs m = (r, m')"
    and "\<forall>(ty, h, po, pa, b)\<in>set defs. ty \<le> transport_val CFG_EDGE \<and> b \<le> buffer_val CFG_BUFFER_LINE"
  shows "owns m' (sum_list (map tp_owned r) + B) \<and> length r = length defs \<and> (\<forall>t\<in>set r. tp_ok t)"
  using assms
proof (induction ok k defs m arbitrary: B r m' rule: create_transports.induct)
  case (1 ok k m)
  then show ?case by simp
next
  case (2 ok k ty hd pd ad bd defs m)
  obtain h m1 where h: "c_strdup_opt hd (ok k) m = (h, m1)" by fastforce
  obtain p m2 where p: "c_strdup_opt pd (ok (k + 1)) m1 = (p, m2)" by fastforce
  obtain a m3 where a: "c_strdup_opt ad (ok (k + 2)) m2 = (a, m3)" by fastforce
  obtain c m4 where c: "c_strdup_opt DEFAULT_TLS_CA_CERT (ok (k + 3)) m3 = (c, m4)" by fastforce
  obtain rest m5 where rest: "create_transports ok (k + 4) defs m4 = (rest, m5)" by fastforce
  note o = owns_strdup_opt(1) [OF owns_strdup_opt(1) [OF owns_strdup_opt(1) [OF owns_strdup_opt(1) [OF 2(2) h] p] a] c]
  have r: "r = \<lparr>tp_type = ty, tp_host = h, tp_port = p, tp_tls_enable = DEFAULT_TLS_ENABLE,
           tp_tls_validateserver = DEFAULT_TLS_VALIDATE_SERVER, tp_tls_cacertpath = c,
           tp_path = a, tp_buf_policy = bd\<rparr> # rest" "m' = m5"
    using 2(3) h p a c rest by (simp_all add: Let_def)
  have "\<forall>(ty, h, po, pa, b)\<in>set defs. ty \<le> transport_val CFG_EDGE \<and> b \<le> buffer_val CFG_BUFFER_LINE"
    using 2(4) by simp
  note IH = 2(1) [OF refl h [symmetric] refl p [symmetric] refl a [symmetric] refl c [symmetric] o rest this]
  then show ?case
    using 2(4) by (simp add: r tp_owned_def tp_ok_def DEFAULT_TLS_ENABLE_def DEFAULT_TLS_VALIDATE_SERVER_def ac_simps)
qed

lemmas default_tables = valueFilterDefault_def fieldFilterDefault_def nameFilterDefault_def srcEnabledDefault_def
  typeDefault_def hostDefault_def portDefault_def pathDefault_def bufDefault_def

lemma categoriesDefault_ok: "categoriesDefault < 32"
  by code_simp

lemma srcEnabledDefault_ok: "\<forall>v\<in>set srcEnabledDefault. v \<le> 1"
  by code_simp

lemma transports_ok:
  "\<forall>(ty, h, po, pa, b)\<in>set (zip typeDefault (zip hostDefault (zip portDefault (zip pathDefault bufDefault)))).
     ty \<le> transport_val CFG_EDGE \<and> b \<le> buffer_val CFG_BUFFER_LINE"
  by code_simp

lemmas default_values = DEFAULT_MTC_ENABLE_def DEFAULT_MTC_FORMAT_def DEFAULT_STATSD_MAX_LEN_def
  DEFAULT_MTC_STATSD_ENABLE_def DEFAULT_MTC_VERBOSITY_def CFG_MAX_VERBOSITY_def DEFAULT_EVT_ENABLE_def
  DEFAULT_CTL_FORMAT_def DEFAULT_ALLOW_BINARY_CONSOLE_def DEFAULT_LOG_LEVEL_def DEFAULT_PAYLOAD_ENABLE_def
  DEFAULT_LOGSTREAM_ENABLE_def DEFAULT_LOGSTREAM_CLOUD_def DEFAULT_COREDUMP_ENABLE_def DEFAULT_BACKTRACE_ENABLE_def
  DEFAULT_NUM_TAGS_def DEFAULT_PROCESS_START_MSG_def DEFAULT_ENHANCE_FS_def DEFAULT_IPC_ENABLE_def DEFAULT_STATSD_PREFIX_def

lemma cfgCreateDefault_kept:
  assumes "owns m F" "cfgCreateDefault ok m = (Some c, m')"
  shows "cfg_ok c" "owns m' (owned c + F)" "c_max_tags c = 8" "c_tags c = None"
proof -
  obtain b m1 where b: "am_alloc (ok 0) m = (Some b, m1)"
    using assms(2) by (cases "am_alloc (ok 0) m"; cases "fst (am_alloc (ok 0) m)") (auto simp: cfgCreateDefault_def)
  obtain p m2 where p: "c_strdup DEFAULT_STATSD_PREFIX (ok 1) m1 = (p, m2)" by fastforce
  obtain srcs m3 where srcs:
    "create_sources ok 2 (zip valueFilterDefault (zip fieldFilterDefault nameFilterDefault)) m2 = (srcs, m3)" by fastforce
  obtain tps m4 where tps: "create_transports ok 29
      (zip typeDefault (zip hostDefault (zip portDefault (zip pathDefault bufDefault)))) m3 = (tps, m4)" by fastforce
  obtain d m5 where d: "c_strdup_opt DEFAULT_PAYLOAD_DIR (ok 45) m4 = (d, m5)" by fastforce
  obtain e m6 where e: "c_strdup_opt DEFAULT_COMMAND_DIR (ok 46) m5 = (e, m6)" by fastforce
  note o1 = owns_alloc [OF assms(1) b]
  note o2 = owns_strdup [OF o1 p]
  note o3 = owns_create_sources [OF o2(1) srcs]
  note o4 = owns_create_transports [OF o3 [THEN conjunct1] tps transports_ok]
  note o6 = owns_strdup_opt(1) [OF owns_strdup_opt(1) [OF o4 [THEN conjunct1] d] e]
  have len: "length srcs = 9" "length tps = 4" "length srcEnabledDefault = 9"
    using o3 o4 by (simp_all add: default_tables)
  have c: "c = \<lparr>c_block = b,
                 c_mtc = \<lparr>mtc_enable = DEFAULT_MTC_ENABLE, mtc_categories = categoriesDefault,
                   mtc_format = DEFAULT_MTC_FORMAT, mtc_prefix = p, mtc_maxlen = DEFAULT_STATSD_MAX_LEN,
                   mtc_statsd_enable = DEFAULT_MTC_STATSD_ENABLE, mtc_period = DEFAULT_SUMMARY_PERIOD,
                   mtc_verbosity = DEFAULT_MTC_VERBOSITY\<rparr>,
                 c_evt = \<lparr>evt_enable = DEFAULT_EVT_ENABLE, evt_format = DEFAULT_CTL_FORMAT,
                   evt_ratelimit = DEFAULT_MAXEVENTSPERSEC,
                   evt_valuefilter = map fst srcs, evt_fieldfilter = map (fst \<circ> snd) srcs,
                   evt_namefilter = map (snd \<circ> snd) srcs, evt_src = srcEnabledDefault,
                   evt_numHeaders = 0, evt_hextract = None,
                   evt_allowbinaryconsole = DEFAULT_ALLOW_BINARY_CONSOLE\<rparr>,
                 c_log_level = DEFAULT_LOG_LEVEL, c_pay_enable = DEFAULT_PAYLOAD_ENABLE, c_pay_dir = d,
                 c_logstream_enable = DEFAULT_LOGSTREAM_ENABLE, c_logstream_cloud = DEFAULT_LOGSTREAM_CLOUD,
                 c_coredump = ucast DEFAULT_COREDUMP_ENABLE, c_backtrace = ucast DEFAULT_BACKTRACE_ENABLE,
                 c_transport = tps, c_tags = None, c_max_tags = DEFAULT_NUM_TAGS, c_commanddir = e,
                 c_processstartmsg = DEFAULT_PROCESS_START_MSG, c_enhancefs = DEFAULT_ENHANCE_FS,
                 c_authtoken = None, c_ipcEnable = DEFAULT_IPC_ENABLE\<rparr>" and m': "m' = m6"
    using assms(2) b p srcs tps d e by (simp_all add: cfgCreateDefault_def del: One_nat_def)
  show "c_max_tags c = 8" "c_tags c = None" by (simp_all add: c DEFAULT_NUM_TAGS_def)
  have "mtc_ok (c_mtc c)"
    using o2(2) categoriesDefault_ok by (simp add: c mtc_ok_def default_values)
  moreover have "evt_ok (c_evt c)"
    using len srcEnabledDefault_ok by (simp add: c evt_ok_def headers_ok_def default_values)
  ultimately show "cfg_ok c"
    using o4 len by (simp add: cfg_ok_def) (simp add: c tags_ok_def default_values)
  show "owns m' (owned c + F)"
    using o6 by (simp add: c m' owned_def evt_owned_def arr_owned_def ac_simps)
qed

section \<open>Destruction\<close>

lemma owns_free_str:
  assumes "owns m (sblk s + B)"
  obtains m' where "free_str s m = Some m'" "owns m' B"
  using assms unfolding free_str_def sblk_def by (rule owns_free_opt)

lemma owns_free_strs:
  assumes "owns m (sblks ss + B)"
  obtains m' where "free_strs ss m = Some m'" "owns m' B"
  using assms
proof (induction ss arbitrary: m thesis)
  case (Cons s ss)
  have "owns m (sblk s + (sblks ss + B))" using Cons.prems(2) by (simp add: sblks_def ac_simps)
  then obtain m1 where m1: "free_str s m = Some m1" "owns m1 (sblks ss + B)" by (rule owns_free_str)
  show ?case
    using Cons.IH [OF _ m1(2)] Cons.prems(1) m1(1) by (metis bind.bind_lunit free_strs.simps(2))
qed simp

lemma he_owned_simps [simp]:
  "he_owned None = {#}" "he_owned (Some h) = add_mset (he_block h) (sblk (he_filter h))"
  by (simp_all add: he_owned_def)

lemma owns_destroy_headers:
  assumes "owns m (sum_list (map he_owned hs) + B)"
  obtains m' where "destroy_headers hs m = Some m'" "owns m' B"
  using assms
proof (induction hs m arbitrary: thesis rule: destroy_headers.induct)
  case (2 hs m)
  then show ?case using 2(1) [OF 2(2)] by simp
next
  case (3 h hs m)
  have "owns m (sblk (he_filter h) + add_mset (he_block h) (sum_list (map he_owned hs) + B))"
    using 3(3) by (simp add: ac_simps)
  then obtain m1 where m1: "free_str (he_filter h) m = Some m1" "owns m1 (add_mset (he_block h) (sum_list (map he_owned hs) + B))"
    by (rule owns_free_str)
  then obtain m2 where m2: "am_free (he_block h) m1 = Some m2" "owns m2 (sum_list (map he_owned hs) + B)"
    by - (erule owns_free)
  show ?case
    using 3(1) [OF m1(1) m2(1) _ m2(2)] 3(2) m1(1) m2(1) by (metis bind.bind_lunit destroy_headers.simps(3))
qed simp

lemma owns_destroy_tags:
  assumes "owns m (sum_list (map tg_owned (tag_array us k)) + B)"
  obtains m' where "destroy_tags (tag_array us k) m = Some m'" "owns m' B"
  using assms
proof (induction us arbitrary: m thesis)
  case (Cons u us)
  let ?S = "sum_list (map tg_owned (tag_array us k)) + B"
  have "owns m (add_mset (fst (tg_name u)) (add_mset (fst (tg_value u)) (add_mset (tg_block u) ?S)))"
    using Cons.prems(2) by (simp add: ac_simps add_mset_commute)
  then obtain m1 where m1: "am_free (fst (tg_name u)) m = Some m1"
      "owns m1 (add_mset (fst (tg_value u)) (add_mset (tg_block u) ?S))" by (rule owns_free)
  obtain m2 where m2: "am_free (fst (tg_value u)) m1 = Some m2" "owns m2 (add_mset (tg_block u) ?S)"
    using owns_free [OF m1(2)] .
  obtain m3 where m3: "am_free (tg_block u) m2 = Some m3" "owns m3 ?S"
    using owns_free [OF m2(2)] .
  obtain m4 where "destroy_tags (tag_array us k) m3 = Some m4" "owns m4 B"
    using Cons.IH [OF _ m3(2)] .
  then show ?case
    using Cons.prems(1) [of m4] m1(1) m2(1) m3(1) by simp
qed simp

lemma sblks_append [simp]: "sblks (xs @ ys) = sblks xs + sblks ys"
  by (simp add: sblks_def)

lemma sblks_Cons [simp]: "sblks (x # xs) = sblk x + sblks xs"
  by (simp add: sblks_def)

lemma sblks_interleave:
  assumes "length xs = length ys" "length ys = length zs"
  shows "sblks (concat (map (\<lambda>(v, f, n). [v, f, n]) (zip xs (zip ys zs)))) = sblks xs + sblks ys + sblks zs"
  using assms by (induction xs ys zs rule: list_induct3) (simp_all add: ac_simps)

text \<open>The certificate paths, which the destructor does not free.\<close>

definition cacerts :: "config_t \<Rightarrow> block multiset" where
  "cacerts c = sblks (map tp_tls_cacertpath (c_transport c))"

lemma transports_owned:
  "sum_list (map tp_owned ts) =
   sblks (concat (map (\<lambda>t. [tp_host t, tp_port t, tp_path t]) ts)) + sblks (map tp_tls_cacertpath ts)"
  by (induction ts) (simp_all add: tp_owned_def ac_simps)

lemma cfgDestroy_kept:
  assumes "cfg_ok c" "owns m (owned c + F)"
  obtains m' where "cfgDestroy (Some c) m = Some (None, m')" "owns m' (cacerts c + F)"
proof -
  let ?e = "c_evt c"
  let ?fs = "concat (map (\<lambda>(v, f, n). [v, f, n]) (zip (evt_valuefilter ?e) (zip (evt_fieldfilter ?e) (evt_namefilter ?e))))"
  let ?ts = "concat (map (\<lambda>t. [tp_host t, tp_port t, tp_path t]) (c_transport c))"
  let ?H = "arr_owned he_owned (evt_hextract ?e)" and ?G = "arr_owned tg_owned (c_tags c)"
  let ?R4 = "sblks ?ts + (sblk (c_pay_dir c) + (?G + (sblk (c_authtoken c) + add_mset (c_block c) (cacerts c + F))))"
  have fs: "sblks ?fs = sblks (evt_valuefilter ?e) + sblks (evt_fieldfilter ?e) + sblks (evt_namefilter ?e)"
    using assms(1) by (intro sblks_interleave) (simp_all add: cfg_ok_def evt_ok_def)
  have "owns m (sblk (mtc_prefix (c_mtc c)) + (sblk (c_commanddir c) + (sblks ?fs + (?H + ?R4))))"
    using assms(2) by (simp add: owned_def evt_owned_def fs transports_owned cacerts_def ac_simps)
  then obtain m1 where m1: "free_str (mtc_prefix (c_mtc c)) m = Some m1"
      "owns m1 (sblk (c_commanddir c) + (sblks ?fs + (?H + ?R4)))" by (rule owns_free_str)
  obtain m2 where m2: "free_str (c_commanddir c) m1 = Some m2" "owns m2 (sblks ?fs + (?H + ?R4))"
    using owns_free_str [OF m1(2)] .
  obtain m3 where m3: "free_strs ?fs m2 = Some m3" "owns m3 (?H + ?R4)"
    using owns_free_strs [OF m2(2)] .
  obtain m4 where m4: "(case evt_hextract ?e of None \<Rightarrow> Some m3
        | Some (b, hs) \<Rightarrow> do { m \<leftarrow> destroy_headers (take (unat (evt_numHeaders ?e)) hs) m3; am_free b m }) = Some m4"
      "owns m4 ?R4"
  proof (cases "evt_hextract ?e")
    case None
    with m3(2) that show ?thesis by (simp add: arr_owned_def)
  next
    case (Some p)
    obtain b hs where p: "p = (b, hs)" by fastforce
    have len: "length hs = unat (evt_numHeaders ?e)"
      using assms(1) Some p by (simp add: cfg_ok_def evt_ok_def headers_ok_def)
    have "owns m3 (sum_list (map he_owned hs) + add_mset b ?R4)"
      using m3(2) by (simp add: arr_owned_def Some p add_mset_commute)
    then obtain n1 where n1: "destroy_headers hs m3 = Some n1" "owns n1 (add_mset b ?R4)"
      by (rule owns_destroy_headers)
    obtain n2 where "am_free b n1 = Some n2" "owns n2 ?R4" using owns_free [OF n1(2)] .
    with n1(1) Some p len that show ?thesis by simp
  qed
  obtain m5 where m5: "free_strs ?ts m4 = Some m5"
      "owns m5 (sblk (c_pay_dir c) + (?G + (sblk (c_authtoken c) + add_mset (c_block c) (cacerts c + F))))"
    using owns_free_strs [OF m4(2)] .
  obtain m6 where m6: "free_str (c_pay_dir c) m5 = Some m6"
      "owns m6 (?G + (sblk (c_authtoken c) + add_mset (c_block c) (cacerts c + F)))"
    using owns_free_str [OF m5(2)] .
  obtain m7 where m7: "(case c_tags c of None \<Rightarrow> Some m6
        | Some (b, ts) \<Rightarrow> do { m \<leftarrow> destroy_tags ts m6; am_free b m }) = Some m7"
      "owns m7 (sblk (c_authtoken c) + add_mset (c_block c) (cacerts c + F))"
  proof (cases "c_tags c")
    case None
    with m6(2) that show ?thesis by (simp add: arr_owned_def)
  next
    case (Some p)
    let ?R = "sblk (c_authtoken c) + add_mset (c_block c) (cacerts c + F)"
    obtain b ts where p: "p = (b, ts)" by fastforce
    obtain us k where ts: "ts = tag_array us k" using cfg_ok_array [OF assms(1) Some [unfolded p]] .
    have "owns m6 (sum_list (map tg_owned (tag_array us k)) + add_mset b ?R)"
      using m6(2) by (simp add: arr_owned_def Some p ts add_mset_commute)
    then obtain n1 where n1: "destroy_tags (tag_array us k) m6 = Some n1" "owns n1 (add_mset b ?R)"
      by (rule owns_destroy_tags)
    obtain n2 where "am_free b n1 = Some n2" "owns n2 ?R" using owns_free [OF n1(2)] .
    with n1(1) Some p ts that show ?thesis by simp
  qed
  obtain m8 where m8: "free_str (c_authtoken c) m7 = Some m8" "owns m8 (add_mset (c_block c) (cacerts c + F))"
    using owns_free_str [OF m7(2)] .
  obtain m9 where m9: "am_free (c_block c) m8 = Some m9" "owns m9 (cacerts c + F)"
    using owns_free [OF m8(2)] .
  have "cfgDestroy (Some c) m = Some (None, m9)"
    using m1(1) m2(1) m3(1) m4(1) m5(1) m6(1) m7(1) m8(1) m9(1) by (simp add: cfgDestroy_def)
  then show thesis using that m9(2) by simp
qed

section \<open>Properties\<close>

text \<open>
  The configurations a program can have: a created one, and what the setters make of it. \<open>F\<close> are the
  blocks of the rest of the program.
\<close>

inductive cfg_reach :: "block multiset \<Rightarrow> config_t \<Rightarrow> amem \<Rightarrow> bool" for F where
  create: "owns m0 F \<Longrightarrow> cfgCreateDefault ok m0 = (Some c, m) \<Longrightarrow> cfg_reach F c m"
| step: "cfg_reach F c m \<Longrightarrow> cfg_step (c, m) (c', m') \<Longrightarrow> cfg_reach F c' m'"

lemmas setters_kept = cfgMtcStatsDPrefixSet_kept cfgCmdDirSet_kept cfgPayDirSet_kept cfgAuthTokenSet_kept
  cfgEvtFormatValueFilterSet_kept cfgEvtFormatFieldFilterSet_kept cfgEvtFormatNameFilterSet_kept
  cfgTransportHostSet_kept cfgTransportPortSet_kept cfgTransportPathSet_kept cfgTransportTlsCACertPathSet_kept
  cfgEvtFormatHeaderSet_kept cfgCustomTagAdd_kept

lemma keptD: "kept F r \<Longrightarrow> r = Some (Some c, m) \<Longrightarrow> cfg_ok c \<and> owns m (owned c + F)"
  by (simp add: kept_def)

lemma cfg_step_keeps:
  assumes "cfg_step (c, m) (c', m')" "cfg_ok c" "owns m (owned c + F)"
  shows "cfg_ok c' \<and> owns m' (owned c' + F)"
  using assms(1)
proof cases
  case scalar
  then show ?thesis using scalar_set_keeps assms(2,3) by simp
qed (erule keptD [rotated], rule setters_kept, rule assms, rule assms)+

lemma cfg_reach_kept: "cfg_reach F c m \<Longrightarrow> cfg_ok c \<and> owns m (owned c + F)"
proof (induction rule: cfg_reach.induct)
  case (create m0 ok c m)
  then show ?case using cfgCreateDefault_kept by blast
next
  case (step c m c' m')
  then show ?case using cfg_step_keeps by blast
qed

lemma default_exists:
  obtains c m where "cfgCreateDefault (\<lambda>_. True) am_empty = (Some c, m)" "cfg_reach {#} c m"
proof -
  obtain r m where r: "cfgCreateDefault (\<lambda>_. True) am_empty = (r, m)" by fastforce
  then obtain c where c: "r = Some c"
    by (auto simp: cfgCreateDefault_def am_alloc_def Let_def split: prod.splits)
  show thesis
    using that r c cfg_reach.create [OF owns_empty r [unfolded c]] by blast
qed

text \<open>
  C20. Every configuration that can be reached from \<open>cfgCreateDefault\<close> by calls of the setters, with
  any arguments (values of no enumerator included) and any allocation failing, is well formed: each
  flag is 0 or 1; formats, transports, buffer policies and the log level are enumerators; the
  verbosity is at most 9; only the five categories are in the category set; the statsd prefix is
  empty or ends in a dot; the tables have their sizes; the tags precede an empty delimiting entry
  of their array; and the heap blocks of the process are exactly those the configuration refers to,
  each once, and those of the rest of the program.
\<close>

theorem cfg_invariant:
  assumes "cfg_reach F c m"
  shows "cfg_ok c \<and> am_ok m \<and> mset (am_live m) = owned c + F"
  using cfg_reach_kept [OF assms] by (simp add: owns_def)

theorem cfg_invariant_witness:
  "\<exists>c m. cfgCreateDefault (\<lambda>_. True) am_empty = (Some c, m) \<and> cfg_ok c \<and> am_ok m \<and> mset (am_live m) = owned c"
proof -
  obtain c m where c: "cfgCreateDefault (\<lambda>_. True) am_empty = (Some c, m)" "cfg_reach {#} c m"
    by (rule default_exists)
  from cfg_invariant [OF c(2)] c(1) show ?thesis by auto
qed



text \<open>
  C22. \<open>cfgDestroy\<close> of a reachable configuration frees nothing twice and clears the caller's pointer.
  It frees every block of the configuration except the CA certificate paths of the transports,
  which stay allocated: they are leaked.
\<close>

theorem cfg_destroy:
  assumes "cfg_reach F c m"
  shows "\<exists>m'. cfgDestroy (Some c) m = Some (None, m') \<and>
    mset (am_live m') = sblks (map tp_tls_cacertpath (c_transport c)) + F"
proof -
  obtain m' where "cfgDestroy (Some c) m = Some (None, m')" "owns m' (cacerts c + F)"
    using cfgDestroy_kept cfg_reach_kept [OF assms] by blast
  then show ?thesis by (auto simp: cacerts_def owns_def)
qed

theorem cfg_destroy_witness:
  "\<exists>c m c1 m1 m2 b. cfgCreateDefault (\<lambda>_. True) am_empty = (Some c, m) \<and>
     cfgTransportTlsCACertPathSet (Some c) 1 (Some ''/ca'') True m = Some (Some c1, m1) \<and>
     cfgDestroy (Some c1) m1 = Some (None, m2) \<and> b \<in> set (am_live m2)"
proof -
  obtain c m where c: "cfgCreateDefault (\<lambda>_. True) am_empty = (Some c, m)" "cfg_reach {#} c m"
    by (rule default_exists)
  note k = cfg_reach_kept [OF c(2)]
  let ?put = "\<lambda>p. tp_upd (\<lambda>s. s\<lparr>tp_tls_cacertpath := p\<rparr>) 1 c"
  have l: "(1 :: u32) < which_val CFG_WHICH_MAX" by simp
  obtain p m1 where p: "c_replace (tp_tls_cacertpath (c_transport c ! unat (1 :: u32))) (Some ''/ca'') True m = Some (p, m1)"
      "owns m1 (owned (?put p) + {#})" "cfg_ok (?put p)"
      "str_of (tp_tls_cacertpath (c_transport (?put p) ! unat (1 :: u32))) = (if True then Some ''/ca'' else None)"
    using cacert_slot.replace_keeps [OF l k [THEN conjunct1] k [THEN conjunct2] TrueI] .
  have set1: "cfgTransportTlsCACertPathSet (Some c) 1 (Some ''/ca'') True m = Some (Some (?put p), m1)"
    using p(1) by (simp add: cfgTransportTlsCACertPathSet_def non_empty_def word_le_nat_alt)
  then have r: "cfg_reach {#} (?put p) m1"
    using cfg_reach.step [OF c(2) cfg_step.TransportTlsCACertPath] by blast
  have len: "length (c_transport (?put p)) = 4"
    using cfg_reach_kept [OF r] by (simp add: cfg_ok_def)
  obtain b where b: "tp_tls_cacertpath (c_transport (?put p) ! 1) = Some (b, ''/ca'')"
    using p(4) by (auto simp: str_of_def)
  have "sblk (tp_tls_cacertpath (c_transport (?put p) ! 1)) \<subseteq># sblks (map tp_tls_cacertpath (c_transport (?put p)))"
    using sum_list_update(2) [of 1 "map tp_tls_cacertpath (c_transport (?put p))" sblk] len by (simp add: sblks_def)
  then have "b \<in># sblks (map tp_tls_cacertpath (c_transport (?put p)))"
    using b by simp
  with cfg_destroy [OF r] set1 c(1) show ?thesis
    by (metis add.right_neutral set_mset_mset)
qed

text \<open>What an accessor returns after its setter.\<close>

lemma bit_check: "b < 5 \<Longrightarrow> APPVIEW_BIT_CHECK w b = (if bit w (unat b) then 1 else 0)"
proof -
  assume "b < 5"
  then have "unat b < 8" by (simp add: word_less_nat_alt)
  then have "bit (ucast w :: u64) (unat b) = bit w (unat b)"
    by (simp add: bit_unsigned_iff)
  then show ?thesis unfolding APPVIEW_BIT_CHECK_def bit_iff_and_push_bit_not_eq_0 [symmetric] by simp
qed

lemma bool_word: "v \<le> 1 \<Longrightarrow> (v :: u32) = 0 \<or> v = 1"
  by (auto simp: word_le_nat_alt word_unat_eq_iff)

lemma ucast_flag: "v \<le> 1 \<Longrightarrow> (ucast (ucast (v :: u32) :: u8) :: u32) = v"
  using bool_word [of v] by auto

lemma nth_update_word: "(xs[unat i := v]) ! unat j = (if j = i \<and> unat i < length xs then v else xs ! unat j)"
  for i j :: "'a::len word"
  by (cases "unat i < length xs") (simp_all add: nth_list_update word_unat_eq_iff list_update_beyond)

lemma tables_size:
  assumes "cfg_ok c"
  shows "i < 9 \<Longrightarrow> unat (i :: u32) < length (evt_src (c_evt c))" "i < 4 \<Longrightarrow> unat i < length (c_transport c)"
  using assms by (simp_all add: cfg_ok_def evt_ok_def word_less_nat_alt)

lemma category_cases: "(b :: u32) < 6 \<longleftrightarrow> b = 0 \<or> b = 1 \<or> b = 2 \<or> b = 3 \<or> b = 4 \<or> b = 5"
  by (auto simp: word_less_nat_alt word_unat_eq_iff)

lemma watch_get_set:
  "cfgMtcWatchEnable (cfgMtcWatchEnableSet (Some c) v i) j =
     (if j = i \<and> i < 6 \<and> v \<le> 1 then v else cfgMtcWatchEnable (Some c) j)"
proof -
  have check: "APPVIEW_BIT_CHECK (APPVIEW_BIT_SET_VAR w a v) b = (if b = a then v else APPVIEW_BIT_CHECK w b)"
    if "a < 5" "b < 5" "v \<le> 1" for w a b
  proof -
    have "unat b < 8" using that(2) by (simp add: word_less_nat_alt)
    then show ?thesis
      using that bool_word [of v] by (auto simp: bit_check bit_set_var word_unat_eq_iff)
  qed
  show ?thesis
    unfolding category_cases
    by (auto simp: cfgMtcWatchEnable_def cfgMtcWatchEnableSet_def check not_less)
qed

text \<open>
  C23. What the accessors return after a setter of flags, numbers and enumerations: the value set, if it is
  legal, and otherwise what they returned before; the verbosity is cut off at 9; a setter for one
  source, transport or metric category leaves the others alone.
\<close>

theorem cfg_scalar_get_set:
  assumes "cfg_reach F c m"
  shows
    "cfgMtcEnable (cfgMtcEnableSet (Some c) v) = (if v \<le> 1 then v else cfgMtcEnable (Some c)) \<and>
     cfgMtcFormat (cfgMtcFormatSet (Some c) v) = (if v < 2 then v else cfgMtcFormat (Some c)) \<and>
     cfgMtcStatsDMaxLen (cfgMtcStatsDMaxLenSet (Some c) v) = v \<and>
     cfgMtcPeriod (cfgMtcPeriodSet (Some c) v) = v \<and>
     cfgSendProcessStartMsg (cfgSendProcessStartMsgSet (Some c) v) = (if v \<le> 1 then v else cfgSendProcessStartMsg (Some c)) \<and>
     cfgMtcVerbosity (cfgMtcVerbositySet (Some c) v) = (if v \<le> 9 then v else 9) \<and>
     cfgEvtEnable (cfgEvtEnableSet (Some c) v) = (if v \<le> 1 then v else cfgEvtEnable (Some c)) \<and>
     cfgEventFormat (cfgEventFormatSet (Some c) v) = (if v < 2 then v else cfgEventFormat (Some c)) \<and>
     cfgEvtRateLimit (cfgEvtRateLimitSet (Some c) v) = v \<and>
     cfgEnhanceFs (cfgEnhanceFsSet (Some c) v) = (if v \<le> 1 then v else cfgEnhanceFs (Some c)) \<and>
     cfgEvtAllowBinaryConsole (cfgEvtAllowBinaryConsoleSet (Some c) v) = (if v \<le> 1 then v else cfgEvtAllowBinaryConsole (Some c)) \<and>
     cfgLogLevel (cfgLogLevelSet (Some c) v) = (if v \<le> 5 then v else cfgLogLevel (Some c)) \<and>
     cfgPayEnable (cfgPayEnableSet (Some c) v) = (if v \<le> 1 then v else cfgPayEnable (Some c)) \<and>
     cfgLogStreamEnable (cfgLogStreamEnableSet (Some c) v) = (if v \<le> 1 then v else cfgLogStreamEnable (Some c)) \<and>
     cfgLogStreamCloud (cfgLogStreamCloudSet (Some c) v) = (if v \<le> 1 then v else cfgLogStreamCloud (Some c)) \<and>
     cfgSnapshotCoredumpEnable (cfgSnapshotCoredumpSet (Some c) v) = (if v \<le> 1 then v else cfgSnapshotCoredumpEnable (Some c)) \<and>
     cfgSnapshotBacktraceEnable (cfgSnapshotBacktraceSet (Some c) v) = (if v \<le> 1 then v else cfgSnapshotBacktraceEnable (Some c)) \<and>
     cfgIpcEnable (cfgIpcEnableSet (Some c) v) = (if v \<le> 1 then v else cfgIpcEnable (Some c)) \<and>
     cfgEvtFormatSourceEnabled (cfgEvtFormatSourceEnabledSet (Some c) i v) j = (if j = i \<and> i < 9 \<and> v \<le> 1 then v else cfgEvtFormatSourceEnabled (Some c) j) \<and>
     cfgTransportType (cfgTransportTypeSet (Some c) i v) j = (if j = i \<and> i < 4 \<and> v \<le> 4 then v else cfgTransportType (Some c) j) \<and>
     cfgTransportBuf (cfgTransportBufSet (Some c) i v) j = (if j = i \<and> i < 4 \<and> v \<le> 1 then v else cfgTransportBuf (Some c) j) \<and>
     cfgTransportTlsEnable (cfgTransportTlsEnableSet (Some c) i v) j = (if j = i \<and> i < 4 \<and> v \<le> 1 then v else cfgTransportTlsEnable (Some c) j) \<and>
     cfgTransportTlsValidateServer (cfgTransportTlsValidateServerSet (Some c) i v) j = (if j = i \<and> i < 4 \<and> v \<le> 1 then v else cfgTransportTlsValidateServer (Some c) j) \<and>
     cfgMtcWatchEnable (cfgMtcWatchEnableSet (Some c) v i) j = (if j = i \<and> i < 6 \<and> v \<le> 1 then v else cfgMtcWatchEnable (Some c) j)"
proof -
  note ok = cfg_reach_kept [OF assms, THEN conjunct1]
  note size = tables_size [OF ok]
  show ?thesis
    by (intro conjI watch_get_set)
       (auto simp: scalar_defs not_less not_le CFG_MAX_VERBOSITY_def ucast_flag
         cfgMtcEnable_def cfgMtcFormat_def cfgMtcStatsDMaxLen_def cfgMtcPeriod_def cfgSendProcessStartMsg_def cfgMtcVerbosity_def cfgEvtEnable_def cfgEventFormat_def cfgEvtRateLimit_def cfgEnhanceFs_def cfgEvtAllowBinaryConsole_def cfgLogLevel_def cfgPayEnable_def cfgLogStreamEnable_def cfgLogStreamCloud_def cfgSnapshotCoredumpEnable_def cfgSnapshotBacktraceEnable_def cfgIpcEnable_def
         cfgEvtFormatSourceEnabled_def cfgTransportType_def cfgTransportBuf_def cfgTransportTlsEnable_def
         cfgTransportTlsValidateServer_def tp_upd_def nth_update_word size)
qed














theorem cfg_scalar_get_set_witness:
  "\<exists>c m. cfgCreateDefault (\<lambda>_. True) am_empty = (Some c, m) \<and>
     cfgMtcVerbosity (cfgMtcVerbositySet (Some c) 40) = 9"
proof -
  obtain c m where c: "cfgCreateDefault (\<lambda>_. True) am_empty = (Some c, m)" "cfg_reach {#} c m"
    by (rule default_exists)
  have "cfgMtcVerbosity (cfgMtcVerbositySet (Some c) 40) = (if (40 :: u32) \<le> 9 then 40 else 9)"
    using cfg_scalar_get_set [OF c(2), of 40] by blast
  then have "cfgMtcVerbosity (cfgMtcVerbositySet (Some c) 40) = 9"
    by (simp add: word_le_nat_alt)
  with c(1) show ?thesis by blast
qed

section \<open>Custom tags as a map\<close>

lemma tag_added_value:
  assumes "c_max_tags c < 0x40000000"
  shows "map_of (tag_added c nm v (\<lambda>_. True)) x = (if x = nm then Some v else map_of (tags_of c) x)"
proof -
  have "map_of kvs nm = None" if "nm \<notin> fst ` set kvs" for kvs :: "(string \<times> string) list"
    using that by (simp add: map_of_eq_None_iff)
  then show ?thesis
    using assms by (auto simp: tag_added_def map_of_update_first map_add_def split: option.splits)
qed

text \<open>
  C25. The custom tags are a map from names to values: when memory is available,
  \<open>cfgCustomTagAdd\<close> makes \<open>cfgCustomTagValue\<close> return the new value for the name and changes no other name,
  whether or not the name was there and whether or not the array had to grow.
\<close>

theorem cfg_tags_map:
  assumes "cfg_reach F c m" "c_max_tags c < 0x40000000"
  shows "\<exists>c' m'. cfgCustomTagAdd (Some c) (Some nm) (Some v) (\<lambda>_. True) m = Some (Some c', m') \<and>
    (\<forall>x. cfgCustomTagValue (Some c') (Some x) =
         (if x = nm then Some (Some v) else cfgCustomTagValue (Some c) (Some x)))"
proof -
  have *: "cfg_ok c" "owns m (owned c + F)" using cfg_reach_kept [OF assms(1)] by simp_all
  obtain c' m' where c': "cfgCustomTagAdd (Some c) (Some nm) (Some v) (\<lambda>_. True) m = Some (Some c', m')"
      "cfg_ok c'" "owns m' (owned c' + F)" "tags_of c' = tag_added c nm v (\<lambda>_. True)"
    using cfgCustomTagAdd_spec [OF *] .
  have "cfgCustomTagValue (Some c') (Some x) =
         (if x = nm then Some (Some v) else cfgCustomTagValue (Some c) (Some x))" for x
    by (simp add: cfgCustomTagValue_spec *(1) c'(2,4) tag_added_value [OF assms(2)])
  with c'(1) show ?thesis by blast
qed

theorem cfg_tags_map_witness:
  "\<exists>c m c' m'. cfgCreateDefault (\<lambda>_. True) am_empty = (Some c, m) \<and>
     cfgCustomTagAdd (Some c) (Some ''k'') (Some ''v'') (\<lambda>_. True) m = Some (Some c', m') \<and>
     cfgCustomTagValue (Some c') (Some ''k'') = Some (Some ''v'')"
proof -
  obtain c m where c: "cfgCreateDefault (\<lambda>_. True) am_empty = (Some c, m)" "cfg_reach {#} c m"
    by (rule default_exists)
  have "c_max_tags c < 0x40000000"
    using cfgCreateDefault_kept(3) [OF owns_empty c(1)] by simp
  from cfg_tags_map [OF c(2) this, of "''k''" "''v''"] c(1) show ?thesis by auto
qed

text \<open>
  When the value of an existing tag cannot be copied but the allocations after it succeed,
  \<open>cfgCustomTagAdd\<close> falls through and appends a second tag of the same name: \<open>cfgCustomTagValue\<close> still
  returns the old value, while the list of tags has both.
\<close>

theorem cfg_tag_duplicate:
  assumes "cfg_reach F c m" "cfgCustomTagValue (Some c) (Some nm) = Some (Some old)"
    and "length (tags_of c) + 1 < unat (c_max_tags c) \<or> c_max_tags c < 0x40000000"
  shows "\<exists>c' m'. cfgCustomTagAdd (Some c) (Some nm) (Some v) (\<lambda>k. k \<noteq> 0) m = Some (Some c', m') \<and>
    tags_of c' = tags_of c @ [(nm, v)] \<and> nm \<in> fst ` set (tags_of c) \<and>
    cfgCustomTagValue (Some c') (Some nm) = Some (Some old)"
proof -
  have *: "cfg_ok c" "owns m (owned c + F)" using cfg_reach_kept [OF assms(1)] by simp_all
  obtain c' m' where c': "cfgCustomTagAdd (Some c) (Some nm) (Some v) (\<lambda>k. k \<noteq> 0) m = Some (Some c', m')"
      "cfg_ok c'" "owns m' (owned c' + F)" "tags_of c' = tag_added c nm v (\<lambda>k. k \<noteq> 0)"
    using cfgCustomTagAdd_spec [OF *] .
  have old: "map_of (tags_of c) nm = Some old" using assms(2) cfgCustomTagValue_spec [OF *(1)] by simp
  then have "nm \<in> fst ` set (tags_of c)" by (metis domI dom_map_of_conv_image_fst)
  moreover have t: "tags_of c' = tags_of c @ [(nm, v)]"
    using c'(4) assms(3) old by (auto simp: tag_added_def tags_of_def)
  moreover have "cfgCustomTagValue (Some c') (Some nm) = Some (Some old)"
    using cfgCustomTagValue_spec [OF c'(2)] old by (simp add: t map_add_def)
  ultimately show ?thesis using c'(1) by blast
qed

theorem cfg_tag_duplicate_witness:
  "\<exists>c m c1 m1 c2 m2. cfgCreateDefault (\<lambda>_. True) am_empty = (Some c, m) \<and>
     cfgCustomTagAdd (Some c) (Some ''k'') (Some ''v'') (\<lambda>_. True) m = Some (Some c1, m1) \<and>
     cfgCustomTagAdd (Some c1) (Some ''k'') (Some ''w'') (\<lambda>k. k \<noteq> 0) m1 = Some (Some c2, m2) \<and>
     tags_of c2 = [(''k'', ''v''), (''k'', ''w'')]"
proof -
  obtain c m where c: "cfgCreateDefault (\<lambda>_. True) am_empty = (Some c, m)" "cfg_reach {#} c m"
    by (rule default_exists)
  have *: "cfg_ok c" "owns m (owned c + {#})" using cfg_reach_kept [OF c(2)] by simp_all
  have small: "c_max_tags c = 8" "tags_of c = []"
    using cfgCreateDefault_kept(3,4) [OF owns_empty c(1)] by (simp_all add: tags_of_def)
  obtain c1 m1 where c1: "cfgCustomTagAdd (Some c) (Some ''k'') (Some ''v'') (\<lambda>_. True) m = Some (Some c1, m1)"
      "cfg_ok c1" "owns m1 (owned c1 + {#})" "tags_of c1 = tag_added c ''k'' ''v'' (\<lambda>_. True)"
    using cfgCustomTagAdd_spec [OF *] .
  have t1: "tags_of c1 = [(''k'', ''v'')]" using c1(4) small by (simp add: tag_added_def)
  have r: "cfg_reach {#} c1 m1"
    using cfg_reach.step [OF c(2) cfg_step.CustomTag [OF c1(1)]] .
  have v: "cfgCustomTagValue (Some c1) (Some ''k'') = Some (Some ''v'')"
    using cfgCustomTagValue_spec [OF c1(2)] t1 by simp
  have max1: "length (tags_of c1) + 1 < unat (c_max_tags c1) \<or> c_max_tags c1 < 0x40000000"
    using cfg_ok_max [OF c1(2)] t1 by (simp add: word_le_nat_alt)
  from cfg_tag_duplicate [OF r v max1, of "''w''"] t1 c(1) c1(1) show ?thesis by auto
qed

end
