(* ===== verification/Httpstate.thy ===== *)
theory Httpstate
  imports Strsearch Event
begin

text \<open>
  The HTTP parser of \<^verbatim>\<open>src/httpstate.c\<close>, which finds the headers of HTTP/1 messages and the header
  frames of HTTP/2 in the buffers a process sends and receives, and posts them as events.

  A buffer is the list of its bytes (characters); an index or a copy outside an array is undefined
  (\<open>None\<close>). The numbers that count bytes of buffers are natural numbers, since they are bounded by
  the size of the address space; the content length, which a peer chooses, is a 64-bit word.
  The regular expressions are arguments, as what the library returns for a subject: the list of
  the whole match and its groups, or \<open>None\<close> without a match. Events go to the list of posted
  events; the guard that serialises calls on a socket is not modelled.
\<close>

section \<open>Data\<close>

definition MIN_HDR_ALLOC :: nat where
  "MIN_HDR_ALLOC = 4 * 1024"

definition MAX_HDR_ALLOC :: nat where
  "MAX_HDR_ALLOC = 16 * 1024"

definition crlf :: string where
  "crlf = [CHR 0x0D, CHR 0x0A]"

definition HTTP2_MAGIC :: string where
  "HTTP2_MAGIC = ''PRI * HTTP/2.0'' @ crlf @ crlf @ ''SM'' @ crlf @ crlf"

definition HTTP2_MAGIC_LEN :: nat where
  "HTTP2_MAGIC_LEN = 24"

definition HTTP_START :: string where
  "HTTP_START = ''HTTP/''"

definition HTTP_END :: string where
  "HTTP_END = crlf"

type_synonym regex = "string \<Rightarrow> string list option"

record http_globals =
  g_http_start :: "search_t option"
  g_http_end :: "search_t option"
  g_http_clength :: "regex option"
  g_http_upgrade :: "regex option"
  g_http_connect :: "regex option"

record httpId_t =
  hid_uid :: u64
  hid_sockfd :: int
  hid_isSsl :: bool
  hid_src :: metric_t

datatype http_enum_t = HTTP_NONE | HTTP_HDR | HTTP_HDREND | HTTP_DATA

record http_buf_t =
  hb_buf :: "string option"
  hb_len :: nat
  hb_size :: nat

record http_state_t =
  hs_state :: http_enum_t
  hs_hdr :: "string option"
  hs_hdrlen :: nat
  hs_hdralloc :: nat
  hs_clen :: u64
  hs_id :: httpId_t
  hs_version :: int
  hs_isResponse :: bool
  hs_hasUpgrade :: bool
  hs_hasConnectionUpgrade :: bool
  hs_http2Buf :: http_buf_t

text \<open>What the parser reads of a \<open>net_entry\<close>; addresses are opaque.\<close>

record net_entry =
  ni_type :: int
  ni_uid :: u64
  ni_local :: "nat option"
  ni_remote :: "nat option"

text \<open>A posted event: a \<open>protocol_info\<close> with its \<open>http_post\<close>.\<close>

record http_proto_info =
  ev_ptype :: metric_t
  ev_isServer :: bool
  ev_len :: nat
  ev_fd :: int
  ev_uid :: u64
  ev_sock_type :: int
  ev_localConn :: "nat option"
  ev_remoteConn :: "nat option"
  ev_ssl :: bool
  ev_start :: u64
  ev_id :: httpId_t
  ev_hdr :: string

definition httpId0 :: httpId_t where
  "httpId0 = \<lparr>hid_uid = 0, hid_sockfd = 0, hid_isSsl = False, hid_src = OPEN_PORTS\<rparr>"

definition http_buf0 :: http_buf_t where
  "http_buf0 = \<lparr>hb_buf = None, hb_len = 0, hb_size = 0\<rparr>"

definition http_state0 :: http_state_t where
  "http_state0 = \<lparr>hs_state = HTTP_NONE, hs_hdr = None, hs_hdrlen = 0, hs_hdralloc = 0, hs_clen = 0, hs_id = httpId0,
     hs_version = 0, hs_isResponse = False, hs_hasUpgrade = False, hs_hasConnectionUpgrade = False,
     hs_http2Buf = http_buf0\<rparr>"

section \<open>Memory\<close>

text \<open>\<open>memcpy\<close> of \<open>data\<close> to offset \<open>pos\<close> of an array, and reading \<open>n\<close> bytes from an offset.\<close>

definition mem_write :: "string \<Rightarrow> nat \<Rightarrow> string \<Rightarrow> string option" where
  "mem_write a pos data =
     (if pos + length data \<le> length a then Some (take pos a @ data @ drop (pos + length data) a) else None)"

definition mem_read :: "string \<Rightarrow> nat \<Rightarrow> nat \<Rightarrow> string option" where
  "mem_read a pos n = (if pos + n \<le> length a then Some (take n (drop pos a)) else None)"

text \<open>\<open>strtoull(s, NULL, 0)\<close> on a string of digits: a leading zero selects octal.\<close>

definition octal_val :: "string \<Rightarrow> nat" where
  "octal_val ds = foldl (\<lambda>v c. 8 * v + digit_val c) 0 (takeWhile (\<lambda>c. is_digit c \<and> digit_val c < 8) ds)"

definition c_strtoull0 :: "string \<Rightarrow> u64" where
  "c_strtoull0 s =
     (let v = (case s of
                 [] \<Rightarrow> 0
               | c # ds \<Rightarrow> if c = CHR ''0'' then octal_val ds else digits_val (takeWhile is_digit s))
      in if v \<ge> 2 ^ 64 then - 1 else of_nat v)"

section \<open>HTTP/1\<close>

definition setHttpState :: "http_state_t \<Rightarrow> http_enum_t \<Rightarrow> http_state_t" where
  "setHttpState httpstate toState =
     (case toState of
        HTTP_NONE \<Rightarrow> httpstate\<lparr>hs_http2Buf := http_buf0, hs_hdr := None, hs_hdrlen := 0, hs_hdralloc := 0,
                               hs_clen := 0, hs_id := httpId0, hs_state := HTTP_NONE\<rparr>
      | _ \<Rightarrow> httpstate\<lparr>hs_state := toState\<rparr>)"

text \<open>The loop that finds the size to allocate; the inner \<open>None\<close> is more than is allowed.\<close>

partial_function (option) hdr_alloc_size :: "nat \<Rightarrow> nat \<Rightarrow> nat option option" where
  "hdr_alloc_size alloc_size content_size =
     (if alloc_size < content_size
      then if alloc_size * 4 > MAX_HDR_ALLOC then Some None
           else hdr_alloc_size (alloc_size * 4) content_size
      else Some (Some alloc_size))"

declare hdr_alloc_size.simps [code]

definition appendHeader :: "bool \<Rightarrow> http_state_t \<Rightarrow> string \<Rightarrow> http_state_t option" where
  "appendHeader realloc_ok httpstate data =
     do {
       let content_size = hs_hdrlen httpstate + length data;
       size \<leftarrow> hdr_alloc_size (if hs_hdralloc httpstate = 0 then MIN_HDR_ALLOC else hs_hdralloc httpstate) content_size;
       case size of
         None \<Rightarrow> Some (setHttpState httpstate HTTP_NONE)
       | Some alloc_size \<Rightarrow>
           if alloc_size \<noteq> hs_hdralloc httpstate \<and> \<not> realloc_ok then Some (setHttpState httpstate HTTP_NONE)
           else
             do {
               let httpstate =
                 (if alloc_size \<noteq> hs_hdralloc httpstate
                  then httpstate\<lparr>hs_hdr := Some (c_realloc (CHR 0x00) alloc_size
                                    (case hs_hdr httpstate of None \<Rightarrow> [] | Some h \<Rightarrow> h)),
                                 hs_hdralloc := alloc_size\<rparr>
                  else httpstate);
               h \<leftarrow> hs_hdr httpstate;
               h \<leftarrow> mem_write h (hs_hdrlen httpstate) data;
               Some (httpstate\<lparr>hs_hdr := Some h, hs_hdrlen := content_size\<rparr>)
             }
     }"

definition getContentLength :: "http_globals \<Rightarrow> string \<Rightarrow> u64" where
  "getContentLength g header =
     (case g_http_clength g of
        None \<Rightarrow> - 1
      | Some re \<Rightarrow>
          (case re header of
             Some [_, cLen] \<Rightarrow>
               (let ret = c_strtoull0 cLen in if ret = 0 \<or> ret = - 1 then - 1 else ret)
           | _ \<Rightarrow> - 1))"

definition re_test :: "regex option \<Rightarrow> string \<Rightarrow> bool" where
  "re_test r header =
     (case r of None \<Rightarrow> False | Some re \<Rightarrow> (case re header of Some [_] \<Rightarrow> True | _ \<Rightarrow> False))"

definition hasUpgrade :: "http_globals \<Rightarrow> string \<Rightarrow> bool" where
  "hasUpgrade g header = re_test (g_http_upgrade g) header"

definition hasConnectionUpgrade :: "http_globals \<Rightarrow> string \<Rightarrow> bool" where
  "hasConnectionUpgrade g header = re_test (g_http_connect g) header"

definition bytesToSkipForContentLength :: "http_state_t \<Rightarrow> nat \<Rightarrow> nat \<times> http_state_t" where
  "bytesToSkipForContentLength httpstate len =
     (if hs_clen httpstate = 0 then (0, httpstate)
      else if len > unat (hs_clen httpstate)
      then (unat (hs_clen httpstate), httpstate\<lparr>hs_clen := 0\<rparr>)
      else (len, httpstate\<lparr>hs_clen := hs_clen httpstate - of_nat len\<rparr>))"

definition setHttpId :: "net_entry option \<Rightarrow> int \<Rightarrow> metric_t \<Rightarrow> httpId_t option" where
  "setHttpId net sockfd src =
     (case net of
        None \<Rightarrow> None
      | Some n \<Rightarrow> Some \<lparr>hid_uid = ni_uid n, hid_sockfd = sockfd, hid_isSsl = (src = TLSTX \<or> src = TLSRX), hid_src = src\<rparr>)"

definition is_send :: "httpId_t \<Rightarrow> bool" where
  "is_send i \<longleftrightarrow> hid_src i = NETTX \<or> hid_src i = TLSTX"

text \<open>
  The environment of a report: whether the event can be allocated, the time, and the entry that
  \<open>getNetEntry\<close> finds for the descriptor.
\<close>

record http_env =
  he_alloc :: bool
  he_time :: u64
  he_net :: "net_entry option"

definition reportHttp1 :: "http_env \<Rightarrow> http_state_t \<Rightarrow> int \<times> http_state_t \<times> http_proto_info list" where
  "reportHttp1 env httpstate =
     (case hs_hdr httpstate of
        None \<Rightarrow> (-1, httpstate, [])
      | Some hdr \<Rightarrow>
          if hs_hdrlen httpstate = 0 then (-1, httpstate, [])
          else if \<not> he_alloc env then (-1, httpstate, [])
          else
            let isSend = is_send (hs_id httpstate);
                e = \<lparr>ev_ptype = (if hs_isResponse httpstate then EVT_HRES else EVT_HREQ),
                     ev_isServer = (isSend \<and> hs_isResponse httpstate \<or> \<not> isSend \<and> \<not> hs_isResponse httpstate),
                     ev_len = hs_hdrlen httpstate,
                     ev_fd = hid_sockfd (hs_id httpstate),
                     ev_uid = hid_uid (hs_id httpstate),
                     ev_sock_type = (case he_net env of None \<Rightarrow> -1 | Some n \<Rightarrow> ni_type n),
                     ev_localConn = (case he_net env of None \<Rightarrow> None | Some n \<Rightarrow> ni_local n),
                     ev_remoteConn = (case he_net env of None \<Rightarrow> None | Some n \<Rightarrow> ni_remote n),
                     ev_ssl = hid_isSsl (hs_id httpstate),
                     ev_start = he_time env,
                     ev_id = hs_id httpstate,
                     ev_hdr = hdr\<rparr>
            in (0, httpstate\<lparr>hs_hdr := None, hs_hdrlen := 0\<rparr>, [e]))"

text \<open>
  The loop over the lines of a header: the state, where the current line starts, and whether the
  end of all headers was found there. \<open>ok k\<close> says whether a reallocation for the line that starts
  at offset \<open>k\<close> succeeds.
\<close>

partial_function (option) parseHttp1_loop ::
  "http_globals \<Rightarrow> (nat \<Rightarrow> bool) \<Rightarrow> string \<Rightarrow> nat \<Rightarrow> http_state_t \<Rightarrow> (http_state_t \<times> nat \<times> bool) option" where
  "parseHttp1_loop g ok buf header_start httpstate =
     (if (hs_state httpstate = HTTP_HDR \<or> hs_state httpstate = HTTP_HDREND) \<and> header_start < length buf
      then
        Option.bind (searchExec (g_http_end g) (Some (drop header_start buf)) (to_int32 (int (length buf - header_start))))
        (\<lambda>header_end.
          if header_end = -1
          then Option.bind (appendHeader (ok header_start) (setHttpState httpstate HTTP_HDR) (drop header_start buf))
               (\<lambda>httpstate. Some (httpstate, header_start, False))
          else if hs_state httpstate = HTTP_HDREND \<and> header_end = 0
          then Some (httpstate, header_start, True)
          else
            Option.bind (mem_read buf header_start (nat header_end + nat (searchLen (g_http_end g)))) (\<lambda>line.
            Option.bind (appendHeader (ok header_start) (setHttpState httpstate HTTP_HDREND) line) (\<lambda>httpstate.
            parseHttp1_loop g ok buf (header_start + nat header_end + nat (searchLen (g_http_end g))) httpstate)))
      else Some (httpstate, header_start, False))"

declare parseHttp1_loop.simps [code]

text \<open>The part after the end of all headers; the header is terminated, examined and reported.\<close>

definition finishHttp1 ::
  "http_globals \<Rightarrow> bool \<Rightarrow> http_env \<Rightarrow> nat \<Rightarrow> http_state_t \<Rightarrow> (http_state_t \<times> http_proto_info list) option" where
  "finishHttp1 g ok env content_in_this_buf httpstate =
     do {
       httpstate \<leftarrow> appendHeader ok httpstate [CHR 0x00];
       let hdr = (case hs_hdr httpstate of None \<Rightarrow> [] | Some h \<Rightarrow> take (hs_hdrlen httpstate) h);
       let clen = getContentLength g hdr;
       pos \<leftarrow> searchExec (g_http_start g) (hs_hdr httpstate) (searchLen (g_http_start g));
       let httpstate = httpstate\<lparr>hs_isResponse := (pos \<noteq> -1), hs_hasUpgrade := hasUpgrade g hdr,
                                 hs_hasConnectionUpgrade := hasConnectionUpgrade g hdr\<rparr>;
       let (rc, httpstate, events) = reportHttp1 env httpstate;
       if clen \<noteq> - 1 \<and> unat clen \<ge> content_in_this_buf
       then Some (setHttpState (httpstate\<lparr>hs_clen := clen - of_nat content_in_this_buf\<rparr>) HTTP_DATA, events)
       else Some (setHttpState httpstate HTTP_NONE, events)
     }"

text \<open>What is not skipped as the content of the message before.\<close>

definition parseHttp1_headers ::
  "http_globals \<Rightarrow> (nat \<Rightarrow> bool) \<Rightarrow> http_env \<Rightarrow> http_state_t \<Rightarrow> string \<Rightarrow> httpId_t \<Rightarrow>
   (bool \<times> http_state_t \<times> http_proto_info list) option" where
  "parseHttp1_headers g ok env httpstate buf httpId =
     do {
       found \<leftarrow> (if hs_state httpstate = HTTP_NONE
                 then map_option (\<lambda>p. p \<noteq> -1)
                        (searchExec (g_http_start g) (Some buf) (to_int32 (int (length buf))))
                 else Some True);
       if \<not> found then Some (False, httpstate, [])
       else do {
         let httpstate = (if hs_state httpstate = HTTP_NONE
                          then (setHttpState httpstate HTTP_HDR)\<lparr>hs_id := httpId\<rparr>
                          else httpstate);
         (httpstate, header_start, found_end_of_all_headers) \<leftarrow> parseHttp1_loop g ok buf 0 httpstate;
         if found_end_of_all_headers
         then do {
           (httpstate, events) \<leftarrow> finishHttp1 g (ok (length buf)) env
             (length buf - (header_start + 0 + nat (searchLen (g_http_end g)))) httpstate;
           Some (True, httpstate, events)
         }
         else Some (False, httpstate, [])
       }
     }"

definition parseHttp1 ::
  "http_globals \<Rightarrow> (nat \<Rightarrow> bool) \<Rightarrow> http_env \<Rightarrow> http_state_t \<Rightarrow> string \<Rightarrow> httpId_t \<Rightarrow>
   (bool \<times> http_state_t \<times> http_proto_info list) option" where
  "parseHttp1 g ok env httpstate buf httpId =
     (if hs_state httpstate \<noteq> HTTP_NONE \<and> hid_isSsl (hs_id httpstate) \<noteq> hid_isSsl httpId
      then Some (False, httpstate, [])
      else if hs_state httpstate = HTTP_DATA
      then let (bts, httpstate) = bytesToSkipForContentLength httpstate (length buf)
           in if bts = length buf then Some (False, httpstate, [])
              else parseHttp1_headers g ok env (setHttpState httpstate HTTP_NONE) (drop bts buf) httpId
      else parseHttp1_headers g ok env httpstate buf httpId)"

section \<open>HTTP/2\<close>

definition http2StashFrame :: "bool \<Rightarrow> http_buf_t \<Rightarrow> string \<Rightarrow> http_buf_t option" where
  "http2StashFrame realloc_ok stash data =
     (let need = length data + hb_len stash in
      if need > hb_size stash \<and> \<not> realloc_ok then Some stash
      else
        do {
          let stash = (if need > hb_size stash
                       then let need = (need + 1023) div 1024 * 1024
                            in stash\<lparr>hb_buf := Some (c_realloc (CHR 0x00) need
                                        (case hb_buf stash of None \<Rightarrow> [] | Some b \<Rightarrow> b)), hb_size := need\<rparr>
                       else stash);
          b \<leftarrow> hb_buf stash;
          b \<leftarrow> mem_write b (hb_len stash) data;
          Some (stash\<lparr>hb_buf := Some b, hb_len := hb_len stash + length data\<rparr>)
        })"

text \<open>Byte \<open>i\<close> of a frame whose first bytes may be in the stash.\<close>

definition frame_byte :: "http_buf_t \<Rightarrow> string \<Rightarrow> nat \<Rightarrow> nat option" where
  "frame_byte stash buf i =
     (if hb_len stash > i then do { b \<leftarrow> hb_buf stash; c \<leftarrow> aget b (int i); Some (of_char c) }
      else do { c \<leftarrow> aget buf (int (i - hb_len stash)); Some (of_char c) })"

definition http2GetFrameLength :: "http_buf_t \<Rightarrow> string \<Rightarrow> nat option" where
  "http2GetFrameLength stash buf =
     do {
       a \<leftarrow> frame_byte stash buf 0;
       b \<leftarrow> frame_byte stash buf 1;
       c \<leftarrow> frame_byte stash buf 2;
       Some (a * 65536 + b * 256 + c)
     }"

definition http2GetFrameType :: "http_buf_t \<Rightarrow> string \<Rightarrow> nat option" where
  "http2GetFrameType stash buf = frame_byte stash buf 3"

definition reportHttp2 ::
  "http_env \<Rightarrow> http_state_t \<Rightarrow> http_buf_t \<Rightarrow> string \<Rightarrow> nat \<Rightarrow> httpId_t \<Rightarrow> (bool \<times> http_proto_info list) option" where
  "reportHttp2 env state stash buf frameLen httpId =
     (if frameLen = 0 \<or> \<not> he_alloc env then Some (False, [])
      else
        do {
          hdr \<leftarrow> (if hb_len stash \<noteq> 0
                  then do {
                    s \<leftarrow> hb_buf stash;
                    first \<leftarrow> mem_read s 0 (hb_len stash);
                    rest \<leftarrow> (if hb_len stash \<le> frameLen then mem_read buf 0 (frameLen - hb_len stash) else None);
                    Some (first @ rest)
                  }
                  else mem_read buf 0 frameLen);
          flags \<leftarrow> aget hdr 4;
          Some (odd ((of_char flags :: nat) div 4),
                [\<lparr>ev_ptype = EVT_H2FRAME,
                  ev_isServer = is_send (hs_id state),
                  ev_len = frameLen,
                  ev_fd = hid_sockfd httpId,
                  ev_uid = hid_uid httpId,
                  ev_sock_type = (case he_net env of None \<Rightarrow> -1 | Some n \<Rightarrow> ni_type n),
                  ev_localConn = (case he_net env of None \<Rightarrow> None | Some n \<Rightarrow> ni_local n),
                  ev_remoteConn = (case he_net env of None \<Rightarrow> None | Some n \<Rightarrow> ni_remote n),
                  ev_ssl = hid_isSsl (hs_id state),
                  ev_start = he_time env,
                  ev_id = hs_id state,
                  ev_hdr = hdr\<rparr>])
        })"

text \<open>
  The loop over the frames of a buffer: \<open>pos\<close> is the number of bytes before the current position.
  \<open>ok k\<close> says whether a reallocation of the stash at position \<open>k\<close> succeeds. Parsing more stashed
  bytes than the frame has would move the position backwards; that is undefined here.
\<close>

partial_function (option) parseHttp2_loop ::
  "(nat \<Rightarrow> bool) \<Rightarrow> http_env \<Rightarrow> string \<Rightarrow> httpId_t \<Rightarrow> nat \<Rightarrow> bool \<Rightarrow> http_state_t \<Rightarrow>
   (bool \<times> http_state_t \<times> http_proto_info list) option" where
  "parseHttp2_loop ok env buf httpId pos0 ret state =
     (if pos0 \<ge> length buf then Some (ret, state, [])
      else
        let pos = (if length buf - pos0 \<ge> HTTP2_MAGIC_LEN \<and> take HTTP2_MAGIC_LEN buf = HTTP2_MAGIC
                   then pos0 + HTTP2_MAGIC_LEN else pos0);
            stash = hs_http2Buf state;
            bufPos = drop pos buf
        in
          if bufPos = [] then Some (False, state, [])
          else if hb_len stash + length bufPos < 9
          then Option.bind (http2StashFrame (ok pos) stash bufPos)
                 (\<lambda>stash. Some (False, state\<lparr>hs_http2Buf := stash\<rparr>, []))
          else
            Option.bind (http2GetFrameLength stash bufPos) (\<lambda>fLen.
            Option.bind (http2GetFrameType stash bufPos) (\<lambda>fType.
              if hb_len stash + length bufPos < 9 + fLen
              then Option.bind (http2StashFrame (ok pos) stash bufPos)
                     (\<lambda>stash. Some (False, state\<lparr>hs_http2Buf := stash\<rparr>, []))
              else
                Option.bind (if fType = 1 \<or> fType = 5 \<or> fType = 9
                             then reportHttp2 env state stash bufPos (fLen + 9) httpId else Some (False, []))
                (\<lambda>(r, events).
                  if hb_len stash > fLen + 9 then None
                  else
                    Option.bind (parseHttp2_loop ok env buf httpId (pos + (fLen + 9 - hb_len stash)) (ret \<or> r)
                                   (state\<lparr>hs_http2Buf := stash\<lparr>hb_len := 0\<rparr>\<rparr>))
                    (\<lambda>(ret, state, more). Some (ret, state, events @ more))))))"

declare parseHttp2_loop.simps [code]

definition parseHttp2 ::
  "(nat \<Rightarrow> bool) \<Rightarrow> http_env \<Rightarrow> http_state_t \<Rightarrow> string \<Rightarrow> httpId_t \<Rightarrow>
   (bool \<times> http_state_t \<times> http_proto_info list) option" where
  "parseHttp2 ok env state buf httpId =
     (if buf = [] then Some (False, state, [])
      else parseHttp2_loop ok env buf httpId 0 False state)"

section \<open>Both versions\<close>

text \<open>The states of the two directions of a connection.\<close>

record http_states =
  http_rx :: http_state_t
  http_tx :: http_state_t

definition state_of :: "bool \<Rightarrow> http_states \<Rightarrow> http_state_t" where
  "state_of isTx s = (if isTx then http_tx s else http_rx s)"

definition put_state :: "bool \<Rightarrow> http_state_t \<Rightarrow> http_states \<Rightarrow> http_states" where
  "put_state isTx h s = (if isTx then s\<lparr>http_tx := h\<rparr> else s\<lparr>http_rx := h\<rparr>)"

definition set_versions :: "int \<Rightarrow> http_states \<Rightarrow> http_states" where
  "set_versions v s = \<lparr>http_rx = (http_rx s)\<lparr>hs_version := v\<rparr>, http_tx = (http_tx s)\<lparr>hs_version := v\<rparr>\<rparr>"

definition doHttpBuffer ::
  "http_globals \<Rightarrow> (nat \<Rightarrow> bool) \<Rightarrow> http_env \<Rightarrow> http_states \<Rightarrow> string \<Rightarrow> metric_t \<Rightarrow> httpId_t \<Rightarrow>
   (bool \<times> http_states \<times> http_proto_info list) option" where
  "doHttpBuffer g ok env states buf src httpId =
     (let isTx = (src = NETTX \<or> src = TLSTX) in
      do {
        (go, states, buf) \<leftarrow>
          (if hs_version (state_of isTx states) = 0
           then if length buf \<ge> HTTP2_MAGIC_LEN \<and> take HTTP2_MAGIC_LEN buf = HTTP2_MAGIC
                then Some (length buf > HTTP2_MAGIC_LEN, set_versions 2 states, drop HTTP2_MAGIC_LEN buf)
                else do {
                  p \<leftarrow> searchExec (g_http_start g) (Some buf) (to_int32 (int (length buf)));
                  if p \<noteq> -1 then Some (True, set_versions 1 states, buf) else Some (False, states, buf)
                }
           else Some (True, states, buf));
        if \<not> go then Some (False, states, [])
        else if hs_version (state_of isTx states) = 1
        then do {
          (ret, state, events) \<leftarrow> parseHttp1 g ok env (state_of isTx states) buf httpId;
          let states = put_state isTx state states;
          if hs_isResponse state \<and> hs_hasUpgrade state \<and> hs_hasConnectionUpgrade state
          then let states = set_versions 2 states
               in Some (ret, put_state isTx ((state_of isTx states)\<lparr>hs_isResponse := False, hs_hasUpgrade := False,
                               hs_hasConnectionUpgrade := False\<rparr>) states, events)
          else Some (ret, states, events)
        }
        else if hs_version (state_of isTx states) = 2
        then do {
          (ret, state, events) \<leftarrow> parseHttp2 ok env (state_of isTx states) buf httpId;
          Some (ret, put_state isTx state states, events)
        }
        else Some (False, states, [])
      })"

text \<open>\<open>ok i k\<close> is the outcome of the allocation at offset \<open>k\<close> of vector \<open>i\<close>.\<close>

fun doHttp_vectors ::
  "http_globals \<Rightarrow> (nat \<Rightarrow> nat \<Rightarrow> bool) \<Rightarrow> http_env \<Rightarrow> nat \<Rightarrow> string option list \<Rightarrow> metric_t \<Rightarrow> httpId_t \<Rightarrow>
   bool \<Rightarrow> http_states \<Rightarrow> (bool \<times> http_states \<times> http_proto_info list) option" where
  "doHttp_vectors g ok env i [] src httpId found states = Some (found, states, [])"
| "doHttp_vectors g ok env i (None # vs) src httpId found states =
     doHttp_vectors g ok env (Suc i) vs src httpId found states"
| "doHttp_vectors g ok env i (Some b # vs) src httpId found states =
     do {
       (r, states, events) \<leftarrow> doHttpBuffer g (ok i) env states b src httpId;
       (found, states, more) \<leftarrow> doHttp_vectors g ok env (Suc i) vs src httpId (found \<or> r) states;
       Some (found, states, events @ more)
     }"

definition SOCK_STREAM :: int where
  "SOCK_STREAM = 1"

definition doHttp ::
  "http_globals \<Rightarrow> (nat \<Rightarrow> nat \<Rightarrow> bool) \<Rightarrow> http_env \<Rightarrow> int \<Rightarrow> (net_entry \<times> http_states) option \<Rightarrow> src_data option \<Rightarrow>
   metric_t \<Rightarrow> (bool \<times> (net_entry \<times> http_states) option \<times> http_proto_info list) option" where
  "doHttp g ok env sockfd net buf src =
     (case (buf, net) of
        (Some d, Some (n, states)) \<Rightarrow>
          if data_len d = 0 \<or> ni_type n \<noteq> SOCK_STREAM then Some (False, net, [])
          else
            (case setHttpId (Some n) sockfd src of
               None \<Rightarrow> Some (False, net, [])
             | Some httpId \<Rightarrow>
                 do {
                   (found, states, events) \<leftarrow>
                     (case d of
                        BUF b \<Rightarrow> doHttpBuffer g (ok 0) env states b src httpId
                      | MSG k vs \<Rightarrow> doHttp_vectors g ok env 0 vs src httpId False states
                      | IOV vs \<Rightarrow> doHttp_vectors g ok env 0 vs src httpId False states
                      | OTHER k \<Rightarrow> Some (False, states, []));
                   Some (found, Some (n, states), events)
                 })
      | _ \<Rightarrow> Some (False, net, []))"

definition resetHttp :: "http_states \<Rightarrow> http_states" where
  "resetHttp s = \<lparr>http_rx = setHttpState (http_rx s) HTTP_NONE, http_tx = setHttpState (http_tx s) HTTP_NONE\<rparr>"

section \<open>Initialisation\<close>

text \<open>\<open>pcre\<close> compiles a pattern, named by what it matches; \<open>ok k\<close> is the outcome of allocation \<open>k\<close>.\<close>

datatype http_pattern = HTTP_CLENGTH | HTTP_UPGRADE | HTTP_CONNECT

definition initHttpState :: "(nat \<Rightarrow> bool) \<Rightarrow> (http_pattern \<Rightarrow> regex option) \<Rightarrow> http_globals" where
  "initHttpState ok pcre =
     \<lparr>g_http_start = searchComp (ok 0) (ok 1) (Some HTTP_START),
      g_http_end = searchComp (ok 2) (ok 3) (Some HTTP_END),
      g_http_clength = pcre HTTP_CLENGTH, g_http_upgrade = pcre HTTP_UPGRADE, g_http_connect = pcre HTTP_CONNECT\<rparr>"

text \<open>The pointers to the regular expressions are freed but not cleared; what is left must not be used.\<close>

definition destroyHttpState :: "http_globals \<Rightarrow> http_globals" where
  "destroyHttpState g = g\<lparr>g_http_end := searchFree (g_http_end g), g_http_start := searchFree (g_http_start g)\<rparr>"

end
