(* ===== verification/Http1.thy ===== *)
theory Http1
  imports Httpstate
begin

text \<open>
  HTTP/1: the parser is memory safe and bounds what it stores; a header that arrives in one buffer is
  reported exactly; the body that its content length announces is skipped.
\<close>

section \<open>The searches\<close>

lemma to_int32_range: "- (2 ^ 31) \<le> to_int32 x" "to_int32 x < 2 ^ 31"
  by (simp_all add: to_int32_def)

lemma to_int32_le: "to_int32 (int n) \<le> int n"
proof (cases "int n < 2 ^ 31")
  case True
  then show ?thesis by (simp add: to_int32_id)
next
  case False
  then show ?thesis using to_int32_range(2) [of "int n"] by linarith
qed

lemma searchComp_cases:
  assumes "searchComp ok1 ok2 (Some pat) = Some h"
  shows "searchComp True True (Some pat) = Some h"
  using assms by (auto simp: searchComp_def searchFree_def Let_def split: if_splits)

lemma searchLen_comp:
  assumes "searchComp True True (Some pat) = Some h" "length pat < 2 ^ 31"
  shows "searchLen (Some h) = int (length pat)"
  using assms by (auto simp: searchComp_def searchFree_def Let_def searchLen_def to_int32_id split: if_splits)

text \<open>A search over any part of a buffer is defined, and an occurrence lies in the buffer.\<close>

lemma search_defined:
  assumes "handle = searchComp ok1 ok2 (Some pat)" "length pat < 2 ^ 31" "n \<le> length hay"
  obtains r where "searchExec handle (Some hay) (to_int32 (int n)) = Some r"
    "r = -1 \<or> 0 \<le> r \<and> handle \<noteq> None \<and> nat r + length pat \<le> n"
proof (cases "handle = None \<or> to_int32 (int n) < 0")
  case True
  then have "searchExec handle (Some hay) (to_int32 (int n)) = Some (-1)"
    by (auto simp: searchExec_def split: option.splits)
  then show thesis using that by blast
next
  case False
  then obtain h where h: "handle = Some h" by auto
  define k where "k = nat (to_int32 (int n))"
  have k: "to_int32 (int n) = int k" "k \<le> n" "k < 2 ^ 31"
    using False to_int32_le [of n] to_int32_range(2) [of "int n"] by (auto simp: k_def)
  have "searchExec handle (Some hay) (to_int32 (int n)) =
      Some (case first_occurrence pat hay k of None \<Rightarrow> -1 | Some p \<Rightarrow> int p)"
    using search_naive [OF searchComp_cases [OF assms(1) [symmetric, unfolded h]] assms(2), of k hay] k assms(3) by (simp add: h)
  moreover have "p + length pat \<le> k" if "first_occurrence pat hay k = Some p" for p
    using that by (auto simp: first_occurrence_def find_Some_iff)
  ultimately show thesis
    using that k(2) h by (cases "first_occurrence pat hay k") force+
qed

section \<open>The header buffer\<close>

definition captured :: "http_state_t \<Rightarrow> string" where
  "captured hs = (case hs_hdr hs of None \<Rightarrow> [] | Some h \<Rightarrow> take (hs_hdrlen hs) h)"

definition h1_ok :: "http_state_t \<Rightarrow> bool" where
  "h1_ok hs \<longleftrightarrow> hs_hdralloc hs \<in> {0, 4096, 16384} \<and>
     (case hs_hdr hs of
        None \<Rightarrow> hs_hdrlen hs = 0 \<and> (hs_hdralloc hs = 0 \<or> hs_state hs = HTTP_DATA)
      | Some h \<Rightarrow> length h = hs_hdralloc hs \<and> hs_hdrlen hs \<le> hs_hdralloc hs \<and> hs_hdralloc hs \<noteq> 0) \<and>
     (hs_state hs = HTTP_NONE \<longrightarrow> hs_hdr hs = None)"

lemma hdrlen_captured: "h1_ok hs \<Longrightarrow> length (captured hs) = hs_hdrlen hs"
  by (auto simp: h1_ok_def captured_def split: option.splits)

lemma alloc_size: "hdr_alloc_size 4096 n = Some (if n \<le> 4096 then Some 4096 else if n \<le> 16384 then Some 16384 else None)"
    "hdr_alloc_size 16384 n = Some (if n \<le> 16384 then Some 16384 else None)"
proof -
  show 2: "hdr_alloc_size 16384 n = Some (if n \<le> 16384 then Some 16384 else None)" for n
    by (subst hdr_alloc_size.simps) (simp add: MAX_HDR_ALLOC_def)
  show "hdr_alloc_size 4096 n = Some (if n \<le> 4096 then Some 4096 else if n \<le> 16384 then Some 16384 else None)"
    by (subst hdr_alloc_size.simps) (simp add: MAX_HDR_ALLOC_def 2)
qed

lemma alloc_choice:
  assumes "a \<in> {4096, 16384}"
  shows "\<exists>r. hdr_alloc_size a n = Some r \<and> (r = None \<longleftrightarrow> 16384 < n) \<and>
    (\<forall>b. r = Some b \<longrightarrow> b \<in> {4096, 16384} \<and> n \<le> b \<and> a \<le> b)"
  using assms by (elim insertE emptyE) (simp_all add: alloc_size)

lemma h1_ok_none: "h1_ok (setHttpState hs HTTP_NONE)" "captured (setHttpState hs HTTP_NONE) = []"
    "hs_state (setHttpState hs HTTP_NONE) = HTTP_NONE"
  by (simp_all add: h1_ok_def setHttpState_def captured_def)

text \<open>The array after the size has been chosen: it keeps what was captured and has room.\<close>

lemma appendHeader_cases:
  assumes "h1_ok hs" "hs_state hs = HTTP_HDR \<or> hs_state hs = HTTP_HDREND"
  obtains "\<not> (ok \<and> hs_hdrlen hs + length data \<le> 16384)" "appendHeader ok hs data = Some (setHttpState hs HTTP_NONE)"
    | h a where "appendHeader ok hs data =
        Some (hs\<lparr>hs_hdr := Some h, hs_hdrlen := hs_hdrlen hs + length data, hs_hdralloc := a\<rparr>)"
      "a \<in> {4096, 16384}" "length h = a" "hs_hdrlen hs + length data \<le> a"
      "take (hs_hdrlen hs + length data) h = captured hs @ data"
proof -
  let ?n = "hs_hdrlen hs + length data"
  let ?a0 = "if hs_hdralloc hs = 0 then MIN_HDR_ALLOC else hs_hdralloc hs"
  let ?old = "case hs_hdr hs of None \<Rightarrow> [] | Some h \<Rightarrow> h"
  have a0: "?a0 \<in> {4096, 16384}" using assms(1) by (auto simp: h1_ok_def MIN_HDR_ALLOC_def)
  have old: "length ?old = hs_hdralloc hs" "hs_hdrlen hs \<le> hs_hdralloc hs" "take (hs_hdrlen hs) ?old = captured hs"
    "hs_hdralloc hs \<noteq> 0 \<Longrightarrow> hs_hdr hs = Some ?old"
    using assms by (auto simp: h1_ok_def captured_def split: option.splits)
  obtain r where r: "hdr_alloc_size ?a0 ?n = Some r" "r = None \<longleftrightarrow> 16384 < ?n"
      "\<And>a. r = Some a \<Longrightarrow> a \<in> {4096, 16384} \<and> ?n \<le> a \<and> ?a0 \<le> a"
    using alloc_choice [OF a0, of ?n] by blast
  show thesis
  proof (cases r)
    case None
    then show ?thesis using that(1) r by (simp add: appendHeader_def)
  next
    case (Some a)
    note a = r(3) [OF Some]
    show ?thesis
    proof (cases "a \<noteq> hs_hdralloc hs \<and> \<not> ok")
      case True
      then show ?thesis using that(1) r Some by (simp add: appendHeader_def)
    next
      case False
      define h0 where "h0 = (if a \<noteq> hs_hdralloc hs then c_realloc (CHR 0x00) a ?old else ?old)"
      have h0: "length h0 = a" "take (hs_hdrlen hs) h0 = captured hs"
        using old a a0 by (auto simp: h0_def take_c_realloc split: if_splits)
      define h where "h = take (hs_hdrlen hs) h0 @ data @ drop ?n h0"
      have w: "mem_write h0 (hs_hdrlen hs) data = Some h"
        using a h0(1) by (simp add: mem_write_def h_def)
      have "appendHeader ok hs data = Some (hs\<lparr>hs_hdr := Some h, hs_hdrlen := ?n, hs_hdralloc := a\<rparr>)"
      proof (cases "a = hs_hdralloc hs")
        case True
        then have "hs_hdr hs = Some h0" using old(4) a by (auto simp: h0_def)
        with True r(1) Some w show ?thesis by (simp add: appendHeader_def)
      next
        case neq: False
        then have "h0 = c_realloc (CHR 0x00) a ?old" by (simp add: h0_def)
        with neq False r(1) Some w show ?thesis by (simp add: appendHeader_def)
      qed
      moreover have "length h = a" "take ?n h = captured hs @ data"
        using h0 a hdrlen_captured [OF assms(1)] by (simp_all add: h_def)
      ultimately show ?thesis using that(2) a by blast
    qed
  qed
qed

lemma appendHeader_fits:
  assumes "h1_ok hs" "hs_state hs = HTTP_HDR \<or> hs_state hs = HTTP_HDREND" "length (captured hs) + length data \<le> 16384"
  obtains hs' where "appendHeader True hs data = Some hs'" "h1_ok hs'" "captured hs' = captured hs @ data"
    "\<exists>h n a. hs' = hs\<lparr>hs_hdr := h, hs_hdrlen := n, hs_hdralloc := a\<rparr>" "hs_hdr hs' \<noteq> None"
  using assms(1,2)
proof (cases rule: appendHeader_cases [where ok = True and data = data])
  case 1
  then show thesis using assms(3) hdrlen_captured [OF assms(1)] by simp
next
  case (2 h a)
  show thesis
    by (rule that [OF 2(1)]) (use 2 assms(2) in \<open>auto simp: h1_ok_def captured_def\<close>)
qed

lemma appendHeader_defined:
  assumes "h1_ok hs" "hs_state hs = HTTP_HDR \<or> hs_state hs = HTTP_HDREND"
  obtains hs' where "appendHeader ok hs data = Some hs'" "h1_ok hs'" "hs_state hs' = HTTP_NONE \<or> hs_state hs' = hs_state hs"
  using assms
proof (cases rule: appendHeader_cases [where ok = ok and data = data])
  case 1
  then show thesis using that h1_ok_none by blast
next
  case (2 h a)
  show thesis
    by (rule that [OF 2(1)]) (use 2 assms(2) in \<open>auto simp: h1_ok_def\<close>)
qed

section \<open>Memory safety\<close>

lemma h1_ok_state: "h1_ok hs \<Longrightarrow> hs_state hs \<noteq> HTTP_DATA \<Longrightarrow> s \<noteq> HTTP_NONE \<Longrightarrow> h1_ok (setHttpState hs s)"
  by (cases s) (auto simp: h1_ok_def setHttpState_def split: option.splits)

lemma setHttpState_state [simp]: "hs_state (setHttpState hs s) = s"
  by (cases s) (simp_all add: setHttpState_def)

text \<open>The needles of the parser.\<close>

definition globals_ok :: "http_globals \<Rightarrow> bool" where
  "globals_ok g \<longleftrightarrow> (\<exists>ok1 ok2 ok3 ok4. g_http_start g = searchComp ok1 ok2 (Some HTTP_START) \<and>
     g_http_end g = searchComp ok3 ok4 (Some HTTP_END))"

lemma globals_init: "globals_ok (initHttpState ok pcre)"
  by (auto simp: globals_ok_def initHttpState_def)

lemma search_start_defined:
  assumes "globals_ok g" "n \<le> length hay"
  obtains r where "searchExec (g_http_start g) (Some hay) (to_int32 (int n)) = Some r"
proof -
  obtain ok1 ok2 where "g_http_start g = searchComp ok1 ok2 (Some HTTP_START)"
    using assms(1) by (auto simp: globals_ok_def)
  from search_defined [OF this _ assms(2)] show thesis using that by (auto simp: HTTP_START_def)
qed

lemma search_end_defined:
  assumes "globals_ok g" "n \<le> length hay"
  obtains r where "searchExec (g_http_end g) (Some hay) (to_int32 (int n)) = Some r"
    "r = -1 \<or> 0 \<le> r \<and> searchLen (g_http_end g) = 2 \<and> nat r + 2 \<le> n"
proof -
  obtain ok3 ok4 where e: "g_http_end g = searchComp ok3 ok4 (Some HTTP_END)"
    using assms(1) by (auto simp: globals_ok_def)
  have l: "length HTTP_END = 2" by (simp add: HTTP_END_def crlf_def)
  obtain r where r: "searchExec (g_http_end g) (Some hay) (to_int32 (int n)) = Some r"
      "r = -1 \<or> 0 \<le> r \<and> g_http_end g \<noteq> None \<and> nat r + length HTTP_END \<le> n"
    using search_defined [OF e _ assms(2)] l by auto
  have "searchLen (g_http_end g) = 2" if some: "g_http_end g \<noteq> None"
  proof -
    obtain h where h: "g_http_end g = Some h" using some by auto
    show ?thesis using searchLen_comp [OF searchComp_cases [OF e [symmetric, unfolded h]]] l h by simp
  qed
  with r l show thesis using that by auto
qed

text \<open>One turn of the loop.\<close>

lemma loop_stop:
  assumes "\<not> ((hs_state hs = HTTP_HDR \<or> hs_state hs = HTTP_HDREND) \<and> start < length buf)"
  shows "parseHttp1_loop g ok buf start hs = Some (hs, start, False)"
  by (subst parseHttp1_loop.simps, subst if_not_P [OF assms]) (rule refl)

lemma loop_append:
  assumes "(hs_state hs = HTTP_HDR \<or> hs_state hs = HTTP_HDREND) \<and> start < length buf"
    and "searchExec (g_http_end g) (Some (drop start buf)) (to_int32 (int (length buf - start))) = Some (-1)"
    and "appendHeader (ok start) (setHttpState hs HTTP_HDR) (drop start buf) = Some hs'"
  shows "parseHttp1_loop g ok buf start hs = Some (hs', start, False)"
  by (subst parseHttp1_loop.simps, subst if_P [OF assms(1)]) (simp only: assms(2,3) bind.bind_lunit if_True simp_thms)

lemma loop_end:
  assumes "hs_state hs = HTTP_HDREND" "start < length buf"
    and "searchExec (g_http_end g) (Some (drop start buf)) (to_int32 (int (length buf - start))) = Some 0"
  shows "parseHttp1_loop g ok buf start hs = Some (hs, start, True)"
  by (subst parseHttp1_loop.simps) (simp only: assms bind.bind_lunit, simp)

lemma loop_line:
  assumes "(hs_state hs = HTTP_HDR \<or> hs_state hs = HTTP_HDREND) \<and> start < length buf"
    and "searchExec (g_http_end g) (Some (drop start buf)) (to_int32 (int (length buf - start))) = Some r"
    and "0 \<le> r" "\<not> (hs_state hs = HTTP_HDREND \<and> r = 0)" "searchLen (g_http_end g) = 2" "start + (nat r + 2) \<le> length buf"
    and "appendHeader (ok start) (setHttpState hs HTTP_HDREND) (take (nat r + 2) (drop start buf)) = Some hs'"
  shows "parseHttp1_loop g ok buf start hs = parseHttp1_loop g ok buf (start + nat r + 2) hs'"
proof -
  have "r \<noteq> -1" using assms(3) by simp
  moreover have "mem_read buf start (nat r + 2) = Some (take (nat r + 2) (drop start buf))"
    using assms(6) by (simp add: mem_read_def)
  moreover have "nat (2 :: int) = 2" by simp
  ultimately show ?thesis
    by (subst parseHttp1_loop.simps, subst if_P [OF assms(1)]) (simp only: assms(2,4,5,7) bind.bind_lunit if_False)
qed

lemma parseHttp1_loop_defined:
  assumes "globals_ok g" "h1_ok hs" "hs_state hs \<noteq> HTTP_DATA" "start \<le> length buf"
  shows "\<exists>hs' e f. parseHttp1_loop g ok buf start hs = Some (hs', e, f) \<and> h1_ok hs' \<and> hs_state hs' \<noteq> HTTP_DATA \<and>
    (f \<longrightarrow> hs_state hs' = HTTP_HDREND)"
  using assms(2-)
proof (induction "length buf - start" arbitrary: start hs rule: less_induct)
  case less
  show ?case
  proof (cases "(hs_state hs = HTTP_HDR \<or> hs_state hs = HTTP_HDREND) \<and> start < length buf")
    case False
    then show ?thesis using less.prems loop_stop [OF False] by auto
  next
    case True
    let ?hay = "drop start buf"
    obtain r where r: "searchExec (g_http_end g) (Some ?hay) (to_int32 (int (length buf - start))) = Some r"
        "r = -1 \<or> 0 \<le> r \<and> searchLen (g_http_end g) = 2 \<and> nat r + 2 \<le> length buf - start"
      using search_end_defined [OF assms(1), of "length buf - start" ?hay] by auto
    show ?thesis
    proof (cases "r = -1")
      case r1: True
      have "h1_ok (setHttpState hs HTTP_HDR)" using h1_ok_state [of hs HTTP_HDR] less.prems by simp
      then obtain hs' where hs': "appendHeader (ok start) (setHttpState hs HTTP_HDR) ?hay = Some hs'" "h1_ok hs'"
          "hs_state hs' = HTTP_NONE \<or> hs_state hs' = hs_state (setHttpState hs HTTP_HDR)"
        by (rule appendHeader_defined [where ok = "ok start" and data = ?hay]) simp_all
      have "parseHttp1_loop g ok buf start hs = Some (hs', start, False)"
        by (rule loop_append [where ok = ok, OF True r(1) [unfolded r1] hs'(1)])
      moreover have "hs_state hs' \<noteq> HTTP_DATA" using hs'(3) by auto
      ultimately show ?thesis using hs'(2) by blast
    next
      case r2: False
      then have r': "0 \<le> r" "searchLen (g_http_end g) = 2" "nat r + 2 \<le> length buf - start" using r(2) by auto
      show ?thesis
      proof (cases "hs_state hs = HTTP_HDREND \<and> r = 0")
        case fin: True
        then show ?thesis using loop_end [of hs start buf g ok] True r(1) less.prems by auto
      next
        case line: False
        let ?line = "take (nat r + 2) (drop start buf)"
        obtain hs1 where hs1: "appendHeader (ok start) (setHttpState hs HTTP_HDREND) ?line = Some hs1" "h1_ok hs1"
            "hs_state hs1 = HTTP_NONE \<or> hs_state hs1 = hs_state (setHttpState hs HTTP_HDREND)"
          by (rule appendHeader_defined [of "setHttpState hs HTTP_HDREND" "ok start" ?line])
            (use h1_ok_state [of hs HTTP_HDREND] less.prems in simp_all)
        have "hs_state hs1 \<noteq> HTTP_DATA" using hs1(3) by auto
        moreover have "length buf - (start + nat r + 2) < length buf - start" "start + nat r + 2 \<le> length buf"
          using r'(3) True by linarith+
        ultimately obtain hs' e f where "parseHttp1_loop g ok buf (start + nat r + 2) hs1 = Some (hs', e, f)" "h1_ok hs'"
            "hs_state hs' \<noteq> HTTP_DATA" "f \<longrightarrow> hs_state hs' = HTTP_HDREND"
          using less.hyps [of "start + nat r + 2" hs1] hs1(2) by blast
        moreover have "parseHttp1_loop g ok buf start hs = parseHttp1_loop g ok buf (start + nat r + 2) hs1"
          using loop_line [where g = g and ok = ok, OF True r(1) r'(1) line r'(2) _ hs1(1)] r'(3) True by linarith
        ultimately show ?thesis by simp
      qed
    qed
  qed
qed

lemma reportHttp1_ok:
  assumes "h1_ok hs" "reportHttp1 env hs = (rc, hs', ev)"
  shows "h1_ok (setHttpState (hs'\<lparr>hs_clen := c\<rparr>) HTTP_DATA)"
  using assms by (auto simp: reportHttp1_def h1_ok_def setHttpState_def Let_def split: option.splits if_splits)

lemma h1_ok_flags [simp]:
  "h1_ok (hs\<lparr>hs_isResponse := a, hs_hasUpgrade := b, hs_hasConnectionUpgrade := c\<rparr>) = h1_ok hs"
  "h1_ok (hs\<lparr>hs_id := i\<rparr>) = h1_ok hs" "h1_ok (hs\<lparr>hs_clen := k\<rparr>) = h1_ok hs"
  by (simp_all add: h1_ok_def split: option.split)

lemma finishHttp1_defined:
  assumes "globals_ok g" "h1_ok hs" "hs_state hs = HTTP_HDREND"
  shows "\<exists>hs' ev. finishHttp1 g ok env n hs = Some (hs', ev) \<and> h1_ok hs'"
proof -
  obtain hs1 where hs1: "appendHeader ok hs [CHR 0x00] = Some hs1" "h1_ok hs1"
    using appendHeader_defined [of hs ok "[CHR 0x00]"] assms(2,3) by auto
  obtain ok1 ok2 where g: "g_http_start g = searchComp ok1 ok2 (Some HTTP_START)"
    using assms(1) by (auto simp: globals_ok_def)
  have "\<exists>p. searchExec (g_http_start g) (hs_hdr hs1) (searchLen (g_http_start g)) = Some p"
  proof (cases "g_http_start g = None \<or> hs_hdr hs1 = None")
    case True
    then show ?thesis by (auto simp: searchExec_def split: option.splits)
  next
    case False
    then obtain h hd where h: "g_http_start g = Some h" "hs_hdr hs1 = Some hd" by auto
    have l: "length HTTP_START = 5" by (simp add: HTTP_START_def)
    have "searchLen (Some h) = 5"
      using searchLen_comp [OF searchComp_cases [OF g [symmetric, unfolded h(1)]]] l by simp
    moreover have "5 \<le> length hd" using hs1(2) h(2) by (auto simp: h1_ok_def)
    ultimately show ?thesis
      using search_start_defined [OF assms(1), of 5 hd] h by (auto simp: to_int32_id)
  qed
  then obtain p where p: "searchExec (g_http_start g) (hs_hdr hs1) (searchLen (g_http_start g)) = Some p" by blast
  let ?hd = "case hs_hdr hs1 of None \<Rightarrow> [] | Some h \<Rightarrow> take (hs_hdrlen hs1) h"
  let ?hs2 = "hs1\<lparr>hs_isResponse := (p \<noteq> -1), hs_hasUpgrade := hasUpgrade g ?hd,
                  hs_hasConnectionUpgrade := hasConnectionUpgrade g ?hd\<rparr>"
  obtain rc hs3 ev where r: "reportHttp1 env ?hs2 = (rc, hs3, ev)" by (metis prod.exhaust)
  then have "h1_ok (setHttpState (hs3\<lparr>hs_clen := c\<rparr>) HTTP_DATA)" for c
    using reportHttp1_ok [OF _ r] hs1(2) by simp
  then show ?thesis
    using hs1(1) p r h1_ok_none by (simp add: finishHttp1_def Let_def)
qed

lemma parseHttp1_headers_defined:
  assumes g: "globals_ok g" and s: "h1_ok s" "hs_state s \<noteq> HTTP_DATA"
  shows "\<exists>found hs' ev. parseHttp1_headers g ok env s b httpId = Some (found, hs', ev) \<and> h1_ok hs'"
proof -
  obtain p where p: "searchExec (g_http_start g) (Some b) (to_int32 (int (length b))) = Some p"
    using search_start_defined [OF g] by blast
  let ?s = "if hs_state s = HTTP_NONE then (setHttpState s HTTP_HDR)\<lparr>hs_id := httpId\<rparr> else s"
  have "h1_ok ?s" "hs_state ?s \<noteq> HTTP_DATA" using s h1_ok_state [of s HTTP_HDR] by auto
  then obtain hs' e f where l: "parseHttp1_loop g ok b 0 ?s = Some (hs', e, f)" "h1_ok hs'" "f \<longrightarrow> hs_state hs' = HTTP_HDREND"
    using parseHttp1_loop_defined [OF g, of ?s 0 b ok] by auto
  show ?thesis
  proof (cases f)
    case True
    then obtain hs2 ev where
      "finishHttp1 g (ok (length b)) env (length b - (e + 0 + nat (searchLen (g_http_end g)))) hs' = Some (hs2, ev)" "h1_ok hs2"
      using finishHttp1_defined [OF g l(2)] l(3) by blast
    with True l(1) p s(1) show ?thesis by (auto simp: parseHttp1_headers_def split: if_splits)
  next
    case False
    with l p s(1) show ?thesis by (auto simp: parseHttp1_headers_def split: if_splits)
  qed
qed

lemma parseHttp1_defined:
  assumes "globals_ok g" "h1_ok hs"
  shows "\<exists>found hs' ev. parseHttp1 g ok env hs buf httpId = Some (found, hs', ev) \<and> h1_ok hs'"
proof (cases "hs_state hs = HTTP_DATA")
  case True
  obtain bts hs1 where b: "bytesToSkipForContentLength hs (length buf) = (bts, hs1)" by fastforce
  then have "h1_ok hs1"
    using assms(2) by (auto simp: bytesToSkipForContentLength_def split: if_splits)
  moreover obtain found hs' ev where
    "parseHttp1_headers g ok env (setHttpState hs1 HTTP_NONE) (drop bts buf) httpId = Some (found, hs', ev)" "h1_ok hs'"
    using parseHttp1_headers_defined [OF assms(1), of "setHttpState hs1 HTTP_NONE" ok env "drop bts buf" httpId] h1_ok_none by auto
  ultimately show ?thesis using True assms(2) b by (auto simp: parseHttp1_def)
next
  case False
  then show ?thesis
    using parseHttp1_headers_defined [OF assms False, of ok env buf httpId] assms(2) by (auto simp: parseHttp1_def)
qed

section \<open>Lines\<close>

fun no_crlf :: "string \<Rightarrow> bool" where
  "no_crlf (c # d # cs) \<longleftrightarrow> \<not> (c = CHR 0x0D \<and> d = CHR 0x0A) \<and> no_crlf (d # cs)"
| "no_crlf _ \<longleftrightarrow> True"

lemma no_crlf_nth: "no_crlf l \<longleftrightarrow> (\<forall>p. Suc p < length l \<longrightarrow> \<not> (l ! p = CHR 0x0D \<and> l ! Suc p = CHR 0x0A))"
proof (induction l rule: no_crlf.induct)
  case (1 c d cs)
  show ?case unfolding no_crlf.simps 1
    by (auto simp: less_Suc_eq_0_disj nth_Cons split: nat.splits)
qed auto

definition line_text :: "string list \<Rightarrow> string" where
  "line_text ls = concat (map (\<lambda>l. l @ crlf) ls)"

lemma occurs_crlf: "Suc p < length hay \<Longrightarrow> occurs_at HTTP_END hay p \<longleftrightarrow> hay ! p = CHR 0x0D \<and> hay ! Suc p = CHR 0x0A"
  using occurs_nth [of p HTTP_END hay] by (auto simp: HTTP_END_def crlf_def less_Suc_eq)

text \<open>The needles, when they could be compiled.\<close>

definition needles :: "http_globals \<Rightarrow> bool" where
  "needles g \<longleftrightarrow> g_http_start g \<noteq> None \<and> g_http_start g = searchComp True True (Some HTTP_START) \<and>
     g_http_end g \<noteq> None \<and> g_http_end g = searchComp True True (Some HTTP_END)"

lemma needles_init: "needles (initHttpState (\<lambda>_. True) pcre)"
  by (simp add: needles_def initHttpState_def searchComp_def HTTP_START_def HTTP_END_def crlf_def to_int32_def Let_def)

lemma needles_globals: "needles g \<Longrightarrow> globals_ok g"
  by (auto simp: needles_def globals_ok_def)

lemma needles_end:
  assumes "needles g"
  obtains h where "g_http_end g = Some h" "searchComp True True (Some HTTP_END) = Some h"
  using assms unfolding needles_def by (metis option.exhaust)

lemma needles_start:
  assumes "needles g"
  obtains h where "g_http_start g = Some h" "searchComp True True (Some HTTP_START) = Some h"
  using assms by (auto simp: needles_def)

lemma needles_lengths: "length HTTP_END = 2" "length HTTP_START = 5" "length crlf = 2"
  by (simp_all add: HTTP_END_def HTTP_START_def crlf_def)

lemma needles_len:
  assumes "needles g"
  shows "searchLen (g_http_end g) = 2" "searchLen (g_http_start g) = 5"
proof -
  obtain e s where "g_http_end g = Some e" "searchComp True True (Some HTTP_END) = Some e"
      "g_http_start g = Some s" "searchComp True True (Some HTTP_START) = Some s"
    using needles_end [OF assms] needles_start [OF assms] by metis
  then show "searchLen (g_http_end g) = 2" "searchLen (g_http_start g) = 5"
    using searchLen_comp [of HTTP_END e] searchLen_comp [of HTTP_START s] by (simp_all add: needles_lengths)
qed

lemma search_end:
  assumes "needles g" "length hay < 2 ^ 31"
  shows "searchExec (g_http_end g) (Some hay) (to_int32 (int (length hay))) =
    Some (case first_occurrence HTTP_END hay (length hay) of None \<Rightarrow> -1 | Some p \<Rightarrow> int p)"
proof -
  obtain h where h: "g_http_end g = Some h" "searchComp True True (Some HTTP_END) = Some h"
    using needles_end [OF assms(1)] .
  show ?thesis using search_naive [OF h(2), of "length hay" hay] assms(2) h(1) by (simp add: to_int32_id needles_lengths)
qed

lemma search_start:
  assumes "needles g" "n < 2 ^ 31" "n \<le> length hay"
  shows "searchExec (g_http_start g) (Some hay) (int n) =
    Some (case first_occurrence HTTP_START hay n of None \<Rightarrow> -1 | Some p \<Rightarrow> int p)"
proof -
  obtain h where h: "g_http_start g = Some h" "searchComp True True (Some HTTP_START) = Some h"
    using needles_start [OF assms(1)] .
  show ?thesis using search_naive [OF h(2), of n hay] assms(2,3) h(1) by (simp add: needles_lengths)
qed

lemma first_occurrence_at:
  assumes "occurs_at pat hay p" "p + length pat \<le> n" "\<And>q. q < p \<Longrightarrow> \<not> occurs_at pat hay q"
  shows "first_occurrence pat hay n = Some p"
proof -
  have "p < Suc n - length pat" using assms(2) by simp
  then show ?thesis using assms by (auto simp: first_occurrence_def find_Some_iff intro!: exI [of _ p])
qed

lemma first_crlf:
  assumes "no_crlf l"
  shows "first_occurrence HTTP_END (l @ crlf @ rest) (length (l @ crlf @ rest)) = Some (length l)"
proof -
  let ?hay = "l @ crlf @ rest"
  have "\<not> occurs_at HTTP_END ?hay p" if "p < length l" for p
  proof -
    have "Suc p < length ?hay" using that by (simp add: crlf_def)
    from occurs_crlf [OF this] that assms show ?thesis
      by (cases "Suc p < length l") (auto simp: no_crlf_nth nth_append crlf_def)
  qed
  moreover have "occurs_at HTTP_END ?hay (length l)"
    by (simp add: occurs_at_def HTTP_END_def crlf_def)
  ultimately show ?thesis
    using first_occurrence_at [of HTTP_END ?hay "length l" "length ?hay"] by (simp add: needles_lengths)
qed

lemma first_crlf_None:
  assumes "no_crlf t"
  shows "first_occurrence HTTP_END t (length t) = None"
  using assms occurs_crlf [of _ t]
  by (auto simp: first_occurrence_def find_None_iff no_crlf_nth HTTP_END_def crlf_def)

lemma captured_state [simp]: "s \<noteq> HTTP_NONE \<Longrightarrow> captured (setHttpState hs s) = captured hs"
  by (cases s) (simp_all add: captured_def setHttpState_def split: option.split)

lemma id_state [simp]: "s \<noteq> HTTP_NONE \<Longrightarrow> hs_id (setHttpState hs s) = hs_id hs"
  by (cases s) (simp_all add: setHttpState_def)

lemma loop_lines:
  assumes "needles g" "\<forall>l\<in>set ls. l \<noteq> [] \<and> no_crlf l" "h1_ok hs"
    and "hs_state hs = HTTP_HDR \<or> hs_state hs = HTTP_HDREND"
    and "length (captured hs) + length (line_text ls) \<le> 16384" "length (pre @ line_text ls @ tail) < 2 ^ 31"
  shows "\<exists>hs'. parseHttp1_loop g (\<lambda>_. True) (pre @ line_text ls @ tail) (length pre) hs =
      parseHttp1_loop g (\<lambda>_. True) (pre @ line_text ls @ tail) (length (pre @ line_text ls)) hs' \<and>
    h1_ok hs' \<and> captured hs' = captured hs @ line_text ls \<and> hs_id hs' = hs_id hs \<and>
    hs_state hs' = (if ls = [] then hs_state hs else HTTP_HDREND)"
  using assms(2-)
proof (induction ls arbitrary: pre hs)
  case Nil
  then show ?case by (intro exI [of _ hs]) (simp add: line_text_def)
next
  case (Cons l ls)
  let ?buf = "pre @ line_text (l # ls) @ tail" and ?h = "setHttpState hs HTTP_HDREND"
  have lt: "line_text (l # ls) = l @ crlf @ line_text ls" by (simp add: line_text_def)
  have hay: "drop (length pre) ?buf = l @ crlf @ line_text ls @ tail" by (simp add: lt)
  have lc: "length crlf = 2" by (simp add: crlf_def)
  have s: "searchExec (g_http_end g) (Some (drop (length pre) ?buf)) (to_int32 (int (length ?buf - length pre))) =
      Some (int (length l))"
    using search_end [OF assms(1), of "l @ crlf @ line_text ls @ tail"] first_crlf [of l "line_text ls @ tail"] Cons.prems
    unfolding hay by (simp add: lt)
  have take: "take (nat (int (length l)) + 2) (drop (length pre) ?buf) = l @ crlf"
    unfolding hay using lc by simp
  have room: "length (captured ?h) + length (l @ crlf) \<le> 16384" using Cons.prems by (simp add: lt)
  have h: "h1_ok ?h" using h1_ok_state Cons.prems by auto
  obtain hs1 where hs1: "appendHeader True ?h (l @ crlf) = Some hs1" "h1_ok hs1"
      "captured hs1 = captured ?h @ (l @ crlf)" "\<exists>h n a. hs1 = ?h\<lparr>hs_hdr := h, hs_hdrlen := n, hs_hdralloc := a\<rparr>"
    using appendHeader_fits [OF h _ room] by (metis setHttpState_state)
  have st1: "hs_state hs1 = HTTP_HDREND" "hs_id hs1 = hs_id hs" using hs1(4) by auto
  have "parseHttp1_loop g (\<lambda>_. True) ?buf (length pre) hs = parseHttp1_loop g (\<lambda>_. True) ?buf (length (pre @ l @ crlf)) hs1"
    using loop_line [where ok = "\<lambda>_. True", OF _ s _ _ needles_len(1) [OF assms(1)], of hs hs1] Cons.prems hs1(1) lc
    unfolding take by (auto simp: lt add.assoc)
  moreover have "?buf = (pre @ l @ crlf) @ line_text ls @ tail" by (simp add: lt)
  ultimately show ?case
    using Cons.IH [of hs1 "pre @ l @ crlf"] Cons.prems hs1(2,3) st1 by (auto simp: lt)
qed

lemma loop_lines_end:
  assumes "needles g" "\<forall>l\<in>set ls. l \<noteq> [] \<and> no_crlf l" "ls \<noteq> []" "h1_ok hs" "hs_state hs = HTTP_HDR"
    and "length (captured hs) + length (line_text ls) \<le> 16384" "length (line_text ls @ crlf @ body) < 2 ^ 31"
  obtains hs' where "parseHttp1_loop g (\<lambda>_. True) (line_text ls @ crlf @ body) 0 hs = Some (hs', length (line_text ls), True)"
    "h1_ok hs'" "captured hs' = captured hs @ line_text ls" "hs_id hs' = hs_id hs" "hs_state hs' = HTTP_HDREND"
proof -
  let ?buf = "line_text ls @ crlf @ body" and ?n = "length (line_text ls)"
  obtain hs' where hs': "parseHttp1_loop g (\<lambda>_. True) ?buf 0 hs = parseHttp1_loop g (\<lambda>_. True) ?buf ?n hs'"
      "h1_ok hs'" "captured hs' = captured hs @ line_text ls" "hs_id hs' = hs_id hs" "hs_state hs' = HTTP_HDREND"
    using loop_lines [of g ls hs "[]" "crlf @ body"] assms by auto
  have "searchExec (g_http_end g) (Some (drop ?n ?buf)) (to_int32 (int (length ?buf - ?n))) = Some 0"
    using search_end [OF assms(1), of "crlf @ body"] first_crlf [of "[]" body] assms(7) by (simp add: no_crlf_nth)
  then have "parseHttp1_loop g (\<lambda>_. True) ?buf ?n hs' = Some (hs', ?n, True)"
    by (rule loop_end [OF hs'(5), rotated]) (simp add: needles_lengths)
  then show thesis using that [of hs'] hs' by simp
qed

lemma loop_lines_more:
  assumes "needles g" "\<forall>l\<in>set ls. l \<noteq> [] \<and> no_crlf l" "no_crlf t" "t \<noteq> []" "h1_ok hs"
    and "hs_state hs = HTTP_HDR \<or> hs_state hs = HTTP_HDREND"
    and "length (captured hs) + length (line_text ls @ t) \<le> 16384" "length (line_text ls @ t) < 2 ^ 31"
  obtains hs' where "parseHttp1_loop g (\<lambda>_. True) (line_text ls @ t) 0 hs = Some (hs', length (line_text ls), False)"
    "h1_ok hs'" "captured hs' = captured hs @ line_text ls @ t" "hs_id hs' = hs_id hs" "hs_state hs' = HTTP_HDR"
proof -
  let ?buf = "line_text ls @ t" and ?n = "length (line_text ls)"
  have "\<exists>hs1. parseHttp1_loop g (\<lambda>_. True) ?buf 0 hs = parseHttp1_loop g (\<lambda>_. True) ?buf ?n hs1 \<and> h1_ok hs1 \<and>
      captured hs1 = captured hs @ line_text ls \<and> hs_id hs1 = hs_id hs \<and>
      hs_state hs1 = (if ls = [] then hs_state hs else HTTP_HDREND)"
    using loop_lines [of g ls hs "[]" t] assms by simp
  then obtain hs1 where hs1: "parseHttp1_loop g (\<lambda>_. True) ?buf 0 hs = parseHttp1_loop g (\<lambda>_. True) ?buf ?n hs1"
      "h1_ok hs1" "captured hs1 = captured hs @ line_text ls" "hs_id hs1 = hs_id hs"
      "hs_state hs1 = HTTP_HDR \<or> hs_state hs1 = HTTP_HDREND"
    using assms(6) by (metis (full_types))
  let ?h = "setHttpState hs1 HTTP_HDR"
  have h: "h1_ok ?h" using h1_ok_state hs1(2,5) by auto
  have room: "length (captured ?h) + length t \<le> 16384" using assms(7) hs1(3) by simp
  obtain hs' where hs': "appendHeader True ?h t = Some hs'" "h1_ok hs'" "captured hs' = captured ?h @ t"
      "\<exists>h n a. hs' = ?h\<lparr>hs_hdr := h, hs_hdrlen := n, hs_hdralloc := a\<rparr>"
    using appendHeader_fits [OF h _ room] by (metis setHttpState_state)
  have "searchExec (g_http_end g) (Some (drop ?n ?buf)) (to_int32 (int (length ?buf - ?n))) = Some (-1)"
    using search_end [OF assms(1), of t] first_crlf_None [OF assms(3)] assms(8) by simp
  then have "parseHttp1_loop g (\<lambda>_. True) ?buf ?n hs1 = Some (hs', ?n, False)"
    by (rule loop_append [where ok = "\<lambda>_. True", rotated]) (use hs'(1) hs1(5) assms(4) in simp_all)
  then show thesis using that [of hs'] hs1 hs' by auto
qed

section \<open>Reports\<close>

definition header_event :: "httpId_t \<Rightarrow> string \<Rightarrow> http_proto_info \<Rightarrow> bool" where
  "header_event i header e \<longleftrightarrow>
     take (ev_len e) (ev_hdr e) = header @ [CHR 0x00] \<and>
     ev_ptype e = (if take 5 header = HTTP_START then EVT_HRES else EVT_HREQ) \<and>
     ev_isServer e = (is_send i \<longleftrightarrow> take 5 header = HTTP_START) \<and>
     ev_id e = i \<and> ev_fd e = hid_sockfd i \<and> ev_uid e = hid_uid i \<and> ev_ssl e = hid_isSsl i"

text \<open>The state after a header that was followed by \<open>n\<close> bytes of content.\<close>

definition after_header :: "http_globals \<Rightarrow> string \<Rightarrow> nat \<Rightarrow> http_state_t \<Rightarrow> bool" where
  "after_header g header n hs \<longleftrightarrow>
     (let clen = getContentLength g (header @ [CHR 0x00]) in
      if clen \<noteq> - 1 \<and> n \<le> unat clen then hs_state hs = HTTP_DATA \<and> hs_clen hs = clen - of_nat n
      else hs_state hs = HTTP_NONE)"

lemma starts_with_start:
  assumes "needles g" "5 \<le> length h"
  shows "\<exists>p. searchExec (g_http_start g) (Some h) (searchLen (g_http_start g)) = Some p \<and> (p \<noteq> -1 \<longleftrightarrow> take 5 h = HTTP_START)"
proof -
  have "first_occurrence HTTP_START h 5 = (if take 5 h = HTTP_START then Some 0 else None)"
    by (simp add: first_occurrence_def needles_lengths occurs_at_def upt_rec)
  then show ?thesis using search_start [OF assms(1) _ assms(2)] needles_len [OF assms(1)] by auto
qed

lemma reportHttp1_event:
  assumes "hs_hdr hs = Some h" "hs_hdrlen hs \<noteq> 0" "he_alloc env" "take (hs_hdrlen hs) h = header @ [CHR 0x00]"
    and "hs_isResponse hs \<longleftrightarrow> take 5 header = HTTP_START"
  shows "\<exists>e. reportHttp1 env hs = (0, hs\<lparr>hs_hdr := None, hs_hdrlen := 0\<rparr>, [e]) \<and> header_event (hs_id hs) header e"
  using assms by (auto simp: reportHttp1_def header_event_def Let_def)

lemma finishHttp1_reports:
  assumes "needles g" "h1_ok hs" "hs_state hs = HTTP_HDREND" "5 \<le> length (captured hs)" "length (captured hs) < 16384" "he_alloc env"
  obtains hs' e where "finishHttp1 g True env n hs = Some (hs', [e])" "header_event (hs_id hs) (captured hs) e"
    "after_header g (captured hs) n hs'"
proof -
  obtain hs1 where hs1: "appendHeader True hs [CHR 0x00] = Some hs1" "h1_ok hs1" "captured hs1 = captured hs @ [CHR 0x00]"
      "\<exists>h n a. hs1 = hs\<lparr>hs_hdr := h, hs_hdrlen := n, hs_hdralloc := a\<rparr>" "hs_hdr hs1 \<noteq> None"
    using appendHeader_fits [OF assms(2), of "[CHR 0x00]"] assms(3,5) by auto
  obtain h where h: "hs_hdr hs1 = Some h" "take (hs_hdrlen hs1) h = captured hs @ [CHR 0x00]"
    using hs1(3,5) by (auto simp: captured_def)
  have len: "hs_hdrlen hs1 = Suc (length (captured hs))" "hs_hdrlen hs1 \<le> length h"
    using hdrlen_captured [OF hs1(2)] hs1(2,3) h(1) by (auto simp: h1_ok_def)
  have t5: "take 5 h = take 5 (captured hs)"
  proof -
    have "take 5 h = take 5 (take (hs_hdrlen hs1) h)" using len assms(4) by (simp add: min_def)
    then show ?thesis unfolding h(2) using assms(4) by simp
  qed
  obtain p where p: "searchExec (g_http_start g) (Some h) (searchLen (g_http_start g)) = Some p"
      "p \<noteq> -1 \<longleftrightarrow> take 5 (captured hs) = HTTP_START"
    using starts_with_start [OF assms(1), of h] len assms(4) t5 by auto
  have i: "hs_id hs1 = hs_id hs" using hs1(4) by auto
  let ?hdr = "captured hs @ [CHR 0x00]"
  let ?hs2 = "hs1\<lparr>hs_isResponse := p \<noteq> -1, hs_hasUpgrade := hasUpgrade g ?hdr, hs_hasConnectionUpgrade := hasConnectionUpgrade g ?hdr\<rparr>"
  obtain e where e: "reportHttp1 env ?hs2 = (0, ?hs2\<lparr>hs_hdr := None, hs_hdrlen := 0\<rparr>, [e])" "header_event (hs_id hs) (captured hs) e"
    using reportHttp1_event [of ?hs2 h env "captured hs"] h len(1) p(2) assms(6) i by auto
  let ?c = "getContentLength g ?hdr" and ?hs3 = "?hs2\<lparr>hs_hdr := None, hs_hdrlen := 0\<rparr>"
  have "finishHttp1 g True env n hs = Some (if ?c \<noteq> - 1 \<and> n \<le> unat ?c
      then setHttpState (?hs3\<lparr>hs_clen := ?c - of_nat n\<rparr>) HTTP_DATA else setHttpState ?hs3 HTTP_NONE, [e])"
    unfolding finishHttp1_def hs1(1) bind.bind_lunit Let_def h(1) option.case h(2) p(1) e(1) prod.case by simp
  moreover have "after_header g (captured hs) n (if ?c \<noteq> - 1 \<and> n \<le> unat ?c
      then setHttpState (?hs3\<lparr>hs_clen := ?c - of_nat n\<rparr>) HTTP_DATA else setHttpState ?hs3 HTTP_NONE)"
    unfolding after_header_def Let_def by (simp add: setHttpState_def)
  ultimately show thesis using that e(2) by blast
qed

definition clean_headers :: "string list \<Rightarrow> bool" where
  "clean_headers ls \<longleftrightarrow> ls \<noteq> [] \<and> (\<forall>l\<in>set ls. l \<noteq> [] \<and> no_crlf l) \<and> 5 \<le> length (line_text ls) \<and> length (line_text ls) < 16384"

lemma found_start:
  assumes "needles g" "length buf < 2 ^ 31" "p + 5 \<le> length buf" "occurs_at HTTP_START buf p"
  shows "map_option (\<lambda>p. p \<noteq> -1) (searchExec (g_http_start g) (Some buf) (to_int32 (int (length buf)))) = Some True"
proof -
  have "first_occurrence HTTP_START buf (length buf) \<noteq> None"
    using assms(3,4) by (auto simp: first_occurrence_def find_None_iff needles_lengths intro!: exI [of _ p])
  then show ?thesis using search_start [OF assms(1,2)] assms(2) by (auto simp: to_int32_id)
qed

lemma fresh_header:
  assumes "h1_ok hs" "hs_state hs = HTTP_NONE"
  shows "h1_ok ((setHttpState hs HTTP_HDR)\<lparr>hs_id := i\<rparr>)" "captured ((setHttpState hs HTTP_HDR)\<lparr>hs_id := i\<rparr>) = []"
  using h1_ok_state [of hs HTTP_HDR] assms by (auto simp: setHttpState_def captured_def h1_ok_def)

lemma header_reported:
  assumes g: "needles g" and hs: "h1_ok hs" "hs_state hs = HTTP_NONE" and ls: "clean_headers ls"
    and buf: "length (line_text ls @ crlf @ body) < 2 ^ 31"
    and start: "p + 5 \<le> length (line_text ls @ crlf @ body)" "occurs_at HTTP_START (line_text ls @ crlf @ body) p"
    and env: "he_alloc env"
  shows "\<exists>hs' e. parseHttp1 g (\<lambda>_. True) env hs (line_text ls @ crlf @ body) i = Some (True, hs', [e]) \<and>
    header_event i (line_text ls) e \<and> after_header g (line_text ls) (length body) hs'"
proof -
  let ?buf = "line_text ls @ crlf @ body" and ?h = "(setHttpState hs HTTP_HDR)\<lparr>hs_id := i\<rparr>"
  note h = fresh_header [OF hs, of i]
  obtain hs1 where hs1: "parseHttp1_loop g (\<lambda>_. True) ?buf 0 ?h = Some (hs1, length (line_text ls), True)"
      "h1_ok hs1" "captured hs1 = captured ?h @ line_text ls" "hs_id hs1 = hs_id ?h" "hs_state hs1 = HTTP_HDREND"
    using loop_lines_end [OF g _ _ h(1), of ls body] ls h(2) buf by (auto simp: clean_headers_def)
  obtain hs' e where f: "finishHttp1 g True env (length body) hs1 = Some (hs', [e])"
      "header_event i (line_text ls) e" "after_header g (line_text ls) (length body) hs'"
    using finishHttp1_reports [OF g hs1(2,5) _ _ env, of "length body"] hs1(3,4) h(2) ls by (auto simp: clean_headers_def)
  have "parseHttp1_headers g (\<lambda>_. True) env hs ?buf i = Some (True, hs', [e])"
    unfolding parseHttp1_headers_def hs(2) found_start [OF g buf start] simp_thms if_True if_False bind.bind_lunit Let_def hs1(1)
      prod.case needles_len [OF g] using f(1) by (simp add: needles_lengths)
  then show ?thesis using f(2,3) hs(2) by (simp add: parseHttp1_def)
qed

text \<open>
  C27. A message whose header arrives in one buffer is reported exactly once: the event carries the header
  lines, null terminated, as a response when they start with \<open>HTTP/\<close> and as a request otherwise, with the side
  of the connection that follows from the direction; the parser then waits for what is missing of
  the announced content, or for the next header.
\<close>

theorem http1_header_reported:
  assumes "g = initHttpState (\<lambda>_. True) pcre" "h1_ok hs" "hs_state hs = HTTP_NONE" "clean_headers ls"
    and "length (line_text ls @ crlf @ body) < 2 ^ 31"
    and "p + 5 \<le> length (line_text ls @ crlf @ body)" "occurs_at HTTP_START (line_text ls @ crlf @ body) p"
    and "he_alloc env"
  shows "\<exists>hs' e. parseHttp1 g (\<lambda>_. True) env hs (line_text ls @ crlf @ body) i = Some (True, hs', [e]) \<and>
    header_event i (line_text ls) e \<and> after_header g (line_text ls) (length body) hs'"
  using header_reported [OF _ assms(2-)] needles_init assms(1) by blast

theorem http1_header_reported_witness:
  "\<exists>hs' e. parseHttp1 (initHttpState (\<lambda>_. True) (\<lambda>_. None)) (\<lambda>_. True) \<lparr>he_alloc = True, he_time = 7, he_net = None\<rparr>
      http_state0 (line_text [''HTTP/1.1 200 OK'', ''Server: x''] @ crlf @ ''body'') httpId0 = Some (True, hs', [e]) \<and>
    header_event httpId0 (line_text [''HTTP/1.1 200 OK'', ''Server: x'']) e \<and>
    after_header (initHttpState (\<lambda>_. True) (\<lambda>_. None)) (line_text [''HTTP/1.1 200 OK'', ''Server: x'']) (length ''body'') hs'"
  by (rule http1_header_reported [where p = 0, OF refl])
    (simp_all add: h1_ok_def http_state0_def clean_headers_def line_text_def crlf_def occurs_at_def HTTP_START_def)

section \<open>Content\<close>

fun parse_all :: "http_globals \<Rightarrow> (nat \<Rightarrow> bool) \<Rightarrow> http_env \<Rightarrow> httpId_t \<Rightarrow> http_state_t \<Rightarrow> string list \<Rightarrow>
    (http_state_t \<times> http_proto_info list) option" where
  "parse_all g ok env i hs [] = Some (hs, [])"
| "parse_all g ok env i hs (b # bs) =
     do {
       (found, hs, ev) \<leftarrow> parseHttp1 g ok env hs b i;
       (hs, more) \<leftarrow> parse_all g ok env i hs bs;
       Some (hs, ev @ more)
     }"

lemma content_skipped_once:
  assumes "hs_state hs = HTTP_DATA" "hid_isSsl (hs_id hs) = hid_isSsl i" "length b \<le> unat (hs_clen hs)"
  shows "parseHttp1 g ok env hs b i = Some (False, hs\<lparr>hs_clen := hs_clen hs - of_nat (length b)\<rparr>, [])"
  using assms by (auto simp: parseHttp1_def bytesToSkipForContentLength_def)

text \<open>
  C28. The content that a header announced is skipped, in however many buffers it arrives: none of them is
  taken for a header, and the parser counts exactly their bytes.
\<close>

theorem http1_content_skipped:
  assumes "hs_state hs = HTTP_DATA" "hid_isSsl (hs_id hs) = hid_isSsl i" "length (concat bs) \<le> unat (hs_clen hs)"
  shows "parse_all g ok env i hs bs = Some (hs\<lparr>hs_clen := hs_clen hs - of_nat (length (concat bs))\<rparr>, [])"
  using assms
proof (induction bs arbitrary: hs)
  case (Cons b bs)
  let ?hs = "hs\<lparr>hs_clen := hs_clen hs - of_nat (length b)\<rparr>"
  have le: "length b \<le> unat (hs_clen hs)" using Cons.prems(3) by simp
  have "unat (hs_clen hs - of_nat (length b)) = unat (hs_clen hs) - length b"
    using le by (metis le_unat_uoi unat_sub word_le_nat_alt)
  then have "parse_all g ok env i ?hs bs = Some (?hs\<lparr>hs_clen := hs_clen ?hs - of_nat (length (concat bs))\<rparr>, [])"
    using Cons.IH [of ?hs] Cons.prems by simp
  then show ?case
    using content_skipped_once [OF Cons.prems(1,2) le, of g ok env] by (simp add: algebra_simps)
qed simp

theorem http1_content_skipped_witness:
  "parse_all (initHttpState (\<lambda>_. True) (\<lambda>_. None)) (\<lambda>_. True) \<lparr>he_alloc = True, he_time = 7, he_net = None\<rparr> httpId0
      (http_state0\<lparr>hs_state := HTTP_DATA, hs_clen := 20\<rparr>) [''HTTP/1.1 '', ''200 OK''] =
    Some (http_state0\<lparr>hs_state := HTTP_DATA, hs_clen := 5\<rparr>, [])"
  using http1_content_skipped [of "http_state0\<lparr>hs_state := HTTP_DATA, hs_clen := 20\<rparr>" httpId0 "[''HTTP/1.1 '', ''200 OK'']"
      "initHttpState (\<lambda>_. True) (\<lambda>_. None)" "\<lambda>_. True" "\<lparr>he_alloc = True, he_time = 7, he_net = None\<rparr>"]
  by (simp add: http_state0_def)

section \<open>A separator across two buffers\<close>

text \<open>
  C29. The end of the headers is searched within one buffer only. When a buffer ends between the two
  characters of a line's separator, and the rest of the message has no other, the header is
  never reported: the content is appended to it instead, although the same bytes in one buffer are reported.
\<close>

theorem http1_split_separator:
  assumes "g = initHttpState (\<lambda>_. True) pcre" "h1_ok hs" "hs_state hs = HTTP_NONE" "clean_headers ls" "he_alloc env"
    and "occurs_at HTTP_START (line_text ls) p" "p + 5 \<le> length (line_text ls)"
    and "no_crlf (CHR 0x0A # body)" "length (line_text ls @ crlf @ body) \<le> 16384"
  shows "(\<exists>hs' e. parseHttp1 g (\<lambda>_. True) env hs (line_text ls @ crlf @ body) i = Some (True, hs', [e])) \<and>
    (\<exists>hs'. parse_all g (\<lambda>_. True) env i hs [line_text ls @ [CHR 0x0D], CHR 0x0A # body] = Some (hs', []) \<and>
      hs_state hs' = HTTP_HDR \<and> captured hs' = line_text ls @ crlf @ body)"
proof (rule conjI)
  have g: "needles g" using needles_init assms(1) by simp
  have occ: "occurs_at HTTP_START (line_text ls @ t) p" for t
    using assms(6,7) by (simp add: occurs_at_def needles_lengths)
  have len: "length (line_text ls @ crlf @ body) < 2 ^ 31" using assms(9) by simp
  show "\<exists>hs' e. parseHttp1 g (\<lambda>_. True) env hs (line_text ls @ crlf @ body) i = Some (True, hs', [e])"
    using header_reported [OF g assms(2-4) len _ occ assms(5)] assms(7) by force
  let ?b1 = "line_text ls @ [CHR 0x0D]" and ?h = "(setHttpState hs HTTP_HDR)\<lparr>hs_id := i\<rparr>"
  note h = fresh_header [OF assms(2,3), of i]
  obtain hs1 where hs1: "parseHttp1_loop g (\<lambda>_. True) ?b1 0 ?h = Some (hs1, length (line_text ls), False)"
      "h1_ok hs1" "captured hs1 = line_text ls @ [CHR 0x0D]" "hs_id hs1 = i" "hs_state hs1 = HTTP_HDR"
    using loop_lines_more [OF g _ _ _ h(1), of ls "[CHR 0x0D]"] h(2) assms(4,9) by (auto simp: clean_headers_def crlf_def)
  have f: "map_option (\<lambda>p. p \<noteq> -1) (searchExec (g_http_start g) (Some ?b1) (to_int32 (int (length ?b1)))) = Some True"
    by (rule found_start [OF g _ _ occ]) (use assms(7,9) in simp_all)
  have p1: "parseHttp1 g (\<lambda>_. True) env hs ?b1 i = Some (False, hs1, [])"
    unfolding parseHttp1_def parseHttp1_headers_def assms(3) f simp_thms if_True if_False bind.bind_lunit Let_def hs1(1)
      prod.case by simp
  obtain hs2 where hs2: "parseHttp1_loop g (\<lambda>_. True) (CHR 0x0A # body) 0 hs1 = Some (hs2, 0, False)"
      "captured hs2 = captured hs1 @ (CHR 0x0A # body)" "hs_state hs2 = HTTP_HDR"
    using loop_lines_more [OF g _ assms(8) _ hs1(2), of "[]"] hs1(3,5) assms(9) by (auto simp: line_text_def crlf_def)
  have p2: "parseHttp1 g (\<lambda>_. True) env hs1 (CHR 0x0A # body) i = Some (False, hs2, [])"
    using hs2(1) hs1(4,5) by (simp add: parseHttp1_def parseHttp1_headers_def)
  show "\<exists>hs'. parse_all g (\<lambda>_. True) env i hs [line_text ls @ [CHR 0x0D], CHR 0x0A # body] = Some (hs', []) \<and>
      hs_state hs' = HTTP_HDR \<and> captured hs' = line_text ls @ crlf @ body"
    using p1 p2 hs2(2,3) hs1(3) by (simp add: crlf_def)
qed

theorem http1_split_separator_witness:
  "(\<exists>hs' e. parseHttp1 (initHttpState (\<lambda>_. True) (\<lambda>_. None)) (\<lambda>_. True) \<lparr>he_alloc = True, he_time = 7, he_net = None\<rparr>
      http_state0 (line_text [''GET / HTTP/1.1''] @ crlf @ ''body'') httpId0 = Some (True, hs', [e])) \<and>
   (\<exists>hs'. parse_all (initHttpState (\<lambda>_. True) (\<lambda>_. None)) (\<lambda>_. True) \<lparr>he_alloc = True, he_time = 7, he_net = None\<rparr> httpId0
      http_state0 [line_text [''GET / HTTP/1.1''] @ [CHR 0x0D], CHR 0x0A # ''body''] = Some (hs', []) \<and>
      hs_state hs' = HTTP_HDR \<and> captured hs' = line_text [''GET / HTTP/1.1''] @ crlf @ ''body'')"
  by (rule http1_split_separator [where p = 6, OF refl])
    (simp_all add: h1_ok_def http_state0_def clean_headers_def line_text_def crlf_def occurs_at_def HTTP_START_def)

end
