(* ===== verification/Http2.thy ===== *)
theory Http2
  imports Httpstate
begin

text \<open>
  HTTP/2 framing: the parser finds the frames of the byte stream of a connection, however the stream
  is cut into buffers.
\<close>

section \<open>The specification\<close>

text \<open>The total length of the frame at the start of a stream of at least nine bytes.\<close>

definition frame_len :: "string \<Rightarrow> nat" where
  "frame_len bs = of_char (bs ! 0) * 65536 + of_char (bs ! 1) * 256 + of_char (bs ! 2) + 9"

definition complete :: "string \<Rightarrow> bool" where
  "complete bs \<longleftrightarrow> 9 \<le> length bs \<and> frame_len bs \<le> length bs"

text \<open>The complete frames of a stream, and what is left.\<close>

function split_frames :: "string \<Rightarrow> string list \<times> string" where
  "split_frames bs =
     (if complete bs
      then let (fs, r) = split_frames (drop (frame_len bs) bs) in (take (frame_len bs) bs # fs, r)
      else ([], bs))"
  by pat_completeness auto
termination
  by (relation "measure length") (auto simp: complete_def frame_len_def)

declare split_frames.simps [simp del]

definition header_frame :: "string \<Rightarrow> bool" where
  "header_frame f \<longleftrightarrow> of_char (f ! 3) \<in> {1 :: nat, 5, 9}"

definition frame_event :: "http_env \<Rightarrow> httpId_t \<Rightarrow> httpId_t \<Rightarrow> string \<Rightarrow> http_proto_info" where
  "frame_event env sid httpId f =
     \<lparr>ev_ptype = EVT_H2FRAME, ev_isServer = is_send sid, ev_len = length f, ev_fd = hid_sockfd httpId,
      ev_uid = hid_uid httpId,
      ev_sock_type = (case he_net env of None \<Rightarrow> -1 | Some n \<Rightarrow> ni_type n),
      ev_localConn = (case he_net env of None \<Rightarrow> None | Some n \<Rightarrow> ni_local n),
      ev_remoteConn = (case he_net env of None \<Rightarrow> None | Some n \<Rightarrow> ni_remote n),
      ev_ssl = hid_isSsl sid, ev_start = he_time env, ev_id = sid, ev_hdr = f\<rparr>"

lemma frame_len_prefix: "3 \<le> length a \<Longrightarrow> frame_len (a @ b) = frame_len a"
  by (cases a) (auto simp: frame_len_def nth_append)

lemma complete_append: "complete a \<Longrightarrow> complete (a @ b)"
  by (auto simp: complete_def frame_len_prefix)

lemma frame_len_ge: "9 \<le> frame_len bs"
  by (simp add: frame_len_def)

lemma split_frames_incomplete: "\<not> complete bs \<Longrightarrow> split_frames bs = ([], bs)"
  by (subst split_frames.simps) simp

lemma split_frames_rest: "\<not> complete (snd (split_frames bs))"
proof (induction bs rule: split_frames.induct)
  case (1 bs)
  then show ?case
    by (cases "complete bs") (simp_all add: split_frames_incomplete split_frames.simps [of bs] split_beta)
qed

lemma split_frames_append:
  "split_frames (a @ b) =
     (fst (split_frames a) @ fst (split_frames (snd (split_frames a) @ b)), snd (split_frames (snd (split_frames a) @ b)))"
proof (induction a rule: split_frames.induct)
  case (1 a)
  show ?case
  proof (cases "complete a")
    case True
    then have fl: "frame_len (a @ b) = frame_len a" "frame_len a \<le> length a"
      by (auto simp: complete_def frame_len_prefix)
    have "split_frames (a @ b) =
        (take (frame_len a) a # fst (split_frames (drop (frame_len a) a @ b)), snd (split_frames (drop (frame_len a) a @ b)))"
      using complete_append [OF True] fl by (subst split_frames.simps) (simp add: split_beta)
    then show ?thesis
      using 1 [OF True] True by (simp add: split_frames.simps [of a] split_beta)
  qed (simp add: split_frames_incomplete)
qed

lemma split_one_frame: "frame_len f = length f \<Longrightarrow> split_frames f = ([f], [])"
  using frame_len_ge [of f] by (subst split_frames.simps) (simp add: complete_def split_frames_incomplete)

section \<open>The stash\<close>

definition stash_ok :: "http_buf_t \<Rightarrow> bool" where
  "stash_ok s \<longleftrightarrow> hb_len s \<le> hb_size s \<and> (case hb_buf s of None \<Rightarrow> hb_size s = 0 | Some b \<Rightarrow> length b = hb_size s)"

definition stash_bytes :: "http_buf_t \<Rightarrow> string" where
  "stash_bytes s = (case hb_buf s of None \<Rightarrow> [] | Some b \<Rightarrow> take (hb_len s) b)"

lemma length_stash: "stash_ok s \<Longrightarrow> length (stash_bytes s) = hb_len s"
  by (auto simp: stash_ok_def stash_bytes_def split: option.splits)

lemma stash0 [simp]: "stash_ok http_buf0" "stash_bytes http_buf0 = []"
  by (simp_all add: stash_ok_def stash_bytes_def http_buf0_def)

lemma stash_cleared: "stash_ok s \<Longrightarrow> stash_ok (s\<lparr>hb_len := 0\<rparr>) \<and> stash_bytes (s\<lparr>hb_len := 0\<rparr>) = []"
  by (auto simp: stash_ok_def stash_bytes_def split: option.splits)

lemma mem_write_append:
  "n \<le> length a \<Longrightarrow> n + length d \<le> length a \<Longrightarrow>
   \<exists>a'. mem_write a n d = Some a' \<and> length a' = length a \<and> take (n + length d) a' = take n a @ d"
  by (simp add: mem_write_def)

lemma round_up_1024: "n \<le> (n + 1023) div 1024 * (1024 :: nat)"
  using div_mult_mod_eq [of "n + 1023" 1024] mod_less_divisor [of 1024 "n + 1023"] by linarith

lemma http2StashFrame_ok:
  assumes "stash_ok s" "data \<noteq> []"
  obtains s' where "http2StashFrame True s data = Some s'" "stash_ok s'" "stash_bytes s' = stash_bytes s @ data"
proof -
  let ?need = "length data + hb_len s" and ?old = "case hb_buf s of None \<Rightarrow> [] | Some b \<Rightarrow> b"
  let ?s1 = "if ?need > hb_size s
     then s\<lparr>hb_buf := Some (c_realloc (CHR 0x00) ((?need + 1023) div 1024 * 1024) ?old),
             hb_size := (?need + 1023) div 1024 * 1024\<rparr> else s"
  have old: "length ?old = hb_size s" "hb_len s \<le> hb_size s" "take (hb_len s) ?old = stash_bytes s"
    using assms(1) by (auto simp: stash_ok_def stash_bytes_def split: option.splits)
  obtain b where b: "hb_buf ?s1 = Some b" "length b = hb_size ?s1" "?need \<le> hb_size ?s1" "take (hb_len s) b = stash_bytes s"
  proof (cases "?need > hb_size s")
    case True
    have "?need \<le> (?need + 1023) div 1024 * 1024" by (rule round_up_1024)
    with True old that show ?thesis by (simp add: take_c_realloc)
  next
    case False
    with assms old that show ?thesis
      by (cases "hb_buf s") (auto simp: stash_ok_def)
  qed
  obtain b' where b': "mem_write b (hb_len s) data = Some b'" "length b' = length b"
      "take (hb_len s + length data) b' = take (hb_len s) b @ data"
    using mem_write_append [of "hb_len s" b data] b by auto
  have len: "hb_len ?s1 = hb_len s" by simp
  let ?s2 = "?s1\<lparr>hb_buf := Some b', hb_len := hb_len s + length data\<rparr>"
  show thesis
  proof (rule that)
    show "http2StashFrame True s data = Some ?s2"
      using b(1) b'(1) by (simp add: http2StashFrame_def Let_def split: if_splits)
    show "stash_ok ?s2"
      using b b' by (simp add: stash_ok_def)
    show "stash_bytes ?s2 = stash_bytes s @ data"
      using b b' by (simp add: stash_bytes_def)
  qed
qed

lemma frame_byte_ok:
  assumes "stash_ok s" "i < hb_len s + length buf"
  shows "frame_byte s buf i = Some (of_char ((stash_bytes s @ buf) ! i))"
proof (cases "i < hb_len s")
  case True
  then show ?thesis
    using assms by (auto simp: frame_byte_def stash_ok_def stash_bytes_def aget_nat nth_append split: option.splits)
next
  case False
  then have "i - hb_len s < length buf" using assms(2) by linarith
  then show ?thesis
    using False by (simp only: frame_byte_def aget_nat nth_append length_stash [OF assms(1)]) simp
qed

lemma frame_fields:
  assumes "stash_ok s" "9 \<le> hb_len s + length buf"
  shows "http2GetFrameLength s buf = Some (frame_len (stash_bytes s @ buf) - 9)"
    "http2GetFrameType s buf = Some (of_char ((stash_bytes s @ buf) ! 3))"
proof -
  have b: "frame_byte s buf i = Some (of_char ((stash_bytes s @ buf) ! i))" if "i < 9" for i
    using frame_byte_ok [OF assms(1)] assms(2) that by simp
  show "http2GetFrameLength s buf = Some (frame_len (stash_bytes s @ buf) - 9)"
    by (simp add: http2GetFrameLength_def frame_len_def b del: One_nat_def)
  show "http2GetFrameType s buf = Some (of_char ((stash_bytes s @ buf) ! 3))"
    by (simp add: http2GetFrameType_def b)
qed

lemma stash_small:
  assumes "stash_ok s" "\<not> complete (stash_bytes s)"
  shows "hb_len s < frame_len (stash_bytes s @ buf)"
proof (rule ccontr)
  assume "\<not> hb_len s < frame_len (stash_bytes s @ buf)"
  then have "frame_len (stash_bytes s @ buf) \<le> length (stash_bytes s)" using length_stash [OF assms(1)] by simp
  then have "complete (stash_bytes s)"
    using frame_len_ge [of "stash_bytes s @ buf"] frame_len_prefix [of "stash_bytes s" buf] by (simp add: complete_def)
  with assms(2) show False by simp
qed

lemma reportHttp2_ok:
  assumes "stash_ok s" "he_alloc env" "frameLen \<le> hb_len s + length buf" "9 \<le> frameLen" "hb_len s \<le> frameLen"
  shows "\<exists>r. reportHttp2 env state s buf frameLen httpId =
    Some (r, [frame_event env (hs_id state) httpId (take frameLen (stash_bytes s @ buf))])"
proof -
  let ?f = "take frameLen (stash_bytes s @ buf)"
  have len: "length ?f = frameLen" using assms(3) length_stash [OF assms(1)] by simp
  then have "aget ?f 4 = Some (?f ! 4)" using assms(4) by (simp add: aget_def)
  moreover have "(if hb_len s \<noteq> 0
      then do { b \<leftarrow> hb_buf s; first \<leftarrow> mem_read b 0 (hb_len s);
                rest \<leftarrow> (if hb_len s \<le> frameLen then mem_read buf 0 (frameLen - hb_len s) else None);
                Some (first @ rest) }
      else mem_read buf 0 frameLen) = Some ?f"
    using assms length_stash [OF assms(1)]
    by (auto simp: stash_ok_def stash_bytes_def mem_read_def split: option.splits)
  ultimately show ?thesis
    using assms(2,4) len by (simp add: reportHttp2_def frame_event_def del: length_take)
qed

section \<open>The loop\<close>

text \<open>A buffer in which the parser sees no preface.\<close>

definition no_magic :: "string \<Rightarrow> bool" where
  "no_magic buf \<longleftrightarrow> take HTTP2_MAGIC_LEN buf \<noteq> HTTP2_MAGIC"

text \<open>The outcome of parsing a stream of bytes in a state.\<close>

definition parsed :: "http_env \<Rightarrow> httpId_t \<Rightarrow> http_state_t \<Rightarrow> string \<Rightarrow> http_state_t \<Rightarrow> http_proto_info list \<Rightarrow> bool" where
  "parsed env httpId state bs state' events \<longleftrightarrow>
     stash_ok (hs_http2Buf state') \<and> stash_bytes (hs_http2Buf state') = snd (split_frames bs) \<and>
     (\<exists>b. state' = state\<lparr>hs_http2Buf := b\<rparr>) \<and>
     events = map (frame_event env (hs_id state) httpId) (filter header_frame (fst (split_frames bs)))"

lemma parsed_keep:
  "stash_ok (hs_http2Buf state) \<Longrightarrow> \<not> complete (stash_bytes (hs_http2Buf state)) \<Longrightarrow>
   parsed env httpId state (stash_bytes (hs_http2Buf state)) state []"
  by (auto simp: parsed_def split_frames_incomplete intro!: exI [of _ "hs_http2Buf state"])

lemma parsed_stash:
  "stash_ok s \<Longrightarrow> stash_bytes s = bs \<Longrightarrow> \<not> complete bs \<Longrightarrow> parsed env httpId state bs (state\<lparr>hs_http2Buf := s\<rparr>) []"
  by (auto simp: parsed_def split_frames_incomplete)

lemma parsed_frame:
  assumes "complete bs" "parsed env httpId (state\<lparr>hs_http2Buf := s\<rparr>) (drop (frame_len bs) bs) state' evs"
  shows "parsed env httpId state bs state'
    ((if header_frame (take (frame_len bs) bs) then [frame_event env (hs_id state) httpId (take (frame_len bs) bs)] else [])
     @ evs)"
  using assms by (auto simp: parsed_def split_frames.simps [of bs] split_beta)

lemma parseHttp2_loop_ok:
  assumes "stash_ok (hs_http2Buf state)" "\<not> complete (stash_bytes (hs_http2Buf state))" "no_magic buf" "he_alloc env"
  shows "\<exists>ret' state' events. parseHttp2_loop (\<lambda>_. True) env buf httpId pos ret state = Some (ret', state', events) \<and>
    parsed env httpId state (stash_bytes (hs_http2Buf state) @ drop pos buf) state' events"
  using assms(1,2)
proof (induction "length buf - pos" arbitrary: pos ret state rule: less_induct)
  case less
  let ?s = "hs_http2Buf state" and ?p = "drop pos buf"
  let ?bs = "stash_bytes ?s @ ?p"
  have len: "length ?bs = hb_len ?s + length ?p" using length_stash [OF less.prems(1)] by simp
  show ?case
  proof (cases "pos \<ge> length buf")
    case True
    then show ?thesis
      using parsed_keep [OF less.prems] by (subst parseHttp2_loop.simps) simp
  next
    case False
    then have ne: "?p \<noteq> []" by simp
    obtain s' where s': "http2StashFrame True ?s ?p = Some s'" "stash_ok s'" "stash_bytes s' = ?bs"
      using http2StashFrame_ok [OF less.prems(1) ne] .
    show ?thesis
    proof (cases "complete ?bs")
      case c: False
      have "parsed env httpId state ?bs (state\<lparr>hs_http2Buf := s'\<rparr>) []"
        using parsed_stash [OF s'(2,3) c] .
      moreover have "parseHttp2_loop (\<lambda>_. True) env buf httpId pos ret state =
          Some (False, state\<lparr>hs_http2Buf := s'\<rparr>, [])"
        using False ne assms(3) s'(1) c len frame_fields [OF less.prems(1), of ?p] frame_len_ge [of ?bs]
        by (subst parseHttp2_loop.simps) (auto simp: no_magic_def Let_def complete_def)
      ultimately show ?thesis by blast
    next
      case c: True
      let ?n = "frame_len ?bs" and ?st = "state\<lparr>hs_http2Buf := ?s\<lparr>hb_len := 0\<rparr>\<rparr>"
      let ?pos = "pos + (?n - hb_len ?s)"
      have n: "9 \<le> ?n" "?n \<le> hb_len ?s + length ?p" "9 \<le> hb_len ?s + length ?p"
        using c len frame_len_ge [of ?bs] by (auto simp: complete_def)
      have small: "hb_len ?s < ?n" using stash_small [OF less.prems] .
      have rest: "drop ?pos buf = drop ?n ?bs"
        using small length_stash [OF less.prems(1)] by (simp add: add.commute)
      have "length buf - ?pos < length buf - pos" using False small by linarith
      from less.hyps [OF this, of ?st "ret \<or> r" for r] stash_cleared [OF less.prems(1)]
      have IH: "\<exists>ret' state' events. parseHttp2_loop (\<lambda>_. True) env buf httpId ?pos (ret \<or> r) ?st = Some (ret', state', events) \<and>
          parsed env httpId ?st (drop ?n ?bs) state' events" for r
        by (simp add: rest complete_def)
      obtain r where r: "reportHttp2 env state ?s ?p (?n - 9 + 9) httpId =
          Some (r, [frame_event env (hs_id state) httpId (take ?n ?bs)])"
        using reportHttp2_ok [OF less.prems(1) assms(4) n(2) n(1) less_imp_le [OF small]] le_add_diff_inverse2 [OF n(1)]
        by metis
      have hf: "header_frame (take ?n ?bs) \<longleftrightarrow> of_char (?bs ! 3) \<in> {1 :: nat, 5, 9}"
        using nth_take [of 3 ?n ?bs] n(1) by (simp add: header_frame_def del: take_append)
      let ?r = "if header_frame (take ?n ?bs) then r else False"
      let ?ev = "if header_frame (take ?n ?bs) then [frame_event env (hs_id state) httpId (take ?n ?bs)] else []"
      obtain ret' state' events where e: "parseHttp2_loop (\<lambda>_. True) env buf httpId ?pos (ret \<or> ?r) ?st = Some (ret', state', events)"
          "parsed env httpId ?st (drop ?n ?bs) state' events"
        using IH by blast
      have "parseHttp2_loop (\<lambda>_. True) env buf httpId pos ret state = Some (ret', state', ?ev @ events)"
        using False ne assms(3) n small r e(1) hf frame_fields [OF less.prems(1) n(3)]
        by (subst parseHttp2_loop.simps) (auto simp: no_magic_def Let_def simp del: take_append)
      moreover have "parsed env httpId state ?bs state' (?ev @ events)"
        using parsed_frame [OF c e(2)] .
      ultimately show ?thesis by blast
    qed
  qed
qed

section \<open>Properties\<close>

text \<open>The buffers of one direction of a connection, one call each.\<close>

fun feed_http2 :: "http_env \<Rightarrow> httpId_t \<Rightarrow> http_state_t \<Rightarrow> string list \<Rightarrow> (http_state_t \<times> http_proto_info list) option" where
  "feed_http2 env httpId state [] = Some (state, [])"
| "feed_http2 env httpId state (b # bs) =
     do {
       (ret, state, events) \<leftarrow> parseHttp2 (\<lambda>_. True) env state b httpId;
       (state, later) \<leftarrow> feed_http2 env httpId state bs;
       Some (state, events @ later)
     }"

lemma parseHttp2_ok:
  assumes "stash_ok (hs_http2Buf state)" "\<not> complete (stash_bytes (hs_http2Buf state))" "no_magic buf" "he_alloc env"
  obtains ret state' events where "parseHttp2 (\<lambda>_. True) env state buf httpId = Some (ret, state', events)"
    "parsed env httpId state (stash_bytes (hs_http2Buf state) @ buf) state' events"
proof (cases "buf = []")
  case True
  then show thesis using that [of False state "[]"] parsed_keep [OF assms(1,2)] by (simp add: parseHttp2_def)
next
  case False
  with parseHttp2_loop_ok [OF assms, of httpId 0 False] that show thesis
    by (auto simp: parseHttp2_def)
qed

lemma feed_http2_ok:
  assumes "stash_ok (hs_http2Buf state)" "\<not> complete (stash_bytes (hs_http2Buf state))"
    and "\<forall>b\<in>set bufs. no_magic b" "he_alloc env"
  shows "\<exists>state' events. feed_http2 env httpId state bufs = Some (state', events) \<and>
    parsed env httpId state (stash_bytes (hs_http2Buf state) @ concat bufs) state' events"
  using assms(1-3)
proof (induction bufs arbitrary: state)
  case Nil
  then show ?case using parsed_keep by simp
next
  case (Cons b bufs)
  let ?a = "stash_bytes (hs_http2Buf state) @ b"
  have nb: "no_magic b" using Cons.prems(3) by simp
  obtain ret st1 ev1 where p1: "parseHttp2 (\<lambda>_. True) env state b httpId = Some (ret, st1, ev1)"
      "parsed env httpId state ?a st1 ev1"
    using parseHttp2_ok [OF Cons.prems(1,2) nb assms(4)] .
  have st1: "stash_ok (hs_http2Buf st1)" "stash_bytes (hs_http2Buf st1) = snd (split_frames ?a)"
      "hs_id st1 = hs_id state"
    using p1(2) by (auto simp: parsed_def)
  have "\<not> complete (stash_bytes (hs_http2Buf st1))" using st1(2) split_frames_rest [of ?a] by simp
  from Cons.IH [OF st1(1) this] Cons.prems(3) obtain st2 ev2 where
    p2: "feed_http2 env httpId st1 bufs = Some (st2, ev2)"
        "parsed env httpId st1 (snd (split_frames ?a) @ concat bufs) st2 ev2"
    using st1(2) by auto
  have "parsed env httpId state (?a @ concat bufs) st2 (ev1 @ ev2)"
    using p1(2) p2(2) st1(3) by (auto simp: parsed_def split_frames_append [of ?a] simp del: append_assoc)
  then show ?case using p1(1) p2(1) by simp
qed

text \<open>
  C30. HTTP/2 frames are found however the byte stream of a connection is cut into buffers: feeding the
  buffers one call each posts exactly the HEADERS, PUSH_PROMISE and CONTINUATION frames of the whole
  stream, complete and in order, and leaves the incomplete rest in the stash. The parser
  stays inside its buffers and each call ends. (No buffer starts with the connection preface, and memory is available.)
\<close>

theorem http2_reassembly:
  assumes "hs_http2Buf state = http_buf0" "\<forall>b\<in>set bufs. no_magic b" "he_alloc env"
  shows "\<exists>state' events. feed_http2 env httpId state bufs = Some (state', events) \<and>
    events = map (frame_event env (hs_id state) httpId) (filter header_frame (fst (split_frames (concat bufs)))) \<and>
    stash_bytes (hs_http2Buf state') = snd (split_frames (concat bufs))"
proof -
  have "\<not> complete []" by (simp add: complete_def)
  then show ?thesis
    using feed_http2_ok [of state bufs env httpId] assms by (auto simp: parsed_def)
qed

text \<open>A HEADERS frame with the END_HEADERS flag and three bytes of payload.\<close>

definition frame3 :: string where
  "frame3 = map char_of [0, 0, 3, 1, 4, 0, 0, 0, 1, 65, 66, 67 :: nat]"

definition env0 :: http_env where
  "env0 = \<lparr>he_alloc = True, he_time = 0, he_net = None\<rparr>"

theorem http2_reassembly_witness:
  "\<exists>state'. feed_http2 env0 httpId0 http_state0 [take 5 frame3, drop 5 frame3] =
     Some (state', [frame_event env0 httpId0 httpId0 frame3])"
proof -
  have magic: "\<forall>b\<in>set [take 5 frame3, drop 5 frame3]. no_magic b" by code_simp
  have "length frame3 = 12" "frame_len frame3 = 12" "header_frame frame3"
    by (simp_all add: frame3_def frame_len_def header_frame_def)
  then have split: "fst (split_frames (concat [take 5 frame3, drop 5 frame3])) = [frame3]" "header_frame frame3"
    by (simp_all add: split_one_frame)
  from http2_reassembly [of http_state0 "[take 5 frame3, drop 5 frame3]" env0 httpId0] magic split
  show ?thesis by (auto simp: http_state0_def env0_def)
qed

definition settings_frame :: string where
  "settings_frame = map char_of [0, 0, 0, 4, 0, 0, 0, 0, 0 :: nat]"

text \<open>
  C31. The preface is looked for at the start of the buffer in every turn of the loop, not at the current
  position: when a buffer starts with the preface, 24 bytes are skipped before every frame. A
  24-byte HEADERS frame that follows the preface and a SETTINGS frame in the same buffer is lost,
  although without the preface it is reported.
\<close>

theorem http2_magic_skips:
  assumes "length f = 24" "frame_len f = 24" "header_frame f" "he_alloc env" "hs_http2Buf state = http_buf0"
  shows "parseHttp2 ok env state (HTTP2_MAGIC @ settings_frame @ f) httpId =
           Some (False, state\<lparr>hs_http2Buf := http_buf0\<rparr>, []) \<and>
         (\<exists>ret state'. parseHttp2 (\<lambda>_. True) env state (settings_frame @ f) httpId =
           Some (ret, state', [frame_event env (hs_id state) httpId f]))"
proof
  let ?b = "HTTP2_MAGIC @ settings_frame @ f"
  have m: "length HTTP2_MAGIC = 24" "take 24 ?b = HTTP2_MAGIC" "length settings_frame = 9"
    by (simp_all add: HTTP2_MAGIC_def crlf_def settings_frame_def)
  have stash: "http_buf0\<lparr>hb_len := 0\<rparr> = http_buf0" "hb_len http_buf0 = 0" by (simp_all add: http_buf0_def)
  have fields: "http2GetFrameLength http_buf0 (settings_frame @ f) = Some 0"
    "http2GetFrameType http_buf0 (settings_frame @ f) = Some 4"
    by (simp_all add: http2GetFrameLength_def http2GetFrameType_def frame_byte_def http_buf0_def settings_frame_def aget_def)
  have "parseHttp2_loop ok env ?b httpId 33 False (state\<lparr>hs_http2Buf := http_buf0\<rparr>) =
      Some (False, state\<lparr>hs_http2Buf := http_buf0\<rparr>, [])"
    using m assms(1) by (subst parseHttp2_loop.simps) (simp add: HTTP2_MAGIC_LEN_def Let_def)
  moreover have "drop 24 ?b = settings_frame @ f" using m(1) by simp
  ultimately have "parseHttp2_loop ok env ?b httpId 0 False state = Some (False, state\<lparr>hs_http2Buf := http_buf0\<rparr>, [])"
    using m assms(1,5) fields
    by (subst parseHttp2_loop.simps) (simp add: HTTP2_MAGIC_LEN_def Let_def stash)
  then show "parseHttp2 ok env state ?b httpId = Some (False, state\<lparr>hs_http2Buf := http_buf0\<rparr>, [])"
    using m(1) by (auto simp: parseHttp2_def)
  have "no_magic (settings_frame @ f)"
    by (simp add: no_magic_def HTTP2_MAGIC_def settings_frame_def HTTP2_MAGIC_LEN_def numeral_eq_Suc)
  then obtain ret state' events where p: "parseHttp2 (\<lambda>_. True) env state (settings_frame @ f) httpId = Some (ret, state', events)"
      "parsed env httpId state (stash_bytes (hs_http2Buf state) @ settings_frame @ f) state' events"
    using parseHttp2_ok [of state "settings_frame @ f" env httpId] assms(4,5) by (auto simp: complete_def)
  have "frame_len settings_frame = 9" "\<not> header_frame settings_frame"
    by (simp_all add: settings_frame_def frame_len_def header_frame_def)
  then have "events = [frame_event env (hs_id state) httpId f]"
    using p(2) assms m(3) by (simp add: parsed_def split_frames_append [of settings_frame] split_one_frame)
  with p(1) show "\<exists>ret state'. parseHttp2 (\<lambda>_. True) env state (settings_frame @ f) httpId =
      Some (ret, state', [frame_event env (hs_id state) httpId f])" by blast
qed

definition frame15 :: string where
  "frame15 = map char_of ([0, 0, 15, 1, 4, 0, 0, 0, 1] @ replicate 15 (65 :: nat))"

theorem http2_magic_skips_witness:
  "parseHttp2 (\<lambda>_. True) env0 http_state0 (HTTP2_MAGIC @ settings_frame @ frame15) httpId0 =
     Some (False, http_state0\<lparr>hs_http2Buf := http_buf0\<rparr>, [])"
proof -
  have "length frame15 = 24" "frame_len frame15 = 24" "header_frame frame15"
    by (simp_all add: frame15_def frame_len_def header_frame_def)
  from http2_magic_skips [OF this, of env0 http_state0 "\<lambda>_. True" httpId0] show ?thesis
    by (simp add: env0_def http_state0_def)
qed

end
