(* ===== verification/Httpsafe.thy ===== *)
theory Httpsafe
  imports Http1 Http2
begin

text \<open>
  The parser as a whole: what both versions keep of the state of a connection, over every buffer,
  every outcome of the allocations and every kind of source data.
\<close>

section \<open>HTTP/2 with failing allocations\<close>

definition h2_ok :: "http_state_t \<Rightarrow> bool" where
  "h2_ok hs \<longleftrightarrow> stash_ok (hs_http2Buf hs) \<and> \<not> complete (stash_bytes (hs_http2Buf hs))"

lemma h2_ok_buf0 [simp]: "hs_http2Buf hs = http_buf0 \<Longrightarrow> h2_ok hs"
  by (simp add: h2_ok_def complete_def)

lemma h1_ok_stash [simp]: "h1_ok (hs\<lparr>hs_http2Buf := b\<rparr>) = h1_ok hs"
  by (simp add: h1_ok_def split: option.split)

lemma stash_defined:
  assumes "stash_ok s" "data \<noteq> []"
  obtains s' where "http2StashFrame ok s data = Some s'" "stash_ok s'" "stash_bytes s' = stash_bytes s \<or> stash_bytes s' = stash_bytes s @ data"
proof (cases ok)
  case True
  then show thesis using http2StashFrame_ok [OF assms] that by (metis (full_types))
next
  case False
  obtain s' where s': "http2StashFrame True s data = Some s'" "stash_ok s'" "stash_bytes s' = stash_bytes s @ data"
    using http2StashFrame_ok [OF assms] .
  show thesis
  proof (cases "length data + hb_len s > hb_size s")
    case full: True
    then show ?thesis using that [of s] False assms(1) by (simp add: http2StashFrame_def)
  next
    case room: False
    then have "http2StashFrame ok s data = http2StashFrame True s data" by (simp add: http2StashFrame_def)
    then show ?thesis using that s' by metis
  qed
qed

lemma reportHttp2_defined:
  assumes "stash_ok s" "frameLen \<le> hb_len s + length buf" "9 \<le> frameLen" "hb_len s \<le> frameLen"
  obtains r ev where "reportHttp2 env state s buf frameLen httpId = Some (r, ev)"
proof (cases "he_alloc env")
  case True
  then show thesis using reportHttp2_ok [OF assms(1) True assms(2-4)] that by blast
next
  case False
  then show thesis using that by (simp add: reportHttp2_def)
qed

lemma parseHttp2_loop_defined:
  assumes "h1_ok state" "h2_ok state"
  shows "\<exists>ret' state' events. parseHttp2_loop ok env buf httpId pos ret state = Some (ret', state', events) \<and>
    h1_ok state' \<and> h2_ok state'"
  using assms
proof (induction "length buf - pos" arbitrary: pos ret state rule: less_induct)
  case less
  let ?s = "hs_http2Buf state"
  obtain q where q: "(if length buf - pos \<ge> HTTP2_MAGIC_LEN \<and> take HTTP2_MAGIC_LEN buf = HTTP2_MAGIC
      then pos + HTTP2_MAGIC_LEN else pos) = q" "pos \<le> q"
    by simp
  let ?p = "drop q buf"
  let ?bs = "stash_bytes ?s @ ?p"
  have s: "stash_ok ?s" "\<not> complete (stash_bytes ?s)" using less.prems(2) by (simp_all add: h2_ok_def)
  have len: "length ?bs = hb_len ?s + length ?p" using length_stash [OF s(1)] by simp
  show ?case
  proof (cases "pos \<ge> length buf \<or> ?p = []")
    case True
    then show ?thesis
      using less.prems by (subst parseHttp2_loop.simps) (auto simp: Let_def q(1))
  next
    case False
    then have pos: "\<not> pos \<ge> length buf" and ne: "?p \<noteq> []" by auto
    show ?thesis
    proof (cases "complete ?bs")
      case c: False
      obtain s' where s': "http2StashFrame (ok q) ?s ?p = Some s'" "stash_ok s'"
          "stash_bytes s' = stash_bytes ?s \<or> stash_bytes s' = ?bs"
        using stash_defined [OF s(1) ne] .
      have "h2_ok (state\<lparr>hs_http2Buf := s'\<rparr>)" using s'(2,3) c s(2) by (auto simp: h2_ok_def)
      moreover have "parseHttp2_loop ok env buf httpId pos ret state = Some (False, state\<lparr>hs_http2Buf := s'\<rparr>, [])"
      proof (cases "hb_len ?s + length ?p < 9")
        case True
        then show ?thesis
          by (subst parseHttp2_loop.simps, subst if_not_P [OF pos]) (simp only: Let_def q(1) ne if_False if_True s'(1) bind.bind_lunit)
      next
        case g1: False
        then have g2: "hb_len ?s + length ?p < 9 + (frame_len ?bs - 9)" and n9: "9 \<le> hb_len ?s + length ?p"
          using c len frame_len_ge [of ?bs] by (auto simp: complete_def)
        show ?thesis
          by (subst parseHttp2_loop.simps, subst if_not_P [OF pos])
            (simp only: Let_def q(1) ne g1 g2 if_False if_True frame_fields [OF s(1) n9] s'(1) bind.bind_lunit)
      qed
      ultimately show ?thesis using less.prems(1) by auto
    next
      case c: True
      let ?n = "frame_len ?bs" and ?st = "state\<lparr>hs_http2Buf := ?s\<lparr>hb_len := 0\<rparr>\<rparr>"
      let ?next = "q + (?n - hb_len ?s)"
      have n: "9 \<le> ?n" "?n \<le> hb_len ?s + length ?p" "9 \<le> hb_len ?s + length ?p"
        using c len frame_len_ge [of ?bs] by (auto simp: complete_def)
      have small: "hb_len ?s < ?n" using stash_small [OF s] .
      have st: "h1_ok ?st" "h2_ok ?st"
        using stash_cleared [OF s(1)] less.prems(1) by (simp_all add: h2_ok_def complete_def)
      have dec: "length buf - ?next < length buf - pos" using pos small q(2) by linarith
      have n9: "?n - 9 + 9 = ?n" using n(1) by simp
      obtain r ev where r: "reportHttp2 env state ?s ?p ?n httpId = Some (r, ev)"
        using reportHttp2_defined [OF s(1) n(2,1) less_imp_le [OF small]] .
      define re where "re = (if of_char (?bs ! 3) = (1 :: nat) \<or> of_char (?bs ! 3) = (5 :: nat) \<or> of_char (?bs ! 3) = (9 :: nat)
        then (r, ev) else (False, []))"
      obtain ret' state' events where e: "parseHttp2_loop ok env buf httpId ?next (ret \<or> fst re) ?st = Some (ret', state', events)"
          "h1_ok state'" "h2_ok state'"
        using less.hyps [OF dec st] by blast
      have rep: "(if of_char (?bs ! 3) = (1 :: nat) \<or> of_char (?bs ! 3) = (5 :: nat) \<or> of_char (?bs ! 3) = (9 :: nat)
          then reportHttp2 env state ?s ?p ?n httpId else Some (False, [])) = Some (fst re, snd re)"
        using r by (simp add: re_def)
      have g1: "\<not> hb_len ?s + length ?p < 9" and g2: "\<not> hb_len ?s + length ?p < 9 + (?n - 9)" and g3: "\<not> hb_len ?s > ?n"
        using n small by linarith+
      have "parseHttp2_loop ok env buf httpId pos ret state = Some (ret', state', snd re @ events)"
        by (subst parseHttp2_loop.simps, subst if_not_P [OF pos])
          (simp only: Let_def q(1) ne g1 g2 g3 if_False frame_fields [OF s(1) n(3)] bind.bind_lunit rep prod.case n9 e(1))
      then show ?thesis using e(2,3) by blast
    qed
  qed
qed

section \<open>HTTP/1 leaves the stash alone\<close>

definition stash_kept :: "http_state_t \<Rightarrow> http_state_t \<Rightarrow> bool" where
  "stash_kept hs hs' \<longleftrightarrow> hs_http2Buf hs' = hs_http2Buf hs \<or> hs_http2Buf hs' = http_buf0"

lemma stash_kept_trans: "stash_kept a b \<Longrightarrow> stash_kept b c \<Longrightarrow> stash_kept a c"
  by (auto simp: stash_kept_def)

lemma stash_kept_refl [simp]: "stash_kept a a"
  by (simp add: stash_kept_def)

lemma stash_kept_state [simp]: "stash_kept a (setHttpState a s)"
  by (cases s) (simp_all add: stash_kept_def setHttpState_def)

lemma stash_kept_ok: "stash_kept a b \<Longrightarrow> h2_ok a \<Longrightarrow> h2_ok b"
  by (auto simp: stash_kept_def h2_ok_def complete_def)

lemma stash_kept_append:
  assumes "appendHeader ok hs data = Some hs'"
  shows "stash_kept hs hs'"
proof -
  obtain r where r: "hdr_alloc_size (if hs_hdralloc hs = 0 then MIN_HDR_ALLOC else hs_hdralloc hs) (hs_hdrlen hs + length data) = Some r"
    using assms unfolding appendHeader_def Let_def bind_eq_Some_conv by blast
  show ?thesis
  proof (cases r)
    case None
    then show ?thesis using assms r by (auto simp: appendHeader_def)
  next
    case (Some a)
    show ?thesis
    proof (cases "a \<noteq> hs_hdralloc hs \<and> \<not> ok")
      case True
      then show ?thesis using assms r Some by (auto simp: appendHeader_def)
    next
      case False
      then show ?thesis using assms r Some
        by (cases "a = hs_hdralloc hs") (auto simp: appendHeader_def bind_eq_Some_conv stash_kept_def)
    qed
  qed
qed

lemma stash_kept_loop:
  assumes "parseHttp1_loop g ok buf start hs = Some r"
  shows "stash_kept hs (fst r)"
proof (rule parseHttp1_loop.raw_induct [where P = "\<lambda>g ok buf start hs r. stash_kept hs (fst r)", OF _ assms], goal_cases)
  case (1 loop g ok buf start hs r)
  show ?case
  proof (cases "(hs_state hs = HTTP_HDR \<or> hs_state hs = HTTP_HDREND) \<and> start < length buf")
    case True
    with 1(2) consider (stop) "fst r = hs"
      | (append) hs1 where "appendHeader (ok start) (setHttpState hs HTTP_HDR) (drop start buf) = Some hs1" "fst r = hs1"
      | (line) l n hs1 where "appendHeader (ok start) (setHttpState hs HTTP_HDREND) l = Some hs1" "loop g ok buf n hs1 = Some r"
      by (auto simp: bind_eq_Some_conv split: if_splits)
    then show ?thesis
    proof cases
      case append
      from stash_kept_trans [OF stash_kept_state stash_kept_append [OF append(1)]] append(2) show "stash_kept hs (fst r)" by simp
    next
      case line
      from stash_kept_trans [OF stash_kept_state stash_kept_append [OF line(1)]] 1(1) [OF line(2)] show "stash_kept hs (fst r)"
        by (rule stash_kept_trans)
    qed simp
  next
    case False
    then show ?thesis using 1(2) by auto
  qed
qed

lemma stash_kept_report [simp]: "hs_http2Buf (fst (snd (reportHttp1 env hs))) = hs_http2Buf hs"
  by (simp add: reportHttp1_def Let_def split: option.split)

lemma stash_kept_finish:
  assumes "finishHttp1 g ok env n hs = Some (hs', ev)"
  shows "stash_kept hs hs'"
proof -
  obtain hs1 where 1: "appendHeader ok hs [CHR 0x00] = Some hs1"
    using assms by (auto simp: finishHttp1_def bind_eq_Some_conv)
  have "stash_kept hs1 hs'"
    using assms unfolding finishHttp1_def 1 bind.bind_lunit Let_def bind_eq_Some_conv case_prod_beta
    by (elim exE conjE) (simp add: stash_kept_def setHttpState_def split: if_splits, auto)
  then show ?thesis using stash_kept_append [OF 1] stash_kept_trans by blast
qed

lemma stash_kept_headers:
  assumes "parseHttp1_headers g ok env hs buf i = Some (found, hs', ev)"
  shows "stash_kept hs hs'"
proof -
  let ?h = "if hs_state hs = HTTP_NONE then (setHttpState hs HTTP_HDR)\<lparr>hs_id := i\<rparr> else hs"
  have h: "stash_kept hs ?h" by (simp add: stash_kept_def setHttpState_def)
  consider "hs' = hs" | hs1 e f where "parseHttp1_loop g ok buf 0 ?h = Some (hs1, e, f)"
      "hs' = hs1 \<or> (\<exists>n. finishHttp1 g (ok (length buf)) env n hs1 = Some (hs', ev))"
    using assms by (auto simp: parseHttp1_headers_def Let_def bind_eq_Some_conv split: if_splits)
  then show ?thesis
  proof cases
    case 2
    then have "stash_kept hs hs1" using stash_kept_trans [OF h] stash_kept_loop [of g ok buf 0 ?h] by fastforce
    then show ?thesis using 2(2) stash_kept_finish stash_kept_trans by blast
  qed simp
qed

lemma stash_kept_parse:
  assumes "parseHttp1 g ok env hs buf i = Some (found, hs', ev)"
  shows "stash_kept hs hs'"
proof (cases "hs_state hs = HTTP_DATA")
  case True
  obtain bts hs1 where b: "bytesToSkipForContentLength hs (length buf) = (bts, hs1)" by fastforce
  then have "stash_kept hs hs1" by (auto simp: bytesToSkipForContentLength_def stash_kept_def split: if_splits)
  moreover have "stash_kept hs hs' \<or> hs' = hs1 \<or> stash_kept (setHttpState hs1 HTTP_NONE) hs'"
    using assms True b stash_kept_headers by (auto simp: parseHttp1_def split: if_splits)
  ultimately show ?thesis using stash_kept_trans stash_kept_state by metis
next
  case False
  then show ?thesis using assms stash_kept_headers by (auto simp: parseHttp1_def split: if_splits)
qed

section \<open>The whole parser\<close>

definition http_ok :: "http_states \<Rightarrow> bool" where
  "http_ok s \<longleftrightarrow> h1_ok (http_rx s) \<and> h2_ok (http_rx s) \<and> h1_ok (http_tx s) \<and> h2_ok (http_tx s)"

lemma http_ok_state: "http_ok s \<Longrightarrow> h1_ok (state_of isTx s) \<and> h2_ok (state_of isTx s)"
  by (simp add: http_ok_def state_of_def)

lemma http_ok_put: "http_ok s \<Longrightarrow> h1_ok h \<Longrightarrow> h2_ok h \<Longrightarrow> http_ok (put_state isTx h s)"
  by (simp add: http_ok_def put_state_def)

lemma ok_version [simp]: "h1_ok (h\<lparr>hs_version := v\<rparr>) = h1_ok h" "h2_ok (h\<lparr>hs_version := v\<rparr>) = h2_ok h"
  by (simp_all add: h1_ok_def h2_ok_def split: option.split)

lemma ok_flags [simp]: "h2_ok (h\<lparr>hs_isResponse := a, hs_hasUpgrade := b, hs_hasConnectionUpgrade := c\<rparr>) = h2_ok h"
  by (simp add: h2_ok_def)

lemma http_ok_versions: "http_ok s \<Longrightarrow> http_ok (set_versions v s)"
  by (simp add: http_ok_def set_versions_def)

definition runs_ok :: "(bool \<times> http_states \<times> http_proto_info list) option \<Rightarrow> bool" where
  "runs_ok r \<longleftrightarrow> (\<exists>found states ev. r = Some (found, states, ev) \<and> http_ok states)"

lemma runs_ok_Some [simp]: "runs_ok (Some (found, states, ev)) = http_ok states"
  by (simp add: runs_ok_def)

lemma doHttpBuffer_defined:
  assumes "globals_ok g" "http_ok states"
  shows "runs_ok (doHttpBuffer g ok env states buf src i)"
proof -
  let ?isTx = "src = NETTX \<or> src = TLSTX"
  have parse: "runs_ok (if hs_version (state_of ?isTx s) = 1
        then do {
          (ret, state, events) \<leftarrow> parseHttp1 g ok env (state_of ?isTx s) b i;
          let s = put_state ?isTx state s;
          if hs_isResponse state \<and> hs_hasUpgrade state \<and> hs_hasConnectionUpgrade state
          then let s = set_versions 2 s
               in Some (ret, put_state ?isTx ((state_of ?isTx s)\<lparr>hs_isResponse := False, hs_hasUpgrade := False,
                               hs_hasConnectionUpgrade := False\<rparr>) s, events)
          else Some (ret, s, events)
        }
        else if hs_version (state_of ?isTx s) = 2
        then do {
          (ret, state, events) \<leftarrow> parseHttp2 ok env (state_of ?isTx s) b i;
          Some (ret, put_state ?isTx state s, events)
        }
        else Some (False, s, []))" if s: "http_ok s" for s b
  proof -
    obtain f1 h1 e1 where p1: "parseHttp1 g ok env (state_of ?isTx s) b i = Some (f1, h1, e1)" "h1_ok h1" "h2_ok h1"
      using parseHttp1_defined [OF assms(1), of "state_of ?isTx s" ok env b i] http_ok_state [OF s, of ?isTx]
        stash_kept_ok [OF stash_kept_parse] by blast
    obtain f2 h2 e2 where p2: "parseHttp2 ok env (state_of ?isTx s) b i = Some (f2, h2, e2)" "h1_ok h2" "h2_ok h2"
      using parseHttp2_loop_defined [of "state_of ?isTx s" ok env b i 0 False] http_ok_state [OF s, of ?isTx]
      unfolding parseHttp2_def by (cases "b = []") auto
    let ?s1 = "put_state ?isTx h1 s"
    have s1: "http_ok ?s1" "http_ok (put_state ?isTx h2 s)" using http_ok_put [OF s] p1 p2 by auto
    have "http_ok (put_state ?isTx ((state_of ?isTx (set_versions 2 ?s1))\<lparr>hs_isResponse := False, hs_hasUpgrade := False,
        hs_hasConnectionUpgrade := False\<rparr>) (set_versions 2 ?s1))"
      using http_ok_put [OF http_ok_versions [OF s1(1)]] http_ok_state [OF http_ok_versions [OF s1(1)], of ?isTx 2] by simp
    then show ?thesis
      unfolding p1(1) p2(1) bind.bind_lunit prod.case Let_def using s s1 by simp
  qed
  obtain p where p: "searchExec (g_http_start g) (Some buf) (to_int32 (int (length buf))) = Some p"
    using search_start_defined [OF assms(1)] by blast
  obtain go s b where "(if hs_version (state_of ?isTx states) = 0
       then if length buf \<ge> HTTP2_MAGIC_LEN \<and> take HTTP2_MAGIC_LEN buf = HTTP2_MAGIC
            then Some (length buf > HTTP2_MAGIC_LEN, set_versions 2 states, drop HTTP2_MAGIC_LEN buf)
            else do {
              p \<leftarrow> searchExec (g_http_start g) (Some buf) (to_int32 (int (length buf)));
              if p \<noteq> -1 then Some (True, set_versions 1 states, buf) else Some (False, states, buf)
            }
       else Some (True, states, buf)) = Some (go, s, b)" "http_ok s"
    unfolding p bind.bind_lunit using assms(2) http_ok_versions [OF assms(2)] by (metis (no_types, lifting))
  note v = this
  show ?thesis
    unfolding doHttpBuffer_def Let_def [of ?isTx] v(1) bind.bind_lunit prod.case
    using parse [OF v(2), of b] v(2) by (cases go) simp_all
qed

lemma doHttp_vectors_defined:
  assumes "globals_ok g"
  shows "http_ok states \<Longrightarrow> runs_ok (doHttp_vectors g ok env k vs src i found states)"
proof (induction vs arbitrary: k found states)
  case (Cons v vs)
  show ?case
  proof (cases v)
    case None
    then show ?thesis using Cons by simp
  next
    case (Some b)
    obtain r s ev where 1: "doHttpBuffer g (ok k) env states b src i = Some (r, s, ev)" "http_ok s"
      using doHttpBuffer_defined [OF assms Cons.prems, of "ok k" env b src i] by (auto simp: runs_ok_def)
    show ?thesis using Cons.IH [OF 1(2), of "Suc k" "found \<or> r"] 1(1) Some by (auto simp: runs_ok_def)
  qed
qed simp

text \<open>
  C26. Whatever data a process sends or receives, in whatever pieces, and whatever allocations fail, the HTTP
  parser ends and stays inside its buffers. For both directions of the connection it keeps that
  the header buffer has 4 or 16 KB or is not allocated and holds no more than fits, and that the stash holds
  less than one complete HTTP/2 frame.
\<close>

theorem doHttp_safe:
  assumes "g = initHttpState ok0 pcre" "http_ok states"
  shows "\<exists>found states' ev. doHttp g ok env sockfd (Some (n, states)) data src = Some (found, Some (n, states'), ev) \<and> http_ok states'"
proof -
  have g: "globals_ok g" using globals_init assms(1) by simp
  show ?thesis
  proof (cases "\<exists>d i. data = Some d \<and> data_len d \<noteq> 0 \<and> ni_type n = SOCK_STREAM \<and> setHttpId (Some n) sockfd src = Some i")
    case True
    then obtain d i where d: "data = Some d" "data_len d \<noteq> 0" "ni_type n = SOCK_STREAM" "setHttpId (Some n) sockfd src = Some i"
      by blast
    have "runs_ok (case d of BUF b \<Rightarrow> doHttpBuffer g (ok 0) env states b src i
        | MSG k vs \<Rightarrow> doHttp_vectors g ok env 0 vs src i False states
        | IOV vs \<Rightarrow> doHttp_vectors g ok env 0 vs src i False states
        | OTHER k \<Rightarrow> Some (False, states, []))"
      using doHttpBuffer_defined [OF g assms(2)] doHttp_vectors_defined [OF g assms(2)] assms(2)
      by (cases d) simp_all
    then show ?thesis using d by (auto simp: doHttp_def runs_ok_def)
  next
    case False
    then show ?thesis using assms(2) by (cases data) (auto simp: doHttp_def setHttpId_def)
  qed
qed

theorem doHttp_safe_witness:
  "\<exists>found states' ev. doHttp (initHttpState (\<lambda>_. True) (\<lambda>_. None)) (\<lambda>_ _. False) \<lparr>he_alloc = False, he_time = 0, he_net = None\<rparr> 5
      (Some (\<lparr>ni_type = 1, ni_uid = 9, ni_local = None, ni_remote = None\<rparr>, \<lparr>http_rx = http_state0, http_tx = http_state0\<rparr>))
      (Some (IOV [Some ''GET / HT'', None, Some ''HTTP/1.1'']) ) NETTX =
    Some (found, Some (\<lparr>ni_type = 1, ni_uid = 9, ni_local = None, ni_remote = None\<rparr>, states'), ev) \<and> http_ok states'"
  by (rule doHttp_safe [OF refl]) (simp add: http_ok_def h1_ok_def http_state0_def)

text \<open>The stash is bounded by the largest frame: its length field has 24 bits.\<close>

lemma stash_bounded: "h2_ok hs \<Longrightarrow> hb_len (hs_http2Buf hs) < 2 ^ 24 + 9"
proof -
  assume h: "h2_ok hs"
  have byte: "of_char c < (256 :: nat)" for c :: char by (simp add: of_char_def char.exhaust)
  have "(2 :: nat) ^ 24 = 16777216" by simp
  then have "frame_len (stash_bytes (hs_http2Buf hs) @ []) < 2 ^ 24 + 9"
    unfolding frame_len_def using byte [of "(stash_bytes (hs_http2Buf hs) @ []) ! 0"]
      byte [of "(stash_bytes (hs_http2Buf hs) @ []) ! 1"] byte [of "(stash_bytes (hs_http2Buf hs) @ []) ! 2"] by linarith
  with stash_small [of "hs_http2Buf hs" "[]"] h show ?thesis by (simp add: h2_ok_def)
qed

end
