(* ===== verification/Javabci.thy ===== *)
theory Javabci
  imports Prelude
begin

text \<open>
  The reader and writer of Java class files of \<^verbatim>\<open>src/javabci.c\<close>, with which the Java agent
  instruments classes while they are loaded.

  Memory is a list of blocks of bytes, one for each allocation; a freed block is \<open>None\<close>. A pointer is a
  block with an offset in it; the pointers that \<open>javaReadClass\<close> stores point into the class file itself.
  A function that only reads takes the bytes from its address to the end of the block; reading
  further, a null pointer and an index outside an array are undefined (\<open>None\<close>), as is moving a pointer
  past the end. Except for the first one of \<open>javaReadClass\<close> the code does not check allocations;
  they succeed here. The copies of \<open>javaGetUtf8String\<close>, which its callers free, are not kept in memory.
\<close>

section \<open>Bytes\<close>

type_synonym u16 = "16 word"
type_synonym bytes = "u8 list"

text \<open>Reading \<open>n\<close> bytes at an offset, and numbers in network byte order.\<close>

definition rd :: "bytes \<Rightarrow> nat \<Rightarrow> nat \<Rightarrow> bytes option" where
  "rd bs off n = (if off + n \<le> length bs then Some (take n (drop off bs)) else None)"

definition be_val :: "bytes \<Rightarrow> nat" where
  "be_val bs = foldl (\<lambda>v b. v * 256 + unat b) 0 bs"

definition be16toh :: "bytes \<Rightarrow> nat \<Rightarrow> u16 option" where
  "be16toh bs off = map_option (\<lambda>w. of_nat (be_val w)) (rd bs off 2)"

definition be32toh :: "bytes \<Rightarrow> nat \<Rightarrow> u32 option" where
  "be32toh bs off = map_option (\<lambda>w. of_nat (be_val w)) (rd bs off 4)"

definition htobe16 :: "u16 \<Rightarrow> bytes" where
  "htobe16 w = [of_nat (unat w div 256), of_nat (unat w)]"

definition htobe32 :: "u32 \<Rightarrow> bytes" where
  "htobe32 w = [of_nat (unat w div 16777216), of_nat (unat w div 65536), of_nat (unat w div 256), of_nat (unat w)]"

text \<open>Writing into an array.\<close>

definition patch :: "bytes \<Rightarrow> nat \<Rightarrow> bytes \<Rightarrow> bytes option" where
  "patch bs off new =
     (if off + length new \<le> length bs then Some (take off bs @ new @ drop (off + length new) bs) else None)"

section \<open>Memory\<close>

type_synonym jptr = "nat \<times> nat"
type_synonym jmem = "bytes option list"

definition block :: "jmem \<Rightarrow> nat \<Rightarrow> bytes option" where
  "block m b = (if b < length m then m ! b else None)"

definition deref :: "jmem \<Rightarrow> jptr \<Rightarrow> bytes option" where
  "deref m p = (case block m (fst p) of
      None \<Rightarrow> None
    | Some d \<Rightarrow> if snd p \<le> length d then Some (drop (snd p) d) else None)"

definition malloc_with :: "jmem \<Rightarrow> bytes \<Rightarrow> jptr \<times> jmem" where
  "malloc_with m bs = ((length m, 0), m @ [Some bs])"

definition store :: "jmem \<Rightarrow> jptr \<Rightarrow> bytes \<Rightarrow> jmem option" where
  "store m p new =
     do {
       d \<leftarrow> block m (fst p);
       d \<leftarrow> patch d (snd p) new;
       Some (m[fst p := Some d])
     }"

definition jfree :: "jmem \<Rightarrow> jptr option \<Rightarrow> jmem option" where
  "jfree m p =
     (case p of
        None \<Rightarrow> Some m
      | Some p \<Rightarrow> if snd p = 0 \<and> block m (fst p) \<noteq> None then Some (m[fst p := None]) else None)"

section \<open>The class file\<close>

definition magic :: bytes where
  "magic = [0xCA, 0xFE, 0xBA, 0xBE]"

definition CONSTANT_Utf8 :: u8 where "CONSTANT_Utf8 = 1"
definition CONSTANT_Long :: u8 where "CONSTANT_Long = 5"
definition CONSTANT_Double :: u8 where "CONSTANT_Double = 6"
definition CONSTANT_Class :: u8 where "CONSTANT_Class = 7"
definition CONSTANT_String :: u8 where "CONSTANT_String = 8"
definition CONSTANT_Methodref :: u8 where "CONSTANT_Methodref = 10"
definition CONSTANT_NameAndType :: u8 where "CONSTANT_NameAndType = 12"

definition ACC_NATIVE :: u16 where "ACC_NATIVE = 0x0100"

definition cp_tag_size :: "u16 list" where
  "cp_tag_size = [0, 0, 0, 5, 5, 9, 9, 3, 3, 5, 5, 5, 5, 0, 0, 4, 3, 5, 5, 3, 3]"

record java_class_t =
  jc_minor_version :: u16
  jc_major_version :: u16
  jc_constant_pool_count :: u16
  jc_constant_pool :: "jptr option list"
  jc_access_flags :: u16
  jc_this_class :: u16
  jc_super_class :: u16
  jc_interfaces_count :: u16
  jc_interfaces :: jptr
  jc_fields_count :: u16
  jc_fields :: "jptr option list"
  jc_methods_count :: u16
  jc_methods :: "jptr option list"
  jc_attributes_count :: u16
  jc_attributes :: "jptr option list"
  jc_length :: u32
  jc_orig_constant_pool_count :: u16
  jc_orig_methods_count :: u16

text \<open>A null pointer in an array, or an index outside it, cannot be followed.\<close>

definition entry :: "jptr option list \<Rightarrow> int \<Rightarrow> jptr option" where
  "entry arr i = Option.bind (aget arr i) (\<lambda>p. p)"

definition javaGetUtf8String :: "jmem \<Rightarrow> java_class_t \<Rightarrow> int \<Rightarrow> bytes option" where
  "javaGetUtf8String m info tagIndex =
     do {
       p \<leftarrow> entry (jc_constant_pool info) (tagIndex - 1);
       cp \<leftarrow> deref m p;
       len \<leftarrow> be16toh cp 1;
       rd cp 3 (unat len)
     }"

text \<open>The buffer is compared as a C string.\<close>

definition c_str :: "bytes \<Rightarrow> bytes" where
  "c_str bs = takeWhile (\<lambda>b. b \<noteq> 0) bs"

definition javaGetTagLength :: "bytes \<Rightarrow> u16 option" where
  "javaGetTagLength addr =
     do {
       tag \<leftarrow> aget addr 0;
       if tag = CONSTANT_Utf8 then map_option (\<lambda>l. l + 3) (be16toh addr 1)
       else aget cp_tag_size (uint tag)
     }"

section \<open>Adding constants\<close>

definition addTag :: "java_class_t \<Rightarrow> jptr \<Rightarrow> (u16 \<times> java_class_t) option" where
  "addTag info tag =
     do {
       let idx = jc_constant_pool_count info - 1;
       pool \<leftarrow> aset (jc_constant_pool info) (uint idx) (Some tag);
       Some (idx + 1, info\<lparr>jc_constant_pool_count := jc_constant_pool_count info + 1, jc_constant_pool := pool\<rparr>)
     }"

definition add_length :: "u32 \<Rightarrow> java_class_t \<Rightarrow> java_class_t" where
  "add_length n info = info\<lparr>jc_length := jc_length info + n\<rparr>"

definition addUtf8Tag :: "jmem \<Rightarrow> java_class_t \<Rightarrow> bytes \<Rightarrow> (u16 \<times> jmem \<times> java_class_t) option" where
  "addUtf8Tag m info str =
     do {
       let len = length str;
       let (utf8Tag, m) = malloc_with m ([CONSTANT_Utf8] @ htobe16 (of_nat len) @ str);
       (idx, info) \<leftarrow> addTag (add_length (of_nat (len + 3)) info) utf8Tag;
       Some (idx, m, info)
     }"

definition javaAddNameAndTypeTag ::
  "jmem \<Rightarrow> java_class_t \<Rightarrow> bytes \<Rightarrow> bytes \<Rightarrow> (u16 \<times> jmem \<times> java_class_t) option" where
  "javaAddNameAndTypeTag m info name desc =
     do {
       (nameIndex, m, info) \<leftarrow> addUtf8Tag m info name;
       (descIndex, m, info) \<leftarrow> addUtf8Tag m info desc;
       let (tag, m) = malloc_with m ([CONSTANT_NameAndType] @ htobe16 nameIndex @ htobe16 descIndex);
       (idx, info) \<leftarrow> addTag (add_length 5 info) tag;
       Some (idx, m, info)
     }"

definition javaAddMethodRefTag ::
  "jmem \<Rightarrow> java_class_t \<Rightarrow> u16 \<Rightarrow> u16 \<Rightarrow> (u16 \<times> jmem \<times> java_class_t) option" where
  "javaAddMethodRefTag m info classIndex nameAndTypeIndex =
     do {
       let (tag, m) = malloc_with m ([CONSTANT_Methodref] @ htobe16 classIndex @ htobe16 nameAndTypeIndex);
       (idx, info) \<leftarrow> addTag (add_length 5 info) tag;
       Some (idx, m, info)
     }"

definition javaAddStringTag :: "jmem \<Rightarrow> java_class_t \<Rightarrow> bytes \<Rightarrow> (u16 \<times> jmem \<times> java_class_t) option" where
  "javaAddStringTag m info str =
     do {
       (idx, m, info) \<leftarrow> addUtf8Tag m info str;
       let (tag, m) = malloc_with m ([CONSTANT_String] @ htobe16 idx);
       (idx, info) \<leftarrow> addTag info tag;
       Some (idx, m, info)
     }"

section \<open>Attributes and methods\<close>

text \<open>The offset after the next \<open>n\<close> attributes; their lengths are 32-bit numbers, and the sum wraps.\<close>

fun skip_attributes :: "nat \<Rightarrow> bytes \<Rightarrow> nat \<Rightarrow> nat option" where
  "skip_attributes 0 bs off = Some off"
| "skip_attributes (Suc n) bs off =
     do {
       attr_length \<leftarrow> be32toh bs (off + 2);
       let off = off + unat (attr_length + 6);
       if off \<le> length bs then skip_attributes n bs off else None
     }"

definition getAttributesLength :: "bytes \<Rightarrow> u32 option" where
  "getAttributesLength addr =
     do {
       attr_count \<leftarrow> be16toh addr 0;
       off \<leftarrow> skip_attributes (unat attr_count) addr 2;
       Some (of_nat off)
     }"

definition javaGetMethodLength :: "bytes \<Rightarrow> u32 option" where
  "javaGetMethodLength addr =
     (if 6 \<le> length addr then map_option (\<lambda>l. l + 6) (getAttributesLength (drop 6 addr)) else None)"

text \<open>The loop over the attributes; the inner \<open>None\<close> is a method without code.\<close>

fun find_code :: "jmem \<Rightarrow> java_class_t \<Rightarrow> bytes \<Rightarrow> nat \<Rightarrow> nat \<Rightarrow> nat option option" where
  "find_code m info method 0 off = Some None"
| "find_code m info method (Suc n) off =
     do {
       attr_name_index \<leftarrow> be16toh method off;
       attr_length \<leftarrow> be32toh method (off + 2);
       attr_name \<leftarrow> javaGetUtf8String m info (uint attr_name_index);
       if c_str attr_name = map of_char ''Code'' then Some (Some off)
       else
         let off = off + unat (attr_length + 6)
         in if off \<le> length method then find_code m info method n off else None
     }"

definition getCodeAttributeAddress :: "jmem \<Rightarrow> java_class_t \<Rightarrow> bytes \<Rightarrow> nat option option" where
  "getCodeAttributeAddress m info method =
     do {
       attributes_count \<leftarrow> be16toh method 6;
       find_code m info method (unat attributes_count) 8
     }"

function find_class :: "jmem \<Rightarrow> java_class_t \<Rightarrow> bytes \<Rightarrow> nat \<Rightarrow> int option" where
  "find_class m info className i =
     (if i < unat (jc_constant_pool_count info)
      then
        do {
          p \<leftarrow> entry (jc_constant_pool info) (int i - 1);
          cp_info \<leftarrow> deref m p;
          tag \<leftarrow> aget cp_info 0;
          found \<leftarrow> (if tag = CONSTANT_Class
                    then do {
                      name_index \<leftarrow> be16toh cp_info 1;
                      name \<leftarrow> javaGetUtf8String m info (uint name_index);
                      Some (c_str name = className)
                    }
                    else Some False);
          if found then Some (int i) else find_class m info className (Suc i)
        }
      else Some (-1))"
  by auto
termination by (relation "measure (\<lambda>(m, info, c, i). unat (jc_constant_pool_count info) - i)") auto

definition javaFindClassIndex :: "jmem \<Rightarrow> java_class_t \<Rightarrow> bytes \<Rightarrow> int option" where
  "javaFindClassIndex m info className = find_class m info className 1"

function find_method :: "jmem \<Rightarrow> java_class_t \<Rightarrow> bytes \<Rightarrow> bytes \<Rightarrow> nat \<Rightarrow> int option" where
  "find_method m info name signature i =
     (if i < unat (jc_methods_count info)
      then
        do {
          p \<leftarrow> entry (jc_methods info) (int i);
          addr \<leftarrow> deref m p;
          name_index \<leftarrow> be16toh addr 2;
          descriptor_index \<leftarrow> be16toh addr 4;
          method_name \<leftarrow> javaGetUtf8String m info (uint name_index);
          method_desc \<leftarrow> javaGetUtf8String m info (uint descriptor_index);
          if name = c_str method_name \<and> signature = c_str method_desc then Some (int i)
          else find_method m info name signature (Suc i)
        }
      else Some (-1))"
  by auto
termination by (relation "measure (\<lambda>(m, info, n, s, i). unat (jc_methods_count info) - i)") auto

definition javaFindMethodIndex :: "jmem \<Rightarrow> java_class_t \<Rightarrow> bytes \<Rightarrow> bytes \<Rightarrow> int option" where
  "javaFindMethodIndex m info name signature = find_method m info name signature 0"

text \<open>A new last element of the array of methods or of fields.\<close>

definition push_method :: "java_class_t \<Rightarrow> jptr \<Rightarrow> java_class_t option" where
  "push_method info p =
     do {
       let n = jc_methods_count info + 1;
       arr \<leftarrow> aset (jc_methods info) (uint n - 1) (Some p);
       Some (info\<lparr>jc_methods_count := n, jc_methods := arr\<rparr>)
     }"

definition push_field :: "java_class_t \<Rightarrow> jptr \<Rightarrow> java_class_t option" where
  "push_field info p =
     do {
       let n = jc_fields_count info + 1;
       arr \<leftarrow> aset (jc_fields info) (uint n - 1) (Some p);
       Some (info\<lparr>jc_fields_count := n, jc_fields := arr\<rparr>)
     }"

definition javaCopyMethod :: "jmem \<Rightarrow> java_class_t \<Rightarrow> jptr \<Rightarrow> bytes \<Rightarrow> (jmem \<times> java_class_t) option" where
  "javaCopyMethod m info method newName =
     do {
       addr \<leftarrow> deref m method;
       len \<leftarrow> javaGetMethodLength addr;
       data \<leftarrow> rd addr 0 (unat len);
       let (dest, m) = malloc_with m data;
       (nameIndex, m, info) \<leftarrow> addUtf8Tag m info newName;
       m \<leftarrow> store m (fst dest, 2) (htobe16 nameIndex);
       info \<leftarrow> push_method info dest;
       Some (m, add_length len info)
     }"

definition javaConvertMethodToNative :: "jmem \<Rightarrow> java_class_t \<Rightarrow> int \<Rightarrow> (jptr \<times> jmem \<times> java_class_t) option" where
  "javaConvertMethodToNative m info methodIndex =
     do {
       p \<leftarrow> entry (jc_methods info) methodIndex;
       methodAddr \<leftarrow> deref m p;
       len \<leftarrow> javaGetMethodLength methodAddr;
       data \<leftarrow> rd methodAddr 0 8;
       accessFlags \<leftarrow> be16toh methodAddr 0;
       data \<leftarrow> patch data 0 (htobe16 (or accessFlags ACC_NATIVE));
       data \<leftarrow> patch data 6 (htobe16 0);
       let (addr, m) = malloc_with m data;
       arr \<leftarrow> aset (jc_methods info) methodIndex (Some addr);
       Some (addr, m, add_length (8 - len) (info\<lparr>jc_methods := arr\<rparr>))
     }"

definition javaAddMethod ::
  "jmem \<Rightarrow> java_class_t \<Rightarrow> bytes \<Rightarrow> bytes \<Rightarrow> u16 \<Rightarrow> u16 \<Rightarrow> u16 \<Rightarrow> bytes option \<Rightarrow> u32 \<Rightarrow> (jmem \<times> java_class_t) option" where
  "javaAddMethod m info name descriptor accessFlags maxStack maxLocals code codeLen =
     do {
       let codeAttrLen = (12 + codeLen :: u32);
       let bufsize = (case code of None \<Rightarrow> 8 | Some _ \<Rightarrow> 8 + 2 + 4 + unat codeAttrLen);
       let (addr, m) = malloc_with m (replicate bufsize 0);
       info \<leftarrow> push_method info addr;
       (nameIndex, m, info) \<leftarrow> addUtf8Tag m info name;
       (descriptorIndex, m, info) \<leftarrow> addUtf8Tag m info descriptor;
       (attrCount, codeNameIndex, m, info) \<leftarrow>
         (case code of
            None \<Rightarrow> Some (0, 0, m, info)
          | Some _ \<Rightarrow> do { (i, m, info) \<leftarrow> addUtf8Tag m info (map of_char ''Code''); Some (1, i, m, info) });
       m \<leftarrow> store m addr (htobe16 accessFlags @ htobe16 nameIndex @ htobe16 descriptorIndex @ htobe16 attrCount);
       m \<leftarrow> (case code of
              None \<Rightarrow> Some m
            | Some c \<Rightarrow>
                do {
                  body \<leftarrow> rd c 0 (unat codeLen);
                  store m (fst addr, 8)
                    (htobe16 codeNameIndex @ htobe32 codeAttrLen @ htobe16 maxStack @ htobe16 maxLocals @
                     htobe32 codeLen @ body @ htobe16 0 @ htobe16 0)
                });
       Some (m, add_length (of_nat bufsize) info)
     }"

definition javaAddField :: "jmem \<Rightarrow> java_class_t \<Rightarrow> bytes \<Rightarrow> bytes \<Rightarrow> u16 \<Rightarrow> (jmem \<times> java_class_t) option" where
  "javaAddField m info name descriptor accessFlags =
     do {
       (nameIndex, m, info) \<leftarrow> addUtf8Tag m info name;
       (descriptorIndex, m, info) \<leftarrow> addUtf8Tag m info descriptor;
       let (buf, m) = malloc_with m (htobe16 accessFlags @ htobe16 nameIndex @ htobe16 descriptorIndex @ htobe16 0);
       info \<leftarrow> push_field info buf;
       Some (m, add_length 8 info)
     }"

definition javaInjectCode :: "jmem \<Rightarrow> java_class_t \<Rightarrow> jptr \<Rightarrow> bytes \<Rightarrow> jmem option" where
  "javaInjectCode m classInfo method code =
     do {
       addr \<leftarrow> deref m method;
       found \<leftarrow> getCodeAttributeAddress m classInfo addr;
       codeAttr \<leftarrow> found;
       codeLen \<leftarrow> be32toh addr (codeAttr + 10);
       m \<leftarrow> store m (fst method, snd method + codeAttr + 14) (replicate (unat (codeLen - 1)) 0);
       store m (fst method, snd method + codeAttr + 14) code
     }"

section \<open>Writing\<close>

text \<open>A tag that takes two entries of the constant pool.\<close>

definition is_wide :: "u8 \<Rightarrow> bool" where
  "is_wide tag \<longleftrightarrow> tag = CONSTANT_Double \<or> tag = CONSTANT_Long"

function write_pool :: "jmem \<Rightarrow> java_class_t \<Rightarrow> nat \<Rightarrow> bytes option" where
  "write_pool m info i =
     (if i + 1 < unat (jc_constant_pool_count info)
      then
        do {
          p \<leftarrow> entry (jc_constant_pool info) (int i);
          cp \<leftarrow> deref m p;
          tag \<leftarrow> aget cp 0;
          sz \<leftarrow> javaGetTagLength cp;
          data \<leftarrow> rd cp 0 (unat sz);
          rest \<leftarrow> write_pool m info (if is_wide tag then i + 2 else i + 1);
          Some (data @ rest)
        }
      else Some [])"
  by auto
termination by (relation "measure (\<lambda>(m, info, i). unat (jc_constant_pool_count info) - i)") auto

definition attribute_size :: "bytes \<Rightarrow> u32 option" where
  "attribute_size attr = map_option (\<lambda>l. l + 6) (be32toh attr 2)"

text \<open>The loops over fields, methods and attributes differ only in the size of an item.\<close>

fun write_items :: "(bytes \<Rightarrow> u32 option) \<Rightarrow> jmem \<Rightarrow> jptr option list \<Rightarrow> nat \<Rightarrow> nat \<Rightarrow> bytes option" where
  "write_items sz m arr 0 i = Some []"
| "write_items sz m arr (Suc n) i =
     do {
       p \<leftarrow> entry arr (int i);
       item \<leftarrow> deref m p;
       s \<leftarrow> sz item;
       data \<leftarrow> rd item 0 (unat s);
       rest \<leftarrow> write_items sz m arr n (Suc i);
       Some (data @ rest)
     }"

definition class_bytes :: "jmem \<Rightarrow> java_class_t \<Rightarrow> bytes option" where
  "class_bytes m info =
     do {
       pool \<leftarrow> write_pool m info 0;
       ifs \<leftarrow> deref m (jc_interfaces info);
       ifs \<leftarrow> rd ifs 0 (unat (jc_interfaces_count info) * 2);
       flds \<leftarrow> write_items javaGetMethodLength m (jc_fields info) (unat (jc_fields_count info)) 0;
       mths \<leftarrow> write_items javaGetMethodLength m (jc_methods info) (unat (jc_methods_count info)) 0;
       attrs \<leftarrow> write_items attribute_size m (jc_attributes info) (unat (jc_attributes_count info)) 0;
       Some (magic @ htobe16 (jc_minor_version info) @ htobe16 (jc_major_version info) @
             htobe16 (jc_constant_pool_count info) @ pool @
             htobe16 (jc_access_flags info) @ htobe16 (jc_this_class info) @ htobe16 (jc_super_class info) @
             htobe16 (jc_interfaces_count info) @ ifs @
             htobe16 (jc_fields_count info) @ flds @
             htobe16 (jc_methods_count info) @ mths @
             htobe16 (jc_attributes_count info) @ attrs)
     }"

text \<open>The destination is memory of its own, to which the bytes are written from its start.\<close>

definition javaWriteClass :: "jmem \<Rightarrow> jptr \<Rightarrow> java_class_t \<Rightarrow> jmem option" where
  "javaWriteClass m dest info =
     do {
       out \<leftarrow> class_bytes m info;
       store m dest out
     }"

section \<open>Reading\<close>

function read_pool :: "bytes \<Rightarrow> nat \<Rightarrow> nat \<Rightarrow> nat \<Rightarrow> nat \<Rightarrow> jptr option list \<Rightarrow> (jptr option list \<times> nat) option" where
  "read_pool d b count i off pool =
     (if i < count
      then
        do {
          pool \<leftarrow> aset pool (int i - 1) (Some (b, off));
          tag \<leftarrow> aget d (int off);
          len \<leftarrow> javaGetTagLength (drop off d);
          let off = off + unat len;
          if off \<le> length d then read_pool d b count (if is_wide tag then i + 2 else i + 1) off pool else None
        }
      else Some (pool, off))"
  by auto
termination by (relation "measure (\<lambda>(d, b, count, i, off, pool). count - i)") auto

fun read_items ::
  "(bytes \<Rightarrow> u32 option) \<Rightarrow> bytes \<Rightarrow> nat \<Rightarrow> nat \<Rightarrow> nat \<Rightarrow> nat \<Rightarrow> jptr option list \<Rightarrow> (jptr option list \<times> nat) option" where
  "read_items sz d b 0 i off arr = Some (arr, off)"
| "read_items sz d b (Suc n) i off arr =
     do {
       arr \<leftarrow> aset arr (int i) (Some (b, off));
       s \<leftarrow> sz (drop off d);
       let off = off + unat s;
       if off \<le> length d then read_items sz d b n (Suc i) off arr else None
     }"

text \<open>The class file is at the start of block \<open>b\<close>; the inner \<open>None\<close> is the null pointer that is returned.\<close>

definition javaReadClass :: "bool \<Rightarrow> jmem \<Rightarrow> nat \<Rightarrow> java_class_t option option" where
  "javaReadClass malloc_ok m b =
     (if \<not> malloc_ok then Some None
      else
        do {
          d \<leftarrow> block m b;
          start \<leftarrow> rd d 0 4;
          if start \<noteq> magic then Some None
          else
            do {
              minor \<leftarrow> be16toh d 4;
              major \<leftarrow> be16toh d 6;
              count \<leftarrow> be16toh d 8;
              (pool, off) \<leftarrow> read_pool d b (unat count) 1 10 (replicate (nat (100 + (uint count - 1))) None);
              flags \<leftarrow> be16toh d off;
              this \<leftarrow> be16toh d (off + 2);
              super \<leftarrow> be16toh d (off + 4);
              icount \<leftarrow> be16toh d (off + 6);
              let ifs = off + 8;
              let off = ifs + unat icount * 2;
              fcount \<leftarrow> be16toh d off;
              (flds, off) \<leftarrow> read_items javaGetMethodLength d b (unat fcount) 0 (off + 2) (replicate (100 + unat fcount) None);
              mcount \<leftarrow> be16toh d off;
              (mths, off) \<leftarrow> read_items javaGetMethodLength d b (unat mcount) 0 (off + 2) (replicate (100 + unat mcount) None);
              acount \<leftarrow> be16toh d off;
              (attrs, off) \<leftarrow> read_items attribute_size d b (unat acount) 0 (off + 2) (replicate (unat acount) None);
              Some (Some \<lparr>jc_minor_version = minor, jc_major_version = major, jc_constant_pool_count = count, jc_constant_pool = pool,
                jc_access_flags = flags, jc_this_class = this, jc_super_class = super, jc_interfaces_count = icount, jc_interfaces = (b, ifs),
                jc_fields_count = fcount, jc_fields = flds, jc_methods_count = mcount, jc_methods = mths,
                jc_attributes_count = acount, jc_attributes = attrs, jc_length = of_nat off,
                jc_orig_constant_pool_count = count, jc_orig_methods_count = mcount\<rparr>)
            }
        })"

fun free_entries :: "jmem \<Rightarrow> jptr option list \<Rightarrow> nat \<Rightarrow> nat \<Rightarrow> jmem option" where
  "free_entries m arr 0 i = Some m"
| "free_entries m arr (Suc n) i =
     do {
       p \<leftarrow> aget arr (int i);
       m \<leftarrow> jfree m p;
       free_entries m arr n (Suc i)
     }"

definition javaDestroy :: "jmem \<Rightarrow> java_class_t \<Rightarrow> jmem option" where
  "javaDestroy m info =
     do {
       m \<leftarrow> free_entries m (jc_constant_pool info)
              (unat (jc_constant_pool_count info) - unat (jc_orig_constant_pool_count info)) (unat (jc_orig_constant_pool_count info) - 1);
       free_entries m (jc_methods info)
         (unat (jc_methods_count info) - unat (jc_orig_methods_count info)) (unat (jc_orig_methods_count info))
     }"

declare write_pool.simps [simp del] read_pool.simps [simp del] find_class.simps [simp del] find_method.simps [simp del]

end
