(* ===== verification/Javaclass.thy ===== *)
theory Javaclass
  imports Javabci
begin

text \<open>
  Class files as values: the items of a class file are self-delimiting byte strings, \<open>serialize\<close> is
  the format, and \<open>holds\<close> relates the structure in memory to the class it stands for. Reading
  and writing are shown to agree with the format.
\<close>

section \<open>Numbers and positions\<close>

lemma unat_byte: "unat (of_nat n :: u8) = n mod 256"
  by (simp add: unat_of_nat)

lemma be_htobe16: "be_val (htobe16 w) = unat w"
proof -
  have "unat w < 2 ^ LENGTH(16)" by (rule unsigned_less)
  then have "unat w < 65536" by simp
  then have "unat w div 256 mod 256 = unat w div 256" by simp
  then show ?thesis unfolding be_val_def htobe16_def foldl.simps unat_byte by simp
qed

lemma be_htobe32: "be_val (htobe32 w) = unat w"
proof -
  have "unat w < 2 ^ LENGTH(32)" by (rule unsigned_less)
  then have w: "unat w < 4294967296" by simp
  define n where "n = unat w"
  have a: "n div 16777216 mod 256 = n div 16777216" using w by (simp add: n_def)
  have b: "n div 65536 = n div 16777216 * 256 + n div 65536 mod 256"
    using div_mult_mod_eq [of "n div 65536" 256] by (simp add: div_mult2_eq [symmetric])
  have c: "n div 256 = n div 65536 * 256 + n div 256 mod 256"
    using div_mult_mod_eq [of "n div 256" 256] by (simp add: div_mult2_eq [symmetric])
  have d: "n = n div 256 * 256 + n mod 256" by simp
  show ?thesis
    unfolding be_val_def htobe32_def foldl.simps unat_byte n_def [symmetric] a using b c d by simp
qed

lemma length_htobe [simp]: "length (htobe16 w) = 2" "length (htobe32 v) = 4"
  by (simp_all add: htobe16_def htobe32_def)

text \<open>The bytes from an offset to the end.\<close>

definition at :: "bytes \<Rightarrow> nat \<Rightarrow> bytes \<Rightarrow> bool" where
  "at d off xs \<longleftrightarrow> (\<exists>pre. d = pre @ xs \<and> length pre = off)"

lemma at_drop: "at d off xs \<longleftrightarrow> off \<le> length d \<and> drop off d = xs"
proof
  assume "off \<le> length d \<and> drop off d = xs"
  then have "d = take off d @ xs \<and> length (take off d) = off" by auto
  then show "at d off xs" unfolding at_def by blast
qed (auto simp: at_def)

lemma at_step: "at d off (x @ r) \<Longrightarrow> at d (off + length x) r"
  unfolding at_def by (metis append.assoc length_append)

lemma at_step2: "at d off (htobe16 w @ r) \<Longrightarrow> at d (off + 2) r"
  using at_step [of d off "htobe16 w" r] by simp

lemma at_rd: "at d off (x @ r) \<Longrightarrow> rd d off (length x) = Some x"
  by (auto simp: at_def rd_def)

lemma at_be16: "at d off (htobe16 w @ r) \<Longrightarrow> be16toh d off = Some w"
  using at_rd [of d off "htobe16 w" r] by (simp add: be16toh_def be_htobe16)

lemma at_be32: "at d off (htobe32 w @ r) \<Longrightarrow> be32toh d off = Some w"
  using at_rd [of d off "htobe32 w" r] by (simp add: be32toh_def be_htobe32)

lemma at_nth: "at d off (c # r) \<Longrightarrow> aget d (int off) = Some c"
  by (auto simp: at_def aget_nat)

section \<open>Self-delimiting items\<close>

text \<open>What is read of an item does not depend on what follows it.\<close>

lemma rd_append: "rd bs off n = Some x \<Longrightarrow> rd (bs @ r) off n = Some x"
  by (auto simp: rd_def split: if_splits)

lemma be16_append: "be16toh bs off = Some x \<Longrightarrow> be16toh (bs @ r) off = Some x"
  using rd_append by (fastforce simp: be16toh_def)

lemma be32_append: "be32toh bs off = Some x \<Longrightarrow> be32toh (bs @ r) off = Some x"
  using rd_append by (fastforce simp: be32toh_def)

lemma aget_append: "aget bs i = Some x \<Longrightarrow> aget (bs @ r) i = Some x"
  by (auto simp: aget_def nth_append split: if_splits)

lemma tag_append: "javaGetTagLength bs = Some x \<Longrightarrow> javaGetTagLength (bs @ r) = Some x"
  by (auto simp: javaGetTagLength_def bind_eq_Some_conv split: if_splits dest: aget_append be16_append)

lemma skip_append: "skip_attributes n bs off = Some x \<Longrightarrow> skip_attributes n (bs @ r) off = Some x"
  by (induction n bs off rule: skip_attributes.induct)
    (auto simp: bind_eq_Some_conv Let_def split: if_splits dest: be32_append)

lemma method_append: "javaGetMethodLength bs = Some x \<Longrightarrow> javaGetMethodLength (bs @ r) = Some x"
  by (auto simp: javaGetMethodLength_def getAttributesLength_def bind_eq_Some_conv split: if_splits
      dest: skip_append be16_append)

lemma attribute_append: "attribute_size bs = Some x \<Longrightarrow> attribute_size (bs @ r) = Some x"
  using be32_append by (fastforce simp: attribute_size_def)

definition delimited :: "(bytes \<Rightarrow> u32 option) \<Rightarrow> bytes \<Rightarrow> bool" where
  "delimited sz x \<longleftrightarrow> (case sz x of None \<Rightarrow> False | Some l \<Rightarrow> unat l = length x)"

definition prefix_closed :: "(bytes \<Rightarrow> u32 option) \<Rightarrow> bool" where
  "prefix_closed sz \<longleftrightarrow> (\<forall>bs x r. sz bs = Some x \<longrightarrow> sz (bs @ r) = Some x)"

lemma prefix_closed_sizes: "prefix_closed javaGetMethodLength" "prefix_closed attribute_size"
  using method_append attribute_append by (simp_all add: prefix_closed_def)

lemma delimited_append:
  assumes "prefix_closed sz" "delimited sz x"
  obtains l where "sz (x @ r) = Some l" "unat l = length x"
  using assms by (auto simp: delimited_def prefix_closed_def split: option.splits)

definition entry_ok :: "bytes \<Rightarrow> bool" where
  "entry_ok e \<longleftrightarrow> (case javaGetTagLength e of None \<Rightarrow> False | Some l \<Rightarrow> unat l = length e)"

lemma entry_ok_append:
  assumes "entry_ok e"
  obtains l where "javaGetTagLength (e @ r) = Some l" "unat l = length e"
  using assms tag_append by (fastforce simp: entry_ok_def split: option.splits)

lemma entry_ok_Cons: "entry_ok e \<Longrightarrow> \<exists>t e'. e = t # e'"
  by (cases e) (auto simp: entry_ok_def javaGetTagLength_def aget_def)

section \<open>The format\<close>

record jclass =
  k_minor :: u16
  k_major :: u16
  k_pool :: "bytes option list"
  k_flags :: u16
  k_this :: u16
  k_super :: u16
  k_interfaces :: bytes
  k_fields :: "bytes list"
  k_methods :: "bytes list"
  k_attributes :: "bytes list"

text \<open>A long or double constant is followed by an unusable entry.\<close>

definition wide :: "bytes \<Rightarrow> bool" where
  "wide e \<longleftrightarrow> is_wide (hd e)"

fun pool_ok :: "bytes option list \<Rightarrow> bool" where
  "pool_ok [] \<longleftrightarrow> True"
| "pool_ok (None # es) \<longleftrightarrow> False"
| "pool_ok [Some e] \<longleftrightarrow> entry_ok e \<and> \<not> wide e"
| "pool_ok (Some e # f # es) \<longleftrightarrow> entry_ok e \<and> (if wide e then f = None \<and> pool_ok es else pool_ok (f # es))"

fun pool_bytes :: "bytes option list \<Rightarrow> bytes" where
  "pool_bytes [] = []"
| "pool_bytes (None # es) = pool_bytes es"
| "pool_bytes (Some e # es) = e @ pool_bytes es"

definition wf_class :: "jclass \<Rightarrow> bool" where
  "wf_class k \<longleftrightarrow> pool_ok (k_pool k) \<and> length (k_pool k) < 65535 \<and>
     even (length (k_interfaces k)) \<and> length (k_interfaces k) < 131072 \<and>
     (\<forall>x\<in>set (k_fields k). delimited javaGetMethodLength x) \<and> length (k_fields k) < 65536 \<and>
     (\<forall>x\<in>set (k_methods k). delimited javaGetMethodLength x) \<and> length (k_methods k) < 65536 \<and>
     (\<forall>x\<in>set (k_attributes k). delimited attribute_size x) \<and> length (k_attributes k) < 65536"

definition serialize :: "jclass \<Rightarrow> bytes" where
  "serialize k =
     magic @ htobe16 (k_minor k) @ htobe16 (k_major k) @ htobe16 (of_nat (length (k_pool k) + 1)) @ pool_bytes (k_pool k) @
     htobe16 (k_flags k) @ htobe16 (k_this k) @ htobe16 (k_super k) @
     htobe16 (of_nat (length (k_interfaces k) div 2)) @ k_interfaces k @
     htobe16 (of_nat (length (k_fields k))) @ concat (k_fields k) @
     htobe16 (of_nat (length (k_methods k))) @ concat (k_methods k) @
     htobe16 (of_nat (length (k_attributes k))) @ concat (k_attributes k)"

section \<open>The structure in memory\<close>

definition points :: "jmem \<Rightarrow> jptr \<Rightarrow> bytes \<Rightarrow> bool" where
  "points m p x \<longleftrightarrow> (\<exists>r. deref m p = Some (x @ r))"

definition items_are :: "jmem \<Rightarrow> jptr option list \<Rightarrow> bytes list \<Rightarrow> bool" where
  "items_are m arr xs \<longleftrightarrow> length xs \<le> length arr \<and> (\<forall>i<length xs. \<exists>p. arr ! i = Some p \<and> points m p (xs ! i))"

definition pool_are :: "jmem \<Rightarrow> jptr option list \<Rightarrow> bytes option list \<Rightarrow> bool" where
  "pool_are m arr es \<longleftrightarrow> length es \<le> length arr \<and>
     (\<forall>i<length es. \<forall>e. es ! i = Some e \<longrightarrow> (\<exists>p. arr ! i = Some p \<and> points m p e))"

definition holds :: "jmem \<Rightarrow> java_class_t \<Rightarrow> jclass \<Rightarrow> bool" where
  "holds m info k \<longleftrightarrow>
     jc_minor_version info = k_minor k \<and> jc_major_version info = k_major k \<and>
     unat (jc_constant_pool_count info) = length (k_pool k) + 1 \<and> pool_are m (jc_constant_pool info) (k_pool k) \<and>
     jc_access_flags info = k_flags k \<and> jc_this_class info = k_this k \<and> jc_super_class info = k_super k \<and>
     unat (jc_interfaces_count info) * 2 = length (k_interfaces k) \<and> points m (jc_interfaces info) (k_interfaces k) \<and>
     unat (jc_fields_count info) = length (k_fields k) \<and> items_are m (jc_fields info) (k_fields k) \<and>
     unat (jc_methods_count info) = length (k_methods k) \<and> items_are m (jc_methods info) (k_methods k) \<and>
     unat (jc_attributes_count info) = length (k_attributes k) \<and> items_are m (jc_attributes info) (k_attributes k)"

lemma entry_nth: "i < length arr \<Longrightarrow> arr ! i = Some p \<Longrightarrow> entry arr (int i) = Some p"
  by (simp add: entry_def aget_nat)

lemma rd_whole: "rd (x @ r) 0 (length x) = Some x"
  by (simp add: rd_def)

section \<open>Writing gives the format\<close>

lemma write_items_are:
  assumes "prefix_closed sz" "items_are m arr xs" "\<forall>x\<in>set xs. delimited sz x" "i + n = length xs"
  shows "write_items sz m arr n i = Some (concat (drop i xs))"
  using assms(4)
proof (induction n arbitrary: i)
  case (Suc n)
  then have i: "i < length xs" by simp
  then obtain p r where p: "arr ! i = Some p" "i < length arr" "deref m p = Some (xs ! i @ r)"
    using assms(2) unfolding items_are_def points_def by (meson order_less_le_trans)
  obtain l where l: "sz (xs ! i @ r) = Some l" "unat l = length (xs ! i)"
    using delimited_append [OF assms(1)] assms(3) i by (metis nth_mem)
  show ?case
    using Suc.IH [of "Suc i"] Suc.prems p l i
    by (simp add: entry_nth rd_whole Cons_nth_drop_Suc [symmetric])
qed simp

lemma write_pool_are:
  assumes "pool_are m (jc_constant_pool info) es" "unat (jc_constant_pool_count info) = length es + 1"
  shows "i \<le> length es \<Longrightarrow> pool_ok (drop i es) \<Longrightarrow> write_pool m info i = Some (pool_bytes (drop i es))"
proof (induction "length es - i" arbitrary: i rule: less_induct)
  case less
  show ?case
  proof (cases "i < length es")
    case False
    then show ?thesis using less.prems assms(2) by (subst write_pool.simps) simp
  next
    case True
    let ?r = "drop (Suc i) es"
    have cons: "drop i es = es ! i # ?r" using True by (simp add: Cons_nth_drop_Suc)
    obtain e where e: "es ! i = Some e" "entry_ok e"
      using less.prems(2) unfolding cons by (cases "es ! i"; cases ?r) auto
    obtain t e' where t: "e = t # e'" using entry_ok_Cons [OF e(2)] by blast
    obtain p r where p: "jc_constant_pool info ! i = Some p" "i < length (jc_constant_pool info)" "deref m p = Some (e @ r)"
      using assms(1) True e(1) unfolding pool_are_def points_def by (meson order_less_le_trans)
    obtain l where l: "javaGetTagLength (e @ r) = Some l" "unat l = length e"
      using entry_ok_append [OF e(2)] .
    have tag: "aget (e @ r) 0 = Some t" by (simp add: aget_def t)
    let ?i = "if is_wide t then i + 2 else i + 1"
    have next_i: "?i \<le> length es \<and> pool_ok (drop ?i es) \<and> pool_bytes ?r = pool_bytes (drop ?i es)"
    proof (cases "is_wide t")
      case w: True
      then obtain es' where "?r = None # es'" "pool_ok es'"
        using less.prems(2) e(1) unfolding cons by (cases ?r) (auto simp: wide_def t)
      moreover from this have "es' = drop (i + 2) es" "i + 2 \<le> length es"
        by (metis drop_Suc_Cons drop0 drop_drop add_2_eq_Suc' One_nat_def add.commute plus_1_eq_Suc)
          (metis add_2_eq_Suc' calculation(1) drop_eq_Nil2 list.distinct(1) not_less_eq_eq)
      ultimately show ?thesis using w by simp
    next
      case w: False
      have "pool_ok ?r" using less.prems(2) e(1) w unfolding cons by (cases ?r) (auto simp: wide_def t)
      then show ?thesis using w True by simp
    qed
    have "length es - ?i < length es - i" using True by (cases "is_wide t") auto
    from less.hyps [OF this] have "write_pool m info ?i = Some (pool_bytes (drop ?i es))"
      using next_i by blast
    moreover have "write_pool m info i = do { rest \<leftarrow> write_pool m info ?i; Some (e @ rest) }"
      using True assms(2) p l tag rd_whole [of e r]
      by (subst write_pool.simps) (simp add: entry_nth)
    ultimately show ?thesis using next_i e(1) by (simp add: cons)
  qed
qed

lemma unat_count: "unat (w :: u16) = n \<Longrightarrow> w = of_nat n"
  by (metis of_nat_unat ucast_id)

lemma holds_bytes:
  assumes "holds m info k" "wf_class k"
  shows "class_bytes m info = Some (serialize k)"
proof -
  note h = assms(1) [unfolded holds_def]
  note w = assms(2) [unfolded wf_class_def]
  have pool: "write_pool m info 0 = Some (pool_bytes (k_pool k))"
    using write_pool_are [of m info "k_pool k" 0] h w by simp
  obtain r where r: "deref m (jc_interfaces info) = Some (k_interfaces k @ r)" using h by (auto simp: points_def)
  have ifs: "rd (k_interfaces k @ r) 0 (unat (jc_interfaces_count info) * 2) = Some (k_interfaces k)"
    using h rd_whole by metis
  have items: "write_items javaGetMethodLength m (jc_fields info) (unat (jc_fields_count info)) 0 = Some (concat (k_fields k))"
    "write_items javaGetMethodLength m (jc_methods info) (unat (jc_methods_count info)) 0 = Some (concat (k_methods k))"
    "write_items attribute_size m (jc_attributes info) (unat (jc_attributes_count info)) 0 = Some (concat (k_attributes k))"
    using write_items_are [OF prefix_closed_sizes(1), of m _ _ 0] write_items_are [OF prefix_closed_sizes(2), of m _ _ 0] h w
    by simp_all
  have counts: "jc_constant_pool_count info = of_nat (length (k_pool k) + 1)" "jc_fields_count info = of_nat (length (k_fields k))"
    "jc_methods_count info = of_nat (length (k_methods k))" "jc_attributes_count info = of_nat (length (k_attributes k))"
    "jc_interfaces_count info = of_nat (length (k_interfaces k) div 2)"
    using h by (intro unat_count; auto)+
  have eqs: "jc_minor_version info = k_minor k" "jc_major_version info = k_major k" "jc_access_flags info = k_flags k"
    "jc_this_class info = k_this k" "jc_super_class info = k_super k"
    using h by simp_all
  show ?thesis
    by (simp only: class_bytes_def pool r ifs items bind.bind_lunit) (simp only: serialize_def counts eqs)
qed

section \<open>Reading the format\<close>

lemma deref_at: "block m b = Some d \<Longrightarrow> at d off xs \<Longrightarrow> deref m (b, off) = Some xs"
  by (auto simp: deref_def at_def)

lemma points_at: "block m b = Some d \<Longrightarrow> at d off (x @ r) \<Longrightarrow> points m (b, off) x"
  using deref_at unfolding points_def by blast

lemma at_le: "at d off xs \<Longrightarrow> off \<le> length d"
  by (auto simp: at_def)

lemma read_items_at:
  assumes "prefix_closed sz" "block m b = Some d"
  shows "\<lbrakk>at d off (concat xs @ r); \<forall>x\<in>set xs. delimited sz x; i + length xs \<le> length arr\<rbrakk> \<Longrightarrow>
    \<exists>arr'. read_items sz d b (length xs) i off arr = Some (arr', off + length (concat xs)) \<and>
      length arr' = length arr \<and> (\<forall>j<i. arr' ! j = arr ! j) \<and>
      (\<forall>j<length xs. \<exists>p. arr' ! (i + j) = Some p \<and> points m p (xs ! j))"
proof (induction xs arbitrary: i off arr)
  case (Cons x xs)
  have at: "at d off (x @ concat xs @ r)" using Cons.prems(1) by simp
  obtain l where l: "sz (x @ concat xs @ r) = Some l" "unat l = length x"
    using delimited_append [OF assms(1)] Cons.prems(2) by (metis list.set_intros(1))
  have drop: "drop off d = x @ concat xs @ r" using at by (simp add: at_drop)
  let ?arr = "arr[i := Some (b, off)]"
  have i: "i < length arr" using Cons.prems(3) by simp
  obtain arr' where arr': "read_items sz d b (length xs) (Suc i) (off + length x) ?arr = Some (arr', off + length x + length (concat xs))"
      "length arr' = length arr" "\<forall>j<Suc i. arr' ! j = ?arr ! j"
      "\<forall>j<length xs. \<exists>p. arr' ! (Suc i + j) = Some p \<and> points m p (xs ! j)"
    using Cons.IH [OF at_step [OF at], of "Suc i" ?arr] Cons.prems(2,3) by auto
  have "read_items sz d b (length (x # xs)) i off arr = Some (arr', off + length (concat (x # xs)))"
    using arr'(1) i l drop at_le [OF at_step [OF at]] by (simp add: aset_nat add.assoc)
  moreover have "\<exists>p. arr' ! (i + j) = Some p \<and> points m p ((x # xs) ! j)" if "j < length (x # xs)" for j
  proof (cases j)
    case 0
    then show ?thesis using arr'(3) i points_at [OF assms(2) at] by auto
  next
    case (Suc j')
    then show ?thesis using arr'(4) that by auto
  qed
  moreover have "\<forall>j<i. arr' ! j = arr ! j" using arr'(3) by (metis less_SucI nat_neq_iff nth_list_update_neq)
  ultimately show ?case using arr'(2) by blast
qed simp

lemma read_pool_at:
  assumes "block m b = Some d"
  shows "\<lbrakk>pool_ok es; at d off (pool_bytes es @ r); i + length es \<le> length arr; count = Suc (i + length es)\<rbrakk> \<Longrightarrow>
    \<exists>arr'. read_pool d b count (Suc i) off arr = Some (arr', off + length (pool_bytes es)) \<and>
      length arr' = length arr \<and> (\<forall>j<i. arr' ! j = arr ! j) \<and>
      (\<forall>j<length es. \<forall>e. es ! j = Some e \<longrightarrow> (\<exists>p. arr' ! (i + j) = Some p \<and> points m p e)) \<and>
      (\<forall>j<length es. es ! j = None \<longrightarrow> arr' ! (i + j) = arr ! (i + j))"
proof (induction "length es" arbitrary: es i off arr rule: less_induct)
  case less
  show ?case
  proof (cases es)
    case Nil
    then show ?thesis using less.prems by (subst read_pool.simps) auto
  next
    case (Cons e0 es0)
    then obtain e where e: "e0 = Some e" "entry_ok e" using less.prems(1) by (cases e0; cases es0) auto
    obtain t e' where t: "e = t # e'" using entry_ok_Cons [OF e(2)] by blast
    have at: "at d off (e @ pool_bytes es0 @ r)" using less.prems(2) Cons e(1) by simp
    obtain l where l: "javaGetTagLength (e @ pool_bytes es0 @ r) = Some l" "unat l = length e"
      using entry_ok_append [OF e(2)] .
    have drop: "drop off d = e @ pool_bytes es0 @ r" using at by (simp add: at_drop)
    have tag: "aget d (int off) = Some t" using at_nth [of d off t] at t by simp
    let ?arr = "arr[i := Some (b, off)]" and ?off = "off + length e"
    have i: "i < length arr" "Suc i < count" using less.prems(3,4) Cons by simp_all
    define k where "k = (if is_wide t then 2 else 1 :: nat)"
    define es1 where "es1 = drop (k - 1) es0"
    have es1: "pool_ok es1" "pool_bytes es1 = pool_bytes es0" "length es1 + k = length es" "length es1 < length es"
      using less.prems(1) e t unfolding Cons k_def es1_def by (cases es0; auto simp: wide_def)+
    have at1: "at d ?off (pool_bytes es1 @ r)" using at_step [OF at] es1(2) by simp
    have "\<exists>arr'. read_pool d b count (Suc (i + k)) ?off ?arr = Some (arr', ?off + length (pool_bytes es1)) \<and>
      length arr' = length ?arr \<and> (\<forall>j<i + k. arr' ! j = ?arr ! j) \<and>
      (\<forall>j<length es1. \<forall>e. es1 ! j = Some e \<longrightarrow> (\<exists>p. arr' ! (i + k + j) = Some p \<and> points m p e)) \<and>
      (\<forall>j<length es1. es1 ! j = None \<longrightarrow> arr' ! (i + k + j) = ?arr ! (i + k + j))"
      by (rule less.hyps [OF es1(4,1) at1]) (use less.prems(3,4) es1(3) in auto)
    then obtain arr' where arr': "read_pool d b count (Suc (i + k)) ?off ?arr = Some (arr', ?off + length (pool_bytes es1))"
        "length arr' = length arr" "\<forall>j<i + k. arr' ! j = ?arr ! j"
        "\<forall>j<length es1. \<forall>e. es1 ! j = Some e \<longrightarrow> (\<exists>p. arr' ! (i + k + j) = Some p \<and> points m p e)"
        "\<forall>j<length es1. es1 ! j = None \<longrightarrow> arr' ! (i + k + j) = ?arr ! (i + k + j)"
      by auto
    have es1_nth: "es ! j = es1 ! (j - k) \<and> j - k < length es1" if "j < length es" "\<not> j < k" for j
    proof -
      have "es1 = drop k es" by (simp add: es1_def k_def Cons numeral_2_eq_2)
      then show ?thesis using that by auto
    qed
    have "read_pool d b count (Suc i) off arr = Some (arr', off + length (pool_bytes es))"
      using arr'(1) i l tag drop at_le [OF at1] es1(2) Cons e(1)
      by (subst read_pool.simps) (simp add: aset_nat k_def add.assoc Let_def split: if_splits)
    moreover have "\<exists>p. arr' ! (i + j) = Some p \<and> points m p f" if "j < length es" "es ! j = Some f" for j f
    proof (cases "j < k")
      case True
      then have "j = 0"
        using that Cons less.prems(1) e t by (cases es0) (auto simp: k_def wide_def less_2_cases_iff split: if_splits)
      then show ?thesis
        using that Cons e(1) arr'(3) i True points_at [OF assms at] by (auto simp: k_def split: if_splits)
    next
      case False
      then have "es ! j = es1 ! (j - k)" "j - k < length es1"
        using es1_nth [OF that(1)] by auto
      then show ?thesis using arr'(4) that False by (metis add.assoc le_add_diff_inverse not_less)
    qed
    moreover have "arr' ! (i + j) = arr ! (i + j)" if "j < length es" "es ! j = None" for j
    proof (cases "j < k")
      case True
      moreover have "j \<noteq> 0" using that Cons e(1) by (intro notI) simp
      ultimately show ?thesis using arr'(3) by auto
    next
      case False
      then have n: "i + k + (j - k) = i + j" "i \<noteq> i + j" by (auto simp: k_def split: if_splits)
      have "es1 ! (j - k) = None" "j - k < length es1" using es1_nth [OF that(1) False] that(2) by simp_all
      then have "arr' ! (i + j) = ?arr ! (i + j)" using arr'(5) n(1) by metis
      then show ?thesis using n(2) by simp
    qed
    moreover have "\<forall>j<i. arr' ! j = arr ! j" using arr'(3) by (metis nat_neq_iff nth_list_update_neq trans_less_add1)
    ultimately show ?thesis using arr'(2) by blast
  qed
qed

definition fresh_class :: "java_class_t \<Rightarrow> jclass \<Rightarrow> bool" where
  "fresh_class info k \<longleftrightarrow>
     length (jc_constant_pool info) = 100 + length (k_pool k) \<and> length (jc_fields info) = 100 + length (k_fields k) \<and>
     length (jc_methods info) = 100 + length (k_methods k) \<and>
     jc_length info = of_nat (length (serialize k)) \<and>
     jc_orig_constant_pool_count info = jc_constant_pool_count info \<and> jc_orig_methods_count info = jc_methods_count info"

lemma unat_of_nat16: "n < 65536 \<Longrightarrow> unat (of_nat n :: u16) = n"
  by (simp add: unat_of_nat)

lemma read_serialized:
  assumes "wf_class k" "block m b = Some (serialize k @ rest)"
  obtains info where "javaReadClass True m b = Some (Some info)" "holds m info k" "fresh_class info k"
proof -
  note w = assms(1) [unfolded wf_class_def]
  let ?d = "serialize k @ rest"
  let ?pool = "pool_bytes (k_pool k)"
  define cnt :: u16 where "cnt = of_nat (length (k_pool k) + 1)"
  define c1 where "c1 = htobe16 (of_nat (length (k_attributes k))) @ concat (k_attributes k) @ rest"
  define c2 where "c2 = htobe16 (of_nat (length (k_methods k))) @ concat (k_methods k) @ c1"
  define c3 where "c3 = htobe16 (of_nat (length (k_fields k))) @ concat (k_fields k) @ c2"
  define c4 where "c4 = htobe16 (k_flags k) @ htobe16 (k_this k) @ htobe16 (k_super k) @
     htobe16 (of_nat (length (k_interfaces k) div 2)) @ k_interfaces k @ c3"
  have d: "?d = magic @ htobe16 (k_minor k) @ htobe16 (k_major k) @ htobe16 cnt @ ?pool @ c4"
    by (simp add: serialize_def c1_def c2_def c3_def c4_def cnt_def)
  have "at ?d 0 (magic @ htobe16 (k_minor k) @ htobe16 (k_major k) @ htobe16 cnt @ ?pool @ c4)"
    unfolding d by (simp add: at_def)
  moreover have lm: "length magic = 4" by (simp add: magic_def)
  ultimately have a0: "rd ?d 0 4 = Some magic"
    and a4: "at ?d 4 (htobe16 (k_minor k) @ htobe16 (k_major k) @ htobe16 cnt @ ?pool @ c4)"
    using at_rd [of ?d 0 magic] at_step [of ?d 0 magic] by (fastforce, fastforce)
  note a6 = at_step2 [OF a4, simplified]
  note a8 = at_step2 [OF a6, simplified]
  note a10 = at_step2 [OF a8, simplified]
  let ?o = "10 + length ?pool"
  have n: "unat cnt = length (k_pool k) + 1" unfolding cnt_def using w by (intro unat_of_nat16) simp
  then have cap: "nat (100 + (uint cnt - 1)) = 100 + length (k_pool k)"
    by (simp only: uint_nat)
  obtain pool where pool: "read_pool ?d b (length (k_pool k) + 1) (Suc 0) 10 (replicate (100 + length (k_pool k)) None) = Some (pool, ?o)"
      "length pool = 100 + length (k_pool k)"
      "\<forall>j<length (k_pool k). \<forall>e. k_pool k ! j = Some e \<longrightarrow> (\<exists>p. pool ! j = Some p \<and> points m p e)"
    using read_pool_at [OF assms(2), of "k_pool k" 10 c4 0 "replicate (100 + length (k_pool k)) None"] a10 w by auto
  note b0 = at_step [OF a10, unfolded c4_def]
  note b2 = at_step2 [OF b0] note b4 = at_step2 [OF b2] note b6 = at_step2 [OF b4] note b8 = at_step2 [OF b6]
  note i0 = at_step [OF b8, unfolded c3_def]
  let ?f = "?o + 2 + 2 + 2 + 2 + length (k_interfaces k)"
  have icount: "unat (of_nat (length (k_interfaces k) div 2) :: u16) * 2 = length (k_interfaces k)"
  proof -
    have "length (k_interfaces k) div 2 < 65536" "even (length (k_interfaces k))" using w by linarith+
    then show ?thesis by (simp only: unat_of_nat16) simp
  qed
  obtain flds where flds: "read_items javaGetMethodLength ?d b (length (k_fields k)) 0 (?f + 2) (replicate (100 + length (k_fields k)) None) =
      Some (flds, ?f + 2 + length (concat (k_fields k)))" "length flds = 100 + length (k_fields k)" "items_are m flds (k_fields k)"
    using read_items_at [OF prefix_closed_sizes(1) assms(2), of "?f + 2" "k_fields k" c2 0 "replicate (100 + length (k_fields k)) None"]
      at_step2 [OF i0] w by (auto simp: items_are_def)
  note m0 = at_step [OF at_step2 [OF i0], unfolded c2_def]
  let ?m = "?f + 2 + length (concat (k_fields k))"
  obtain mths where mths: "read_items javaGetMethodLength ?d b (length (k_methods k)) 0 (?m + 2) (replicate (100 + length (k_methods k)) None) =
      Some (mths, ?m + 2 + length (concat (k_methods k)))" "length mths = 100 + length (k_methods k)" "items_are m mths (k_methods k)"
    using read_items_at [OF prefix_closed_sizes(1) assms(2), of "?m + 2" "k_methods k" c1 0 "replicate (100 + length (k_methods k)) None"]
      at_step2 [OF m0] w by (auto simp: items_are_def)
  note t0 = at_step [OF at_step2 [OF m0], unfolded c1_def]
  let ?t = "?m + 2 + length (concat (k_methods k))"
  obtain attrs where attrs: "read_items attribute_size ?d b (length (k_attributes k)) 0 (?t + 2) (replicate (length (k_attributes k)) None) =
      Some (attrs, ?t + 2 + length (concat (k_attributes k)))" "items_are m attrs (k_attributes k)"
    using read_items_at [OF prefix_closed_sizes(2) assms(2), of "?t + 2" "k_attributes k" rest 0 "replicate (length (k_attributes k)) None"]
      at_step2 [OF t0] w by (auto simp: items_are_def)
  have counts: "unat (of_nat (length (k_fields k)) :: u16) = length (k_fields k)"
    "unat (of_nat (length (k_methods k)) :: u16) = length (k_methods k)"
    "unat (of_nat (length (k_attributes k)) :: u16) = length (k_attributes k)"
    using w by (simp_all add: unat_of_nat16)
  have len: "?t + 2 + length (concat (k_attributes k)) = length (serialize k)"
    using lm by (simp add: serialize_def)
  let ?info = "\<lparr>jc_minor_version = k_minor k, jc_major_version = k_major k, jc_constant_pool_count = cnt,
      jc_constant_pool = pool, jc_access_flags = k_flags k, jc_this_class = k_this k, jc_super_class = k_super k,
      jc_interfaces_count = of_nat (length (k_interfaces k) div 2), jc_interfaces = (b, ?o + 2 + 2 + 2 + 2),
      jc_fields_count = of_nat (length (k_fields k)), jc_fields = flds, jc_methods_count = of_nat (length (k_methods k)), jc_methods = mths,
      jc_attributes_count = of_nat (length (k_attributes k)), jc_attributes = attrs,
      jc_length = of_nat (?t + 2 + length (concat (k_attributes k))),
      jc_orig_constant_pool_count = cnt, jc_orig_methods_count = of_nat (length (k_methods k))\<rparr>"
  have offs: "?o + 8 = ?o + 2 + 2 + 2 + 2" "?o + 4 = ?o + 2 + 2" "?o + 6 = ?o + 2 + 2 + 2" by simp_all
  have one: "(1 :: nat) = Suc 0" by simp
  have "javaReadClass True m b = Some (Some ?info)"
    unfolding javaReadClass_def one
    by (simp only: assms(2) bind.bind_lunit a0 at_be16 [OF a4] at_be16 [OF a6] at_be16 [OF a8] n cap pool(1) prod.case offs
        at_be16 [OF b0] at_be16 [OF b2] at_be16 [OF b4] at_be16 [OF b6] at_be16 [OF i0] at_be16 [OF m0] at_be16 [OF t0]
        Let_def icount counts flds(1) mths(1) attrs(1) simp_thms if_True if_False)
  moreover have "holds m ?info k"
    using pool(2,3) flds(3) mths(3) attrs(2) counts icount n points_at [OF assms(2) b8]
    by (simp add: holds_def pool_are_def)
  moreover have "fresh_class ?info k"
    using pool(2) flds(2) mths(2) len by (simp only: fresh_class_def java_class_t.simps)
  ultimately show thesis using that by blast
qed

end
