(* ===== verification/Javaops.thy ===== *)
theory Javaops
  imports Javaclass
begin

text \<open>
  What the operations on a class structure in memory do to the class it stands for, and the length
  they keep for the writer.
\<close>

section \<open>New memory does not disturb the class\<close>

definition extends :: "jmem \<Rightarrow> jmem \<Rightarrow> bool" where
  "extends m m' \<longleftrightarrow> (\<forall>b d. block m b = Some d \<longrightarrow> block m' b = Some d)"

lemma extends_refl [simp]: "extends m m"
  by (simp add: extends_def)

lemma extends_trans: "extends a b \<Longrightarrow> extends b c \<Longrightarrow> extends a c"
  by (simp add: extends_def)

lemma extends_append [simp]: "extends m (m @ [x])"
  by (auto simp: extends_def block_def nth_append split: if_splits)

lemma block_new [simp]: "block (m @ [x]) (length m) = x"
  by (simp add: block_def)

lemma extends_update_new:
  assumes "extends m m'" "block m b = None"
  shows "extends m (m'[b := x])"
proof -
  have "block (m'[b := x]) c = block m' c" if "c \<noteq> b" for c using that by (simp add: block_def)
  then show ?thesis using assms unfolding extends_def by (metis option.distinct(1))
qed

lemma deref_extends: "extends m m' \<Longrightarrow> deref m p = Some x \<Longrightarrow> deref m' p = Some x"
  by (auto simp: extends_def deref_def split: option.splits)

lemma points_extends: "extends m m' \<Longrightarrow> points m p x \<Longrightarrow> points m' p x"
  unfolding points_def using deref_extends by blast

lemma holds_extends:
  assumes "extends m m'" "holds m info k"
  shows "holds m' info k"
proof -
  have "pool_are m arr es \<Longrightarrow> pool_are m' arr es" for arr es
    unfolding pool_are_def using points_extends [OF assms(1)] by blast
  moreover have "items_are m arr xs \<Longrightarrow> items_are m' arr xs" for arr xs
    unfolding items_are_def using points_extends [OF assms(1)] by blast
  ultimately show ?thesis
    using assms(2) points_extends [OF assms(1)] unfolding holds_def by blast
qed

lemma block_free: "length m \<le> b \<Longrightarrow> block m b = None"
  by (simp add: block_def)

lemma points_new: "points (m @ [Some x]) (length m, 0) x"
  by (simp add: points_def deref_def)

section \<open>Constants\<close>

definition utf8 :: "bytes \<Rightarrow> bytes" where
  "utf8 s = [CONSTANT_Utf8] @ htobe16 (of_nat (length s)) @ s"

lemma length_utf8 [simp]: "length (utf8 s) = length s + 3"
  by (simp add: utf8_def)

lemma utf8_ok: "length s < 65533 \<Longrightarrow> entry_ok (utf8 s)"
proof -
  assume s: "length s < 65533"
  have "at (utf8 s) 1 (htobe16 (of_nat (length s)) @ s)"
    by (auto simp: at_def utf8_def)
  from at_be16 [OF this] have "be16toh (utf8 s) 1 = Some (of_nat (length s))" .
  moreover have "aget (utf8 s) 0 = Some CONSTANT_Utf8" by (simp add: utf8_def aget_def)
  ultimately have "javaGetTagLength (utf8 s) = Some (of_nat (length s) + 3)"
    by (simp add: javaGetTagLength_def)
  moreover have "unat (of_nat (length s) + 3 :: u16) = length s + 3"
    using unat_of_nat16 [of "length s + 3"] s by (simp add: add.commute)
  ultimately show ?thesis by (simp add: entry_ok_def)
qed

lemma utf8_narrow: "\<not> wide (utf8 s)"
  by (simp add: wide_def utf8_def is_wide_def CONSTANT_Utf8_def CONSTANT_Double_def CONSTANT_Long_def)

text \<open>Constants of a tag with two indices, and of a tag with one.\<close>

lemma fixed_ok:
  assumes "aget cp_tag_size (uint t) = Some l" "t \<noteq> CONSTANT_Utf8" "unat l = Suc (length bs)"
  shows "entry_ok (t # bs)"
  using assms by (simp add: entry_ok_def javaGetTagLength_def aget_def [of "t # bs"])

lemma pool_ok_append: "pool_ok es \<Longrightarrow> entry_ok e \<Longrightarrow> \<not> wide e \<Longrightarrow> pool_ok (es @ [Some e])"
  by (induction es rule: pool_ok.induct) (auto split: if_splits)

lemma pool_bytes_append [simp]: "pool_bytes (es @ fs) = pool_bytes es @ pool_bytes fs"
  by (induction es rule: pool_bytes.induct) auto

lemma aset_push:
  assumes "unat (w :: u16) = n + 1" "n < length arr"
  shows "aset arr (uint w - 1) x = Some (arr[n := x])"
proof -
  have "uint w = int (n + 1)" using assms(1) by (simp only: uint_nat)
  then have "uint w - 1 = int n" by simp
  then show ?thesis using assms(2) by (simp add: aset_nat)
qed

lemma pool_are_push:
  "pool_are m arr es \<Longrightarrow> length es < length arr \<Longrightarrow> points m p e \<Longrightarrow> pool_are m (arr[length es := Some p]) (es @ [Some e])"
  by (auto simp: pool_are_def nth_append nth_list_update less_Suc_eq simp del: split_paired_Ex)

lemma items_are_push:
  "items_are m arr xs \<Longrightarrow> length xs < length arr \<Longrightarrow> points m p x \<Longrightarrow> items_are m (arr[length xs := Some p]) (xs @ [x])"
  by (auto simp: items_are_def nth_append nth_list_update less_Suc_eq simp del: split_paired_Ex)

lemma items_are_update:
  "items_are m arr xs \<Longrightarrow> i < length xs \<Longrightarrow> points m p x \<Longrightarrow> items_are m (arr[i := Some p]) (xs[i := x])"
  by (auto simp: items_are_def nth_list_update simp del: split_paired_Ex)

section \<open>The invariant\<close>

text \<open>
  The structure stands for a class, the length for the writer is the length of its file, and there
  is room for \<open>n\<close> more constants, fields and methods.
\<close>

definition rep :: "jmem \<Rightarrow> java_class_t \<Rightarrow> jclass \<Rightarrow> bool" where
  "rep m info k \<longleftrightarrow> holds m info k \<and> wf_class k \<and> jc_length info = of_nat (length (serialize k))"

definition room :: "nat \<Rightarrow> java_class_t \<Rightarrow> jclass \<Rightarrow> bool" where
  "room n info k \<longleftrightarrow> length (k_pool k) + n \<le> length (jc_constant_pool info) \<and> length (k_pool k) + n < 65535 \<and>
     length (k_fields k) + n \<le> length (jc_fields info) \<and> length (k_fields k) + n < 65536 \<and>
     length (k_methods k) + n \<le> length (jc_methods info) \<and> length (k_methods k) + n < 65536"

lemma room_less: "room (Suc n) info k \<Longrightarrow> room n info k"
  by (simp add: room_def)

definition add_const :: "bytes \<Rightarrow> jclass \<Rightarrow> jclass" where
  "add_const e k = k\<lparr>k_pool := k_pool k @ [Some e]\<rparr>"

lemma length_add_const: "length (serialize (add_const e k)) = length (serialize k) + length e"
  by (simp add: serialize_def add_const_def)

lemma unat_Suc16: "unat (w :: u16) = n \<Longrightarrow> n < 65535 \<Longrightarrow> unat (w + 1) = n + 1"
proof -
  assume "unat w = n" "n < 65535"
  then have "w + 1 = of_nat (n + 1)" using unat_count [of w n] by simp
  then show ?thesis using \<open>n < 65535\<close> by (simp only: unat_of_nat16)
qed

lemma addTag_holds:
  assumes "holds m info k" "wf_class k" "points m p e" "entry_ok e" "\<not> wide e" "room (Suc n) info k"
  obtains info' where "addTag info p = Some (of_nat (length (k_pool k) + 1), info')" "holds m info' (add_const e k)"
    "wf_class (add_const e k)" "room n info' (add_const e k)" "jc_length info' = jc_length info"
proof -
  let ?n = "length (k_pool k)"
  let ?info = "info\<lparr>jc_constant_pool_count := jc_constant_pool_count info + 1,
     jc_constant_pool := (jc_constant_pool info)[?n := Some p]\<rparr>"
  have c: "unat (jc_constant_pool_count info) = ?n + 1" "?n < length (jc_constant_pool info)" "?n + 1 < 65535"
    using assms(1,6) by (auto simp: holds_def room_def)
  have idx: "jc_constant_pool_count info - 1 = of_nat ?n" using unat_count [OF c(1)] by simp
  have u: "uint (of_nat ?n :: u16) = int ?n" using c(3) unat_of_nat16 [of ?n] by (simp only: uint_nat)
  have "addTag info p = Some (of_nat (?n + 1), ?info)"
    unfolding addTag_def Let_def idx u using c(2) by (simp add: aset_nat)
  moreover have pool: "pool_are m ((jc_constant_pool info)[?n := Some p]) (k_pool k @ [Some e])"
    using pool_are_push [OF _ c(2) assms(3)] assms(1) by (simp add: holds_def)
  moreover have "holds m ?info (add_const e k)"
    using assms(1) pool unat_Suc16 [OF c(1)] c(3) by (simp add: holds_def add_const_def)
  moreover have "wf_class (add_const e k)"
    using assms(2) pool_ok_append [OF _ assms(4,5)] c(3) by (simp add: wf_class_def add_const_def)
  moreover have "room n ?info (add_const e k)" using assms(6) by (simp add: room_def add_const_def)
  ultimately show thesis using that by simp
qed

lemma holds_length [simp]: "holds m (add_length n info) k = holds m info k" "room j (add_length n info) k = room j info k"
  "jc_length (add_length n info) = jc_length info + n"
  by (simp_all add: holds_def room_def add_length_def)

text \<open>Adding a constant in new memory.\<close>

lemma add_const_rep:
  assumes "rep m info k" "room (Suc n) info k" "entry_ok e" "\<not> wide e"
  obtains info' where "addTag (add_length (of_nat (length e)) info) (length m, 0) = Some (of_nat (length (k_pool k) + 1), info')"
    "rep (m @ [Some e]) info' (add_const e k)" "room n info' (add_const e k)"
proof -
  let ?m = "m @ [Some e]" and ?i = "add_length (of_nat (length e)) info"
  have h: "holds ?m ?i k" "wf_class k" using assms(1) holds_extends [OF extends_append] by (auto simp: rep_def)
  obtain info' where i: "addTag ?i (length m, 0) = Some (of_nat (length (k_pool k) + 1), info')" "holds ?m info' (add_const e k)"
      "wf_class (add_const e k)" "room n info' (add_const e k)" "jc_length info' = jc_length ?i"
    using addTag_holds [OF h points_new assms(3,4), of n] assms(2) by auto
  moreover have "jc_length info' = of_nat (length (serialize (add_const e k)))"
    using assms(1) i(5) by (simp add: rep_def length_add_const)
  ultimately show thesis using that by (simp add: rep_def)
qed

text \<open>Only the size of memory matters for what becomes of the structure.\<close>

lemma addUtf8Tag_holds:
  assumes "holds m info k" "wf_class k" "room (Suc n) info k" "length s < 65533"
  obtains info' where
    "\<forall>m'. length m' = length m \<longrightarrow> addUtf8Tag m' info s = Some (of_nat (length (k_pool k) + 1), m' @ [Some (utf8 s)], info')"
    "holds (m @ [Some (utf8 s)]) info' (add_const (utf8 s) k)" "wf_class (add_const (utf8 s) k)" "room n info' (add_const (utf8 s) k)"
    "jc_length info' = jc_length info + of_nat (length (utf8 s))"
proof -
  let ?m = "m @ [Some (utf8 s)]" and ?i = "add_length (of_nat (length (utf8 s))) info"
  have h: "holds ?m ?i k" using assms(1) holds_extends [OF extends_append] by auto
  obtain info' where i: "addTag ?i (length m, 0) = Some (of_nat (length (k_pool k) + 1), info')" "holds ?m info' (add_const (utf8 s) k)"
      "wf_class (add_const (utf8 s) k)" "room n info' (add_const (utf8 s) k)" "jc_length info' = jc_length ?i"
    using addTag_holds [OF h assms(2) points_new utf8_ok [OF assms(4)] utf8_narrow, of n] assms(3) by auto
  have "\<forall>m'. length m' = length m \<longrightarrow> addUtf8Tag m' info s = Some (of_nat (length (k_pool k) + 1), m' @ [Some (utf8 s)], info')"
    using i(1) by (simp add: addUtf8Tag_def malloc_with_def Let_def utf8_def add.commute)
  moreover have "jc_length info' = jc_length info + of_nat (length (utf8 s))" using i(5) by simp
  ultimately show thesis using that i(2-4) by blast
qed

lemma addUtf8Tag_rep:
  assumes "rep m info k" "room (Suc n) info k" "length s < 65533"
  obtains info' where "addUtf8Tag m info s = Some (of_nat (length (k_pool k) + 1), m @ [Some (utf8 s)], info')"
    "rep (m @ [Some (utf8 s)]) info' (add_const (utf8 s) k)" "room n info' (add_const (utf8 s) k)"
proof -
  have h: "holds m info k" "wf_class k" using assms(1) by (simp_all add: rep_def)
  show thesis
    by (rule addUtf8Tag_holds [OF h assms(2,3)], rule that)
      (use assms(1) in \<open>auto simp: rep_def length_add_const simp del: length_utf8\<close>)
qed

lemma javaAddMethodRefTag_rep:
  assumes "rep m info k" "room (Suc n) info k"
  obtains e info' where "javaAddMethodRefTag m info c nt = Some (of_nat (length (k_pool k) + 1), m @ [Some e], info')"
    "e = [CONSTANT_Methodref] @ htobe16 c @ htobe16 nt" "rep (m @ [Some e]) info' (add_const e k)" "room n info' (add_const e k)"
proof -
  let ?e = "[CONSTANT_Methodref] @ htobe16 c @ htobe16 nt"
  have "entry_ok ?e"
    unfolding append_Cons append_Nil
    by (rule fixed_ok [where l = 5]) (simp_all add: CONSTANT_Methodref_def CONSTANT_Utf8_def cp_tag_size_def aget_def)
  moreover have "\<not> wide ?e"
    by (simp add: wide_def is_wide_def CONSTANT_Methodref_def CONSTANT_Double_def CONSTANT_Long_def)
  ultimately obtain info' where i: "addTag (add_length (of_nat (length ?e)) info) (length m, 0) = Some (of_nat (length (k_pool k) + 1), info')"
    "rep (m @ [Some ?e]) info' (add_const ?e k)" "room n info' (add_const ?e k)"
    using add_const_rep [OF assms] by blast
  then have "javaAddMethodRefTag m info c nt = Some (of_nat (length (k_pool k) + 1), m @ [Some ?e], info')"
    by (simp add: javaAddMethodRefTag_def malloc_with_def Let_def)
  with i show thesis using that by blast
qed

lemma javaAddNameAndTypeTag_rep:
  assumes "rep m info k" "room (Suc (Suc (Suc n))) info k" "length name < 65533" "length desc < 65533"
  obtains e m' info' where "javaAddNameAndTypeTag m info name desc = Some (of_nat (length (k_pool k) + 3), m', info')"
    "e = [CONSTANT_NameAndType] @ htobe16 (of_nat (length (k_pool k) + 1)) @ htobe16 (of_nat (length (k_pool k) + 2))"
    "extends m m'" "rep m' info' (add_const e (add_const (utf8 desc) (add_const (utf8 name) k)))"
    "room n info' (add_const e (add_const (utf8 desc) (add_const (utf8 name) k)))"
proof -
  let ?k1 = "add_const (utf8 name) k" and ?m1 = "m @ [Some (utf8 name)]"
  obtain i1 where 1: "addUtf8Tag m info name = Some (of_nat (length (k_pool k) + 1), ?m1, i1)" "rep ?m1 i1 ?k1" "room (Suc (Suc n)) i1 ?k1"
    using addUtf8Tag_rep [OF assms(1,2,3)] .
  let ?k2 = "add_const (utf8 desc) ?k1" and ?m2 = "?m1 @ [Some (utf8 desc)]"
  obtain i2 where 2: "addUtf8Tag ?m1 i1 desc = Some (of_nat (length (k_pool ?k1) + 1), ?m2, i2)" "rep ?m2 i2 ?k2" "room (Suc n) i2 ?k2"
    using addUtf8Tag_rep [OF 1(2,3) assms(4)] .
  have len: "length (k_pool ?k1) + 1 = length (k_pool k) + 2" "length (k_pool ?k2) + 1 = length (k_pool k) + 3"
    by (simp_all add: add_const_def)
  let ?e = "[CONSTANT_NameAndType] @ htobe16 (of_nat (length (k_pool k) + 1)) @ htobe16 (of_nat (length (k_pool k) + 2))"
  have "entry_ok ?e"
    unfolding append_Cons append_Nil
    by (rule fixed_ok [where l = 5]) (simp_all add: CONSTANT_NameAndType_def CONSTANT_Utf8_def cp_tag_size_def aget_def)
  moreover have "\<not> wide ?e"
    by (simp add: wide_def is_wide_def CONSTANT_NameAndType_def CONSTANT_Double_def CONSTANT_Long_def)
  ultimately obtain i3 where 3: "addTag (add_length (of_nat (length ?e)) i2) (length ?m2, 0) = Some (of_nat (length (k_pool ?k2) + 1), i3)"
    "rep (?m2 @ [Some ?e]) i3 (add_const ?e ?k2)" "room n i3 (add_const ?e ?k2)"
    using add_const_rep [OF 2(2,3)] by blast
  have "length ?e = 5" by simp
  then have "javaAddNameAndTypeTag m info name desc = Some (of_nat (length (k_pool k) + 3), ?m2 @ [Some ?e], i3)"
    unfolding javaAddNameAndTypeTag_def 1(1) 2(1) bind.bind_lunit prod.case malloc_with_def Let_def len(1)
    using 3(1) len(2) by simp
  moreover have "extends m (?m2 @ [Some ?e])"
    using extends_trans [OF extends_append extends_trans [OF extends_append extends_append]] by blast
  ultimately show thesis using that 3(2,3) by blast
qed

section \<open>Methods and fields\<close>

definition add_method_item :: "bytes \<Rightarrow> jclass \<Rightarrow> jclass" where
  "add_method_item x k = k\<lparr>k_methods := k_methods k @ [x]\<rparr>"

definition add_field_item :: "bytes \<Rightarrow> jclass \<Rightarrow> jclass" where
  "add_field_item x k = k\<lparr>k_fields := k_fields k @ [x]\<rparr>"

lemma length_add_items: "length (serialize (add_method_item x k)) = length (serialize k) + length x"
  "length (serialize (add_field_item x k)) = length (serialize k) + length x"
  by (simp_all add: serialize_def add_method_item_def add_field_item_def)

lemma push_method_holds:
  assumes "holds m info k" "wf_class k" "points m p x" "delimited javaGetMethodLength x" "room (Suc n) info k"
  obtains info' where "push_method info p = Some info'" "holds m info' (add_method_item x k)" "wf_class (add_method_item x k)"
    "room n info' (add_method_item x k)" "jc_length info' = jc_length info"
proof -
  have c: "unat (jc_methods_count info) = length (k_methods k)" "length (k_methods k) < 65535" "length (k_methods k) < length (jc_methods info)"
    using assms(1,5) by (auto simp: holds_def room_def)
  note n = unat_Suc16 [OF c(1,2)]
  let ?info = "info\<lparr>jc_methods_count := jc_methods_count info + 1, jc_methods := (jc_methods info)[length (k_methods k) := Some p]\<rparr>"
  have "push_method info p = Some ?info"
    using aset_push [OF n c(3)] by (simp add: push_method_def Let_def)
  moreover have "holds m ?info (add_method_item x k)"
    using assms(1) n items_are_push [OF _ c(3) assms(3)] by (simp add: holds_def add_method_item_def)
  moreover have "wf_class (add_method_item x k)" using assms(2,4) c(2) by (simp add: wf_class_def add_method_item_def)
  moreover have "room n ?info (add_method_item x k)" using assms(5) by (simp add: room_def add_method_item_def)
  ultimately show thesis using that by simp
qed

lemma push_field_holds:
  assumes "holds m info k" "wf_class k" "points m p x" "delimited javaGetMethodLength x" "room (Suc n) info k"
  obtains info' where "push_field info p = Some info'" "holds m info' (add_field_item x k)" "wf_class (add_field_item x k)"
    "room n info' (add_field_item x k)" "jc_length info' = jc_length info"
proof -
  have c: "unat (jc_fields_count info) = length (k_fields k)" "length (k_fields k) < 65535" "length (k_fields k) < length (jc_fields info)"
    using assms(1,5) by (auto simp: holds_def room_def)
  note n = unat_Suc16 [OF c(1,2)]
  let ?info = "info\<lparr>jc_fields_count := jc_fields_count info + 1, jc_fields := (jc_fields info)[length (k_fields k) := Some p]\<rparr>"
  have "push_field info p = Some ?info"
    using aset_push [OF n c(3)] by (simp add: push_field_def Let_def)
  moreover have "holds m ?info (add_field_item x k)"
    using assms(1) n items_are_push [OF _ c(3) assms(3)] by (simp add: holds_def add_field_item_def)
  moreover have "wf_class (add_field_item x k)" using assms(2,4) c(2) by (simp add: wf_class_def add_field_item_def)
  moreover have "room n ?info (add_field_item x k)" using assms(5) by (simp add: room_def add_field_item_def)
  ultimately show thesis using that by simp
qed

text \<open>A method of another name, and a method without code.\<close>

definition rename :: "u16 \<Rightarrow> bytes \<Rightarrow> bytes" where
  "rename idx x = take 2 x @ htobe16 idx @ drop 4 x"

definition nativize :: "bytes \<Rightarrow> bytes" where
  "nativize x = htobe16 (or (of_nat (be_val (take 2 x))) ACC_NATIVE) @ take 4 (drop 2 x) @ htobe16 0"

lemma method_drop:
  assumes "6 \<le> length x" "6 \<le> length y" "drop 6 x = drop 6 y"
  shows "javaGetMethodLength x = javaGetMethodLength y"
  using assms by (simp add: javaGetMethodLength_def)

lemma delimited_method_length: "delimited javaGetMethodLength x \<Longrightarrow> 8 \<le> length x"
  by (auto simp: delimited_def javaGetMethodLength_def getAttributesLength_def be16toh_def rd_def bind_eq_Some_conv
      split: option.splits if_splits)

lemma rename_ok:
  assumes "delimited javaGetMethodLength x"
  shows "delimited javaGetMethodLength (rename idx x)" "length (rename idx x) = length x"
proof -
  note l = delimited_method_length [OF assms]
  show len: "length (rename idx x) = length x" using l by (simp add: rename_def)
  have "drop 6 (rename idx x) = drop 6 x"
    using l by (simp add: rename_def)
  then show "delimited javaGetMethodLength (rename idx x)"
    using method_drop [of "rename idx x" x] assms l len by (simp add: delimited_def split: option.splits)
qed

lemma empty_attributes: "length h = 6 \<Longrightarrow> delimited javaGetMethodLength (h @ htobe16 0)"
proof -
  assume h: "length h = 6"
  have "be16toh (htobe16 0) 0 = Some 0" using at_be16 [of "htobe16 0" 0 0 "[]"] by (simp add: at_def)
  then show ?thesis using h by (simp add: delimited_def javaGetMethodLength_def getAttributesLength_def)
qed

lemma nativize_ok:
  assumes "8 \<le> length x"
  shows "delimited javaGetMethodLength (nativize x)" "length (nativize x) = 8"
proof -
  show "length (nativize x) = 8" using assms by (simp add: nativize_def)
  show "delimited javaGetMethodLength (nativize x)"
    unfolding nativize_def append_assoc [symmetric] by (rule empty_attributes) (use assms in simp)
qed

definition copy_method :: "bytes \<Rightarrow> bytes \<Rightarrow> jclass \<Rightarrow> jclass" where
  "copy_method x name k = add_method_item (rename (of_nat (length (k_pool k) + 1)) x) (add_const (utf8 name) k)"

lemma rename_patch: "8 \<le> length x \<Longrightarrow> patch x 2 (htobe16 idx) = Some (rename idx x)"
  by (simp add: patch_def rename_def)

lemma points_block: "block m b = Some x \<Longrightarrow> points m (b, 0) x"
  by (simp add: points_def deref_def)

lemma javaCopyMethod_rep:
  assumes "rep m info k" "room (Suc (Suc n)) info k" "points m p x" "delimited javaGetMethodLength x" "length name < 65533"
  obtains info' where
    "javaCopyMethod m info p name = Some (m @ [Some (rename (of_nat (length (k_pool k) + 1)) x), Some (utf8 name)], info')"
    "rep (m @ [Some (rename (of_nat (length (k_pool k) + 1)) x), Some (utf8 name)]) info' (copy_method x name k)"
    "room n info' (copy_method x name k)"
proof -
  let ?idx = "of_nat (length (k_pool k) + 1) :: u16"
  let ?y = "rename ?idx x" and ?k1 = "add_const (utf8 name) k"
  let ?m1 = "m @ [Some ?y]" and ?m2 = "m @ [Some ?y, Some (utf8 name)]"
  note y = rename_ok [OF assms(4), of ?idx]
  note l8 = delimited_method_length [OF assms(4)]
  have h: "holds ?m1 info k" "wf_class k" using assms(1) holds_extends [OF extends_append] by (auto simp: rep_def)
  have m2: "?m1 @ [Some (utf8 name)] = ?m2" by simp
  obtain i1 where 1: "\<forall>m'. length m' = length ?m1 \<longrightarrow> addUtf8Tag m' info name = Some (?idx, m' @ [Some (utf8 name)], i1)"
      "holds ?m2 i1 ?k1" "wf_class ?k1" "room (Suc n) i1 ?k1" "jc_length i1 = jc_length info + of_nat (length (utf8 name))"
    using addUtf8Tag_holds [OF h assms(2,5), unfolded m2] .
  have p: "points ?m2 (length m, 0) ?y" by (rule points_block) (simp add: block_def)
  obtain i2 where 2: "push_method i1 (length m, 0) = Some i2" "holds ?m2 i2 (add_method_item ?y ?k1)"
      "wf_class (add_method_item ?y ?k1)" "room n i2 (add_method_item ?y ?k1)" "jc_length i2 = jc_length i1"
    using push_method_holds [OF 1(2,3) p y(1) 1(4)] .
  obtain r l where x: "deref m p = Some (x @ r)" "javaGetMethodLength (x @ r) = Some l" "unat l = length x"
    using assms(3) delimited_append [OF prefix_closed_sizes(1) assms(4)] unfolding points_def by metis
  have st: "store (m @ [Some x, Some (utf8 name)]) (length m, 2) (htobe16 ?idx) = Some ?m2"
    using rename_patch [OF l8, of ?idx] by (simp add: store_def block_def nth_append)
  have "javaCopyMethod m info p name = Some (?m2, add_length l i2)"
    unfolding javaCopyMethod_def x(1,2) bind.bind_lunit x(3) rd_whole malloc_with_def Let_def prod.case fst_conv
    using 1(1) [rule_format, of "m @ [Some x]"] st 2(1) by simp
  moreover have "l = of_nat (length x)" using x(3) by (metis of_nat_unat ucast_id)
  then have "rep ?m2 (add_length l i2) (copy_method x name k)"
    using 2(2,3,5) 1(5) assms(1) y(2) by (simp add: rep_def copy_method_def length_add_items length_add_const)
  ultimately show thesis using that 2(4) by (simp add: copy_method_def)
qed

definition native_method :: "nat \<Rightarrow> jclass \<Rightarrow> jclass" where
  "native_method i k = k\<lparr>k_methods := (k_methods k)[i := nativize (k_methods k ! i)]\<rparr>"

lemma length_concat_update: "i < length xs \<Longrightarrow> length (concat (xs[i := y])) + length (xs ! i) = length (concat xs) + length y"
  by (induction xs arbitrary: i) (auto split: nat.splits)

lemma length_native:
  assumes "i < length (k_methods k)"
  shows "length (serialize (native_method i k)) + length (k_methods k ! i) = length (serialize k) + length (nativize (k_methods k ! i))"
  using length_concat_update [OF assms, of "nativize (k_methods k ! i)"] by (simp add: serialize_def native_method_def)

lemma nativize_patch:
  assumes "8 \<le> length x"
  shows "Option.bind (patch (take 8 x) 0 (htobe16 (or (of_nat (be_val (take 2 x))) ACC_NATIVE))) (\<lambda>d. patch d 6 (htobe16 0)) = Some (nativize x)"
  using assms by (auto simp: patch_def nativize_def min_def drop_take numeral_2_eq_2)

lemma javaConvertMethodToNative_rep:
  assumes "rep m info k" "room n info k" "i < length (k_methods k)"
  obtains info' where
    "javaConvertMethodToNative m info (int i) = Some ((length m, 0), m @ [Some (nativize (k_methods k ! i))], info')"
    "rep (m @ [Some (nativize (k_methods k ! i))]) info' (native_method i k)" "room n info' (native_method i k)"
proof -
  let ?x = "k_methods k ! i"
  let ?m = "m @ [Some (nativize ?x)]" and ?arr = "(jc_methods info)[i := Some (length m, 0)]"
  have d: "delimited javaGetMethodLength ?x" using assms(1,3) by (simp add: rep_def wf_class_def)
  note l8 = delimited_method_length [OF d]
  obtain p r where p: "jc_methods info ! i = Some p" "i < length (jc_methods info)" "deref m p = Some (?x @ r)"
    using assms(1,3) unfolding rep_def holds_def items_are_def points_def by (meson order_less_le_trans)
  obtain l where l: "javaGetMethodLength (?x @ r) = Some l" "unat l = length ?x"
    using delimited_append [OF prefix_closed_sizes(1) d] .
  have b: "rd (?x @ r) 0 8 = Some (take 8 ?x)" "be16toh (?x @ r) 0 = Some (of_nat (be_val (take 2 ?x)))"
    using l8 by (simp_all add: rd_def be16toh_def)
  have nat: "patch (take 8 ?x) 0 (htobe16 (or (of_nat (be_val (take 2 ?x))) ACC_NATIVE)) \<bind> (\<lambda>d. patch d 6 (htobe16 0)) = Some (nativize ?x)"
    using nativize_patch [OF l8] .
  let ?i = "add_length (8 - l) (info\<lparr>jc_methods := ?arr\<rparr>)"
  have "javaConvertMethodToNative m info (int i) = Some ((length m, 0), ?m, ?i)"
    unfolding javaConvertMethodToNative_def entry_nth [OF p(2,1)] bind.bind_lunit p(3) l(1) b malloc_with_def Let_def prod.case
    using nat p(2) by (auto simp: bind_eq_Some_conv aset_nat)
  moreover have "holds ?m info k" using assms(1) holds_extends [OF extends_append] by (auto simp: rep_def)
  then have h: "holds ?m ?i (native_method i k)"
    using items_are_update [of ?m "jc_methods info" "k_methods k" i "(length m, 0)"] points_new assms(3)
    by (simp add: holds_def native_method_def add_length_def)
  moreover have "wf_class (native_method i k)"
    using assms(1,3) nativize_ok [OF l8] by (auto simp: rep_def wf_class_def native_method_def dest: set_update_subset_insert [THEN subsetD])
  moreover have "jc_length ?i = of_nat (length (serialize (native_method i k)))"
  proof -
    have "of_nat (length (serialize (native_method i k))) + l = (of_nat (length (serialize k)) + 8 :: u32)"
      using arg_cong [OF length_native [OF assms(3)], of "of_nat :: nat \<Rightarrow> u32"] nativize_ok(2) [OF l8] l(2)
      by (metis of_nat_add of_nat_numeral of_nat_unat ucast_id)
    then have "of_nat (length (serialize (native_method i k))) = (of_nat (length (serialize k)) + (8 - l) :: u32)"
      by (simp add: algebra_simps)
    then show ?thesis using assms(1) by (simp add: rep_def add_length_def)
  qed
  moreover have "room n ?i (native_method i k)" using assms(2) by (simp add: room_def native_method_def add_length_def)
  ultimately show thesis using that by (simp add: rep_def)
qed

definition field_item :: "u16 \<Rightarrow> nat \<Rightarrow> bytes" where
  "field_item flags n = (htobe16 flags @ htobe16 (of_nat (n + 1)) @ htobe16 (of_nat (n + 2))) @ htobe16 0"

definition class_add_field :: "bytes \<Rightarrow> bytes \<Rightarrow> u16 \<Rightarrow> jclass \<Rightarrow> jclass" where
  "class_add_field name desc flags k =
     add_field_item (field_item flags (length (k_pool k))) (add_const (utf8 desc) (add_const (utf8 name) k))"

lemma javaAddField_rep:
  assumes "rep m info k" "room (Suc (Suc (Suc n))) info k" "length name < 65533" "length desc < 65533"
  obtains m' info' where "javaAddField m info name desc flags = Some (m', info')" "extends m m'"
    "rep m' info' (class_add_field name desc flags k)" "room n info' (class_add_field name desc flags k)"
proof -
  let ?k1 = "add_const (utf8 name) k" and ?m1 = "m @ [Some (utf8 name)]"
  obtain i1 where 1: "addUtf8Tag m info name = Some (of_nat (length (k_pool k) + 1), ?m1, i1)" "rep ?m1 i1 ?k1" "room (Suc (Suc n)) i1 ?k1"
    using addUtf8Tag_rep [OF assms(1,2,3)] .
  let ?k2 = "add_const (utf8 desc) ?k1" and ?m2 = "?m1 @ [Some (utf8 desc)]"
  obtain i2 where 2: "addUtf8Tag ?m1 i1 desc = Some (of_nat (length (k_pool ?k1) + 1), ?m2, i2)" "rep ?m2 i2 ?k2" "room (Suc n) i2 ?k2"
    using addUtf8Tag_rep [OF 1(2,3) assms(4)] .
  let ?x = "field_item flags (length (k_pool k))"
  let ?m3 = "?m2 @ [Some ?x]"
  have len: "length (k_pool ?k1) + 1 = length (k_pool k) + 2" by (simp add: add_const_def)
  have x: "delimited javaGetMethodLength ?x" "length ?x = 8"
    unfolding field_item_def by (rule empty_attributes) simp_all
  have h: "holds ?m3 i2 ?k2" "wf_class ?k2" using 2(2) holds_extends [OF extends_append] unfolding rep_def by blast+
  obtain i3 where 3: "push_field i2 (length ?m2, 0) = Some i3" "holds ?m3 i3 (add_field_item ?x ?k2)" "wf_class (add_field_item ?x ?k2)"
      "room n i3 (add_field_item ?x ?k2)" "jc_length i3 = jc_length i2"
    using push_field_holds [OF h points_new x(1) 2(3)] .
  have "javaAddField m info name desc flags = Some (?m3, add_length 8 i3)"
    unfolding javaAddField_def 1(1) 2(1) bind.bind_lunit prod.case malloc_with_def Let_def len
    using 3(1) by (simp add: field_item_def)
  moreover have "extends m ?m3" by (rule extends_trans [OF extends_append extends_trans [OF extends_append extends_append]])
  moreover have "rep ?m3 (add_length 8 i3) (class_add_field name desc flags k)"
    using 3(2,3,5) 2(2) x(2) by (simp add: rep_def class_add_field_def length_add_items)
  ultimately show thesis using that 3(4) by (simp add: class_add_field_def)
qed

text \<open>A method with its code as its only attribute, or with none.\<close>

definition method_item :: "u16 \<Rightarrow> nat \<Rightarrow> u16 \<Rightarrow> u16 \<Rightarrow> bytes option \<Rightarrow> bytes" where
  "method_item flags n maxStack maxLocals code =
     (htobe16 flags @ htobe16 (of_nat (n + 1)) @ htobe16 (of_nat (n + 2))) @
     (case code of
        None \<Rightarrow> htobe16 0
      | Some c \<Rightarrow> htobe16 1 @ htobe16 (of_nat (n + 3)) @ htobe32 (12 + of_nat (length c)) @ htobe16 maxStack @ htobe16 maxLocals @
                   htobe32 (of_nat (length c)) @ c @ htobe16 0 @ htobe16 0)"

definition add_method :: "bytes \<Rightarrow> bytes \<Rightarrow> u16 \<Rightarrow> u16 \<Rightarrow> u16 \<Rightarrow> bytes option \<Rightarrow> jclass \<Rightarrow> jclass" where
  "add_method name desc flags maxStack maxLocals code k =
     (let k' = add_const (utf8 desc) (add_const (utf8 name) (add_method_item (method_item flags (length (k_pool k)) maxStack maxLocals code) k))
      in case code of None \<Rightarrow> k' | Some _ \<Rightarrow> add_const (utf8 (map of_char ''Code'')) k')"

lemma length_method_item: "length (method_item flags n s l code) = (case code of None \<Rightarrow> 8 | Some c \<Rightarrow> 26 + length c)"
  by (simp add: method_item_def split: option.split)

lemma method_item_ok:
  assumes "\<And>c. code = Some c \<Longrightarrow> length c + 26 < 2 ^ 32"
  shows "delimited javaGetMethodLength (method_item flags n s l code)"
proof (cases code)
  case None
  show ?thesis unfolding method_item_def None option.case by (intro empty_attributes) simp
next
  case (Some c)
  let ?h = "htobe16 flags @ htobe16 (of_nat (n + 1)) @ htobe16 (of_nat (n + 2))"
  let ?len = "12 + of_nat (length c) :: u32"
  let ?tail = "htobe16 s @ htobe16 l @ htobe32 (of_nat (length c)) @ c @ htobe16 0 @ htobe16 0"
  let ?a = "htobe16 1 @ htobe16 (of_nat (n + 3)) @ htobe32 ?len @ ?tail"
  have small: "length c + 26 < 2 ^ 32" using assms Some by blast
  have at0: "at ?a 0 (htobe16 1 @ htobe16 (of_nat (n + 3)) @ htobe32 ?len @ ?tail)" by (simp add: at_def)
  have four: "0 + 2 + 2 = (4 :: nat)" by simp
  have "be16toh ?a 0 = Some 1" "be32toh ?a 4 = Some ?len"
    using at_be16 [OF at0] at_be32 [OF at_step2 [OF at_step2 [OF at0]]] unfolding four .
  moreover have "unat (?len + 6) = length c + 18"
  proof -
    have "?len + 6 = of_nat (length c + 18)" by simp
    then show ?thesis using small unat_of_nat [where 'a = 32, of "length c + 18"] by (simp only:) simp
  qed
  moreover have "length ?a = length c + 20" by simp
  ultimately have "getAttributesLength ?a = Some (of_nat (length c + 20))"
    by (simp add: getAttributesLength_def numeral_eq_Suc)
  then have "javaGetMethodLength (?h @ ?a) = Some (of_nat (length c + 26))"
    by (simp add: javaGetMethodLength_def)
  moreover have "unat (of_nat (length c + 26) :: u32) = length c + 26"
    using small by (simp add: unat_of_nat del: of_nat_add)
  moreover have "method_item flags n s l code = ?h @ ?a" by (simp add: method_item_def Some)
  ultimately show ?thesis by (simp add: delimited_def)
qed

text \<open>
  The code reserves the method, adds its constants and then fills it in. The result is that of
  adding the finished method first.
\<close>

lemma javaAddMethod_rep:
  assumes "rep m info k" "room (Suc (Suc (Suc (Suc n)))) info k" "length name < 65533" "length desc < 65533"
    and "\<And>c. code = Some c \<Longrightarrow> length c + 26 < 2 ^ 32 \<and> codeLen = of_nat (length c)"
  obtains m' info' where "javaAddMethod m info name desc flags maxStack maxLocals code codeLen = Some (m', info')" "extends m m'"
    "rep m' info' (add_method name desc flags maxStack maxLocals code k)" "room n info' (add_method name desc flags maxStack maxLocals code k)"
proof -
  let ?n = "length (k_pool k)"
  let ?x = "method_item flags ?n maxStack maxLocals code"
  have x: "delimited javaGetMethodLength ?x" using method_item_ok assms(5) by blast
  let ?m1 = "m @ [Some ?x]" and ?k1 = "add_method_item ?x k"
  have h: "holds ?m1 info k" "wf_class k" using assms(1) holds_extends [OF extends_append] unfolding rep_def by blast+
  obtain i1 where 1: "push_method info (length m, 0) = Some i1" "holds ?m1 i1 ?k1" "wf_class ?k1" "room (Suc (Suc (Suc n))) i1 ?k1"
      "jc_length i1 = jc_length info"
    using push_method_holds [OF h points_new x assms(2)] .
  let ?k2 = "add_const (utf8 name) ?k1" and ?m2 = "?m1 @ [Some (utf8 name)]"
  obtain i2 where 2: "\<forall>m'. length m' = length ?m1 \<longrightarrow> addUtf8Tag m' i1 name = Some (of_nat (length (k_pool ?k1) + 1), m' @ [Some (utf8 name)], i2)"
      "holds ?m2 i2 ?k2" "wf_class ?k2" "room (Suc (Suc n)) i2 ?k2" "jc_length i2 = jc_length i1 + of_nat (length (utf8 name))"
    using addUtf8Tag_holds [OF 1(2,3,4) assms(3)] .
  let ?k3 = "add_const (utf8 desc) ?k2" and ?m3 = "?m2 @ [Some (utf8 desc)]"
  obtain i3 where 3: "\<forall>m'. length m' = length ?m2 \<longrightarrow> addUtf8Tag m' i2 desc = Some (of_nat (length (k_pool ?k2) + 1), m' @ [Some (utf8 desc)], i3)"
      "holds ?m3 i3 ?k3" "wf_class ?k3" "room (Suc n) i3 ?k3" "jc_length i3 = jc_length i2 + of_nat (length (utf8 desc))"
    using addUtf8Tag_holds [OF 2(2,3,4) assms(4)] .
  have idx: "length (k_pool ?k1) + 1 = ?n + 1" "length (k_pool ?k2) + 1 = ?n + 2" "length (k_pool ?k3) + 1 = ?n + 3"
    by (simp_all add: add_method_item_def add_const_def)
  have ext: "extends m ?m3" by (rule extends_trans [OF extends_append extends_trans [OF extends_append extends_append]])
  have len3: "jc_length i3 + of_nat (length ?x) = of_nat (length (serialize ?k3))"
    using 3(5) 2(5) 1(5) assms(1) by (simp add: rep_def length_add_const length_add_items)
  show thesis
  proof (cases code)
    case None
    have st: "store ((m @ [Some (replicate 8 0)]) @ [Some (utf8 name)] @ [Some (utf8 desc)]) (length m, 0)
        (htobe16 flags @ htobe16 (of_nat (?n + 1)) @ htobe16 (of_nat (?n + 2)) @ htobe16 0) = Some ?m3"
      by (simp add: store_def block_def nth_append patch_def method_item_def None)
    have "javaAddMethod m info name desc flags maxStack maxLocals code codeLen = Some (?m3, add_length 8 i3)"
      unfolding javaAddMethod_def None option.case Let_def malloc_with_def prod.case 1(1) bind.bind_lunit
      using 2(1) [rule_format, of "m @ [Some (replicate 8 0)]"] 3(1) [rule_format, of "(m @ [Some (replicate 8 0)]) @ [Some (utf8 name)]"] st
      unfolding idx by (simp add: None)
    moreover have "rep ?m3 (add_length 8 i3) (add_method name desc flags maxStack maxLocals code k)"
      using 3(2,3) len3 length_method_item [of flags ?n maxStack maxLocals code] by (simp add: rep_def add_method_def None)
    ultimately show ?thesis using that ext room_less [OF 3(4)] by (simp add: add_method_def None)
  next
    case (Some c)
    let ?c = "map of_char ''Code''" and ?z = "replicate (8 + 2 + 4 + unat (12 + codeLen)) 0 :: bytes"
    have cl: "length c + 26 < 2 ^ 32" "codeLen = of_nat (length c)" using assms(5) Some by blast+
    have u: "unat codeLen = length c" "unat (12 + codeLen) = length c + 12"
    proof -
      show "unat codeLen = length c" using cl by (simp add: unat_of_nat)
      have "12 + codeLen = of_nat (length c + 12)" using cl(2) by simp
      then show "unat (12 + codeLen) = length c + 12" using cl(1) unat_of_nat [where 'a = 32, of "length c + 12"] by (simp only:) simp
    qed
    let ?k4 = "add_const (utf8 ?c) ?k3" and ?m4 = "?m3 @ [Some (utf8 ?c)]"
    obtain i4 where 4: "\<forall>m'. length m' = length ?m3 \<longrightarrow> addUtf8Tag m' i3 ?c = Some (of_nat (length (k_pool ?k3) + 1), m' @ [Some (utf8 ?c)], i4)"
        "holds ?m4 i4 ?k4" "wf_class ?k4" "room n i4 ?k4" "jc_length i4 = jc_length i3 + of_nat (length (utf8 ?c))"
      using addUtf8Tag_holds [OF 3(2,3,4), of ?c] by auto
    let ?h = "htobe16 flags @ htobe16 (of_nat (?n + 1)) @ htobe16 (of_nat (?n + 2)) @ htobe16 1"
    let ?b = "htobe16 (of_nat (?n + 3)) @ htobe32 (12 + codeLen) @ htobe16 maxStack @ htobe16 maxLocals @ htobe32 codeLen @ c @ htobe16 0 @ htobe16 0"
    let ?mz = "(m @ [Some ?z]) @ [Some (utf8 name)] @ [Some (utf8 desc)] @ [Some (utf8 ?c)]"
    let ?mh = "(m @ [Some (?h @ drop 8 ?z)]) @ [Some (utf8 name)] @ [Some (utf8 desc)] @ [Some (utf8 ?c)]"
    have st1: "store ?mz (length m, 0) ?h = Some ?mh"
      by (simp add: store_def block_def nth_append patch_def)
    have "?h @ ?b = ?x" using cl(2) by (simp add: method_item_def Some)
    then have st2: "store ?mh (length m, 8) ?b = Some ?m4"
      using u by (simp add: store_def block_def nth_append patch_def)
    have "javaAddMethod m info name desc flags maxStack maxLocals code codeLen = Some (?m4, add_length (of_nat (8 + 2 + 4 + unat (12 + codeLen))) i4)"
      unfolding javaAddMethod_def Some option.case Let_def malloc_with_def prod.case 1(1) bind.bind_lunit
      using 2(1) [rule_format, of "m @ [Some ?z]"] 3(1) [rule_format, of "(m @ [Some ?z]) @ [Some (utf8 name)]"]
        4(1) [rule_format, of "((m @ [Some ?z]) @ [Some (utf8 name)]) @ [Some (utf8 desc)]"] st1 st2 u rd_whole [of c "[]"]
      unfolding idx by (simp add: Some)
    moreover have "rep ?m4 (add_length (of_nat (8 + 2 + 4 + unat (12 + codeLen))) i4) (add_method name desc flags maxStack maxLocals code k)"
      using 4(2,3,5) len3 length_method_item [of flags ?n maxStack maxLocals code] u
      by (simp add: rep_def add_method_def Some length_add_const algebra_simps)
    moreover have "extends m ?m4" by (rule extends_trans [OF ext extends_append])
    ultimately show ?thesis using that 4(4) by (simp add: add_method_def Some)
  qed
qed

end
