(* ===== verification/Javaprops.thy ===== *)
theory Javaprops
  imports Javaops
begin

text \<open>
  The properties of the class file reader and writer: writing undoes reading, the operations refine
  operations on classes, methods are found, and three defects.
\<close>

section \<open>Writing what was read\<close>

definition slice :: "bytes \<Rightarrow> nat \<Rightarrow> nat \<Rightarrow> bytes" where
  "slice d a b = take (b - a) (drop a d)"

lemma slice_append: "a \<le> b \<Longrightarrow> b \<le> c \<Longrightarrow> slice d a b @ slice d b c = slice d a c"
proof -
  assume "a \<le> b" "b \<le> c"
  then obtain i j where "b = a + i" "c = a + i + j" by (metis le_Suc_ex)
  then show ?thesis by (simp add: slice_def take_add add.commute)
qed

lemma unat8: "unat (x :: u8) < 256"
proof -
  have "unat x < 2 ^ LENGTH(8)" by (rule unsigned_less)
  then show ?thesis by simp
qed

lemma of_nat_unat8: "of_nat (unat (x :: u8)) = x"
  by simp

lemma htobe16_be: "length w = 2 \<Longrightarrow> htobe16 (of_nat (be_val w)) = w"
proof -
  assume "length w = 2"
  then obtain x y where w: "w = [x, y]" by (auto simp: numeral_2_eq_2 length_Suc_conv)
  have v: "be_val w = unat x * 256 + unat y" by (simp add: be_val_def w)
  have "unat x * 256 + unat y < 65536" using unat8 [of x] unat8 [of y] by linarith
  then have u: "unat (of_nat (be_val w) :: u16) = unat x * 256 + unat y" unfolding v by (rule unat_of_nat16)
  have x: "(unat x * 256 + unat y) div 256 = unat x" using unat8 [of y] by simp
  have y: "(of_nat (unat x * 256 + unat y) :: u8) = y"
    by (rule word_unat_eq_iff [THEN iffD2]) (simp add: unat_byte unat8 del: of_nat_add of_nat_mult)
  show ?thesis by (simp only: htobe16_def u x y of_nat_unat8) (simp only: w)
qed

lemma be16_slice: "be16toh d off = Some v \<Longrightarrow> htobe16 v = slice d off (off + 2) \<and> off + 2 \<le> length d"
  by (auto simp: be16toh_def rd_def slice_def htobe16_be split: if_splits)

lemma rd_slice: "off + n \<le> length d \<Longrightarrow> rd (drop off d) 0 n = Some (slice d off (off + n))"
  by (simp add: rd_def slice_def)

lemma deref_block: "block m b = Some d \<Longrightarrow> off \<le> length d \<Longrightarrow> deref m (b, off) = Some (drop off d)"
  by (simp add: deref_def)

lemma write_read_items:
  assumes "block m b = Some d"
  shows "\<lbrakk>read_items sz d b n i off arr = Some (arr', off'); off \<le> length d; i + n \<le> length arr\<rbrakk> \<Longrightarrow>
    off \<le> off' \<and> off' \<le> length d \<and> length arr' = length arr \<and> (\<forall>j<i. arr' ! j = arr ! j) \<and>
    write_items sz m arr' n i = Some (slice d off off')"
proof (induction n arbitrary: i off arr)
  case 0
  then show ?case by (simp add: slice_def)
next
  case (Suc n)
  have i: "i < length arr" using Suc.prems(3) by simp
  let ?arr = "arr[i := Some (b, off)]"
  obtain s where s: "sz (drop off d) = Some s" "off + unat s \<le> length d"
      "read_items sz d b n (Suc i) (off + unat s) ?arr = Some (arr', off')"
    using Suc.prems(1) i by (auto simp: bind_eq_Some_conv aset_nat Let_def split: if_splits)
  have IH: "off + unat s \<le> off'" "off' \<le> length d" "length arr' = length arr" "\<forall>j<Suc i. arr' ! j = ?arr ! j"
      "write_items sz m arr' n (Suc i) = Some (slice d (off + unat s) off')"
    using Suc.IH [OF s(3,2)] Suc.prems(3) by auto
  have "arr' ! i = Some (b, off)" using IH(4) i by simp
  then have "write_items sz m arr' (Suc n) i = Some (slice d off (off + unat s) @ slice d (off + unat s) off')"
    using IH(3,5) i s(1) rd_slice [OF s(2)] deref_block [OF assms Suc.prems(2)] by (simp add: entry_nth)
  then show ?case using IH slice_append [of off "off + unat s" off' d] by auto
qed

lemma write_read_pool:
  assumes "block m b = Some d" "unat (jc_constant_pool_count info) = count"
  shows "\<lbrakk>read_pool d b count (Suc i) off arr = Some (jc_constant_pool info, off'); off \<le> length d; count \<le> Suc (length arr)\<rbrakk> \<Longrightarrow>
    off \<le> off' \<and> off' \<le> length d \<and> length (jc_constant_pool info) = length arr \<and> (\<forall>j<i. jc_constant_pool info ! j = arr ! j) \<and>
    write_pool m info i = Some (slice d off off')"
proof (induction "count - i" arbitrary: i off arr rule: less_induct)
  case less
  show ?case
  proof (cases "Suc i < count")
    case False
    then show ?thesis
      using less.prems assms(2) by (subst write_pool.simps) (auto simp: read_pool.simps slice_def)
  next
    case True
    then have i: "i < length arr" using less.prems(3) by simp
    let ?arr = "arr[i := Some (b, off)]"
    define k where "k tag = (if is_wide tag then 2 else 1 :: nat)" for tag
    have k: "0 < k t" for t by (simp add: k_def)
    obtain tag l where s: "aget d (int off) = Some tag" "javaGetTagLength (drop off d) = Some l" "off + unat l \<le> length d"
        "read_pool d b count (Suc (i + k tag)) (off + unat l) ?arr = Some (jc_constant_pool info, off')"
      using less.prems(1) True i
      by (subst (asm) read_pool.simps) (auto simp: bind_eq_Some_conv aset_nat Let_def k_def split: if_splits)
    have "count - (i + k tag) < count - i" using True k [of tag] by simp
    from less.hyps [OF this s(4,3)] less.prems(3)
    have IH: "off + unat l \<le> off'" "off' \<le> length d" "length (jc_constant_pool info) = length arr"
        "\<forall>j<i + k tag. jc_constant_pool info ! j = ?arr ! j" "write_pool m info (i + k tag) = Some (slice d (off + unat l) off')"
      by auto
    have "jc_constant_pool info ! i = Some (b, off)" using IH(4) i k [of tag] by simp
    moreover have "aget (drop off d) 0 = Some tag" using s(1) less.prems(2) by (auto simp: aget_def split: if_splits)
    ultimately have "write_pool m info i = Some (slice d off (off + unat l) @ slice d (off + unat l) off')"
      using IH(3,5) i s(2) rd_slice [OF s(3)] deref_block [OF assms(1) less.prems(2)] True assms(2)
      by (subst write_pool.simps) (simp add: entry_nth k_def split: if_splits)
    moreover have "\<forall>j<i. jc_constant_pool info ! j = arr ! j" using IH(4) by auto
    ultimately show ?thesis using IH(1-3) slice_append [of off "off + unat l" off' d] by auto
  qed
qed

lemma javaReadClass_parts:
  assumes "block m b = Some d" "javaReadClass True m b = Some (Some info)"
  obtains o1 o2 o3 where
    "rd d 0 4 = Some magic" "be16toh d 4 = Some (jc_minor_version info)" "be16toh d 6 = Some (jc_major_version info)"
    "be16toh d 8 = Some (jc_constant_pool_count info)"
    "read_pool d b (unat (jc_constant_pool_count info)) 1 10 (replicate (nat (100 + (uint (jc_constant_pool_count info) - 1))) None) =
      Some (jc_constant_pool info, o1)"
    "be16toh d o1 = Some (jc_access_flags info)" "be16toh d (o1 + 2) = Some (jc_this_class info)"
    "be16toh d (o1 + 4) = Some (jc_super_class info)" "be16toh d (o1 + 6) = Some (jc_interfaces_count info)"
    "jc_interfaces info = (b, o1 + 8)"
    "be16toh d (o1 + 8 + unat (jc_interfaces_count info) * 2) = Some (jc_fields_count info)"
    "read_items javaGetMethodLength d b (unat (jc_fields_count info)) 0 (o1 + 8 + unat (jc_interfaces_count info) * 2 + 2)
      (replicate (100 + unat (jc_fields_count info)) None) = Some (jc_fields info, o2)"
    "be16toh d o2 = Some (jc_methods_count info)"
    "read_items javaGetMethodLength d b (unat (jc_methods_count info)) 0 (o2 + 2)
      (replicate (100 + unat (jc_methods_count info)) None) = Some (jc_methods info, o3)"
    "be16toh d o3 = Some (jc_attributes_count info)"
    "\<exists>o4. read_items attribute_size d b (unat (jc_attributes_count info)) 0 (o3 + 2)
      (replicate (unat (jc_attributes_count info)) None) = Some (jc_attributes info, o4) \<and> jc_length info = of_nat o4"
  using assms by (auto simp: javaReadClass_def bind_eq_Some_conv Let_def split: if_splits)

lemma write_read_bytes:
  assumes "block m b = Some d" "length d < 2 ^ 32" "javaReadClass True m b = Some (Some info)" "block m' b = Some d"
  shows "class_bytes m' info = Some (take (unat (jc_length info)) d)" "unat (jc_length info) \<le> length d"
proof -
  obtain o1 o2 o3 where h: "rd d 0 4 = Some magic" "be16toh d 4 = Some (jc_minor_version info)" "be16toh d 6 = Some (jc_major_version info)"
    "be16toh d 8 = Some (jc_constant_pool_count info)"
    "read_pool d b (unat (jc_constant_pool_count info)) 1 10 (replicate (nat (100 + (uint (jc_constant_pool_count info) - 1))) None) =
      Some (jc_constant_pool info, o1)"
    and i: "be16toh d o1 = Some (jc_access_flags info)" "be16toh d (o1 + 2) = Some (jc_this_class info)"
    "be16toh d (o1 + 4) = Some (jc_super_class info)" "be16toh d (o1 + 6) = Some (jc_interfaces_count info)"
    "jc_interfaces info = (b, o1 + 8)"
    "be16toh d (o1 + 8 + unat (jc_interfaces_count info) * 2) = Some (jc_fields_count info)"
    and f: "read_items javaGetMethodLength d b (unat (jc_fields_count info)) 0 (o1 + 8 + unat (jc_interfaces_count info) * 2 + 2)
      (replicate (100 + unat (jc_fields_count info)) None) = Some (jc_fields info, o2)"
    "be16toh d o2 = Some (jc_methods_count info)"
    and e: "read_items javaGetMethodLength d b (unat (jc_methods_count info)) 0 (o2 + 2)
      (replicate (100 + unat (jc_methods_count info)) None) = Some (jc_methods info, o3)"
    "be16toh d o3 = Some (jc_attributes_count info)"
    "\<exists>o4. read_items attribute_size d b (unat (jc_attributes_count info)) 0 (o3 + 2)
      (replicate (unat (jc_attributes_count info)) None) = Some (jc_attributes info, o4) \<and> jc_length info = of_nat o4"
    using javaReadClass_parts [OF assms(1,3)] .
  let ?n = "unat (jc_interfaces_count info) * 2"
  obtain o4 where o4: "read_items attribute_size d b (unat (jc_attributes_count info)) 0 (o3 + 2)
      (replicate (unat (jc_attributes_count info)) None) = Some (jc_attributes info, o4)" "jc_length info = of_nat o4"
    using e(3) by blast
  have cap: "unat (jc_constant_pool_count info) \<le> Suc (length (replicate (nat (100 + (uint (jc_constant_pool_count info) - 1))) (None :: jptr option)))"
    by (simp only: length_replicate uint_nat)
  note s = be16_slice [OF h(2)] be16_slice [OF h(3)] be16_slice [OF h(4)] be16_slice [OF i(1)] be16_slice [OF i(2)] be16_slice [OF i(3)]
    be16_slice [OF i(4)] be16_slice [OF i(6)] be16_slice [OF f(2)] be16_slice [OF e(2)]
  have P: "10 \<le> o1" "o1 \<le> length d" "write_pool m' info 0 = Some (slice d 10 o1)"
    using write_read_pool [OF assms(4) refl h(5) [unfolded One_nat_def] _ cap] s by auto
  have ifs: "deref m' (jc_interfaces info) = Some (drop (o1 + 8) d)" "rd (drop (o1 + 8) d) 0 ?n = Some (slice d (o1 + 8) (o1 + 8 + ?n))"
    using deref_block [OF assms(4), of "o1 + 8"] rd_slice [of "o1 + 8" ?n d] i(5) s by auto
  have F: "o1 + 8 + ?n + 2 \<le> o2" "o2 \<le> length d"
      "write_items javaGetMethodLength m' (jc_fields info) (unat (jc_fields_count info)) 0 = Some (slice d (o1 + 8 + ?n + 2) o2)"
    using write_read_items [OF assms(4) f(1)] s by auto
  have M: "o2 + 2 \<le> o3" "o3 \<le> length d"
      "write_items javaGetMethodLength m' (jc_methods info) (unat (jc_methods_count info)) 0 = Some (slice d (o2 + 2) o3)"
    using write_read_items [OF assms(4) e(1)] s by auto
  have A: "o3 + 2 \<le> o4" "o4 \<le> length d"
      "write_items attribute_size m' (jc_attributes info) (unat (jc_attributes_count info)) 0 = Some (slice d (o3 + 2) o4)"
    using write_read_items [OF assms(4) o4(1)] s by auto
  have mg: "magic = slice d 0 4" using h(1) by (auto simp: rd_def slice_def split: if_splits)
  have "class_bytes m' info = Some (slice d 0 4 @ slice d 4 6 @ slice d 6 8 @ slice d 8 10 @ slice d 10 o1 @
      slice d o1 (o1 + 2) @ slice d (o1 + 2) (o1 + 4) @ slice d (o1 + 4) (o1 + 6) @ slice d (o1 + 6) (o1 + 8) @
      slice d (o1 + 8) (o1 + 8 + ?n) @ slice d (o1 + 8 + ?n) (o1 + 8 + ?n + 2) @ slice d (o1 + 8 + ?n + 2) o2 @
      slice d o2 (o2 + 2) @ slice d (o2 + 2) o3 @ slice d o3 (o3 + 2) @ slice d (o3 + 2) o4)"
    unfolding class_bytes_def P(3) ifs F(3) M(3) A(3) bind.bind_lunit mg using s by (simp add: numeral_eq_Suc)
  also have "\<dots> = Some (slice d 0 o4)"
    using P F M A by (simp add: slice_append)
  finally have "class_bytes m' info = Some (take o4 d)" by (simp add: slice_def)
  moreover have "unat (jc_length info) = o4" using o4(2) A(2) assms(2) by (simp add: unat_of_nat)
  ultimately show "class_bytes m' info = Some (take (unat (jc_length info)) d)" "unat (jc_length info) \<le> length d" using A(2) by simp_all
qed

text \<open>
  C33. Writing a class that was read, into a buffer of the length the reader found, gives back the bytes of
  the file, whatever it contains: an unmodified class is passed on unchanged.
\<close>

theorem java_write_read:
  assumes "block m b = Some d" "length d < 2 ^ 32" "javaReadClass True m b = Some (Some info)"
  shows "javaWriteClass (m @ [Some (replicate (unat (jc_length info)) 0)]) (length m, 0) info =
    Some (m @ [Some (take (unat (jc_length info)) d)])"
proof -
  have "block (m @ [Some (replicate (unat (jc_length info)) 0)]) b = Some d"
    using assms(1) extends_append unfolding extends_def by blast
  note w = write_read_bytes [OF assms this]
  show ?thesis
    unfolding javaWriteClass_def w(1) bind.bind_lunit using w(2) by (simp add: store_def patch_def)
qed

definition tiny_class :: jclass where
  "tiny_class = \<lparr>k_minor = 0, k_major = 52,
     k_pool = [Some (utf8 [119]), Some (utf8 [86]), Some (5 # replicate 8 0), None], k_flags = 33, k_this = 1, k_super = 2,
     k_interfaces = [], k_fields = [], k_methods = [[0, 1, 0, 1, 0, 2, 0, 0]], k_attributes = []\<rparr>"

lemma tiny_wf: "wf_class tiny_class"
proof -
  have "entry_ok (5 # replicate 8 0)"
    by (rule fixed_ok [where l = 9]) (simp_all add: CONSTANT_Utf8_def cp_tag_size_def aget_def)
  moreover have "wide (5 # replicate 8 0)" by (simp add: wide_def is_wide_def CONSTANT_Long_def)
  moreover have "[0, 1, 0, 1, 0, 2, 0, 0] = [0, 1, 0, 1, 0, 2] @ htobe16 0" by (simp add: htobe16_def)
  then have "delimited javaGetMethodLength [0, 1, 0, 1, 0, 2, 0, 0]" using empty_attributes [of "[0, 1, 0, 1, 0, 2]"] by simp
  ultimately show ?thesis by (simp add: wf_class_def tiny_class_def utf8_ok utf8_narrow)
qed

lemma tiny_length: "length (serialize tiny_class) = 49"
  by (simp add: serialize_def tiny_class_def magic_def)

theorem java_write_read_witness:
  "\<exists>info. javaReadClass True [Some (serialize tiny_class)] 0 = Some (Some info) \<and>
     javaWriteClass [Some (serialize tiny_class), Some (replicate (unat (jc_length info)) 0)] (1, 0) info =
       Some [Some (serialize tiny_class), Some (take (unat (jc_length info)) (serialize tiny_class))]"
proof -
  have b: "block [Some (serialize tiny_class)] 0 = Some (serialize tiny_class @ [])" by (simp add: block_def)
  obtain info where i: "javaReadClass True [Some (serialize tiny_class)] 0 = Some (Some info)"
    using read_serialized [OF tiny_wf b] by blast
  show ?thesis using java_write_read [OF b _ i] tiny_length i by auto
qed

section \<open>Operations\<close>

datatype class_op =
    CopyMethod nat bytes
  | Nativize nat
  | AddMethod bytes bytes u16 u16 u16 "bytes option"
  | AddField bytes bytes u16
  | AddNameAndType bytes bytes
  | AddMethodRef u16 u16

fun apply_op :: "class_op \<Rightarrow> jmem \<times> java_class_t \<Rightarrow> (jmem \<times> java_class_t) option" where
  "apply_op (CopyMethod i name) (m, info) = do { p \<leftarrow> entry (jc_methods info) (int i); javaCopyMethod m info p name }"
| "apply_op (Nativize i) (m, info) = map_option snd (javaConvertMethodToNative m info (int i))"
| "apply_op (AddMethod name desc flags s l code) (m, info) =
     javaAddMethod m info name desc flags s l code (case code of None \<Rightarrow> 0 | Some c \<Rightarrow> of_nat (length c))"
| "apply_op (AddField name desc flags) (m, info) = javaAddField m info name desc flags"
| "apply_op (AddNameAndType name desc) (m, info) = map_option snd (javaAddNameAndTypeTag m info name desc)"
| "apply_op (AddMethodRef c nt) (m, info) = map_option snd (javaAddMethodRefTag m info c nt)"

text \<open>The same operations on a class.\<close>

fun spec_op :: "class_op \<Rightarrow> jclass \<Rightarrow> jclass" where
  "spec_op (CopyMethod i name) k = copy_method (k_methods k ! i) name k"
| "spec_op (Nativize i) k = native_method i k"
| "spec_op (AddMethod name desc flags s l code) k = add_method name desc flags s l code k"
| "spec_op (AddField name desc flags) k = class_add_field name desc flags k"
| "spec_op (AddNameAndType name desc) k =
     add_const ([CONSTANT_NameAndType] @ htobe16 (of_nat (length (k_pool k) + 1)) @ htobe16 (of_nat (length (k_pool k) + 2)))
       (add_const (utf8 desc) (add_const (utf8 name) k))"
| "spec_op (AddMethodRef c nt) k = add_const ([CONSTANT_Methodref] @ htobe16 c @ htobe16 nt) k"

fun op_ok :: "class_op \<Rightarrow> jclass \<Rightarrow> bool" where
  "op_ok (CopyMethod i name) k \<longleftrightarrow> i < length (k_methods k) \<and> length name < 65533"
| "op_ok (Nativize i) k \<longleftrightarrow> i < length (k_methods k)"
| "op_ok (AddMethod name desc flags s l code) k \<longleftrightarrow> length name < 65533 \<and> length desc < 65533 \<and>
     (case code of None \<Rightarrow> True | Some c \<Rightarrow> length c + 26 < 2 ^ 32)"
| "op_ok (AddField name desc flags) k \<longleftrightarrow> length name < 65533 \<and> length desc < 65533"
| "op_ok (AddNameAndType name desc) k \<longleftrightarrow> length name < 65533 \<and> length desc < 65533"
| "op_ok (AddMethodRef c nt) k \<longleftrightarrow> True"

lemma room_mono: "n \<le> n' \<Longrightarrow> room n' info k \<Longrightarrow> room n info k"
  by (auto simp: room_def)

lemma apply_op_rep:
  assumes "rep m info k" "room (n + 4) info k" "op_ok op k"
  shows "\<exists>m' info'. apply_op op (m, info) = Some (m', info') \<and> extends m m' \<and> rep m' info' (spec_op op k) \<and> room n info' (spec_op op k)"
proof (cases op)
  case (CopyMethod i name)
  then have i: "i < length (k_methods k)" "length name < 65533" using assms(3) by auto
  obtain p where p: "jc_methods info ! i = Some p" "i < length (jc_methods info)" "points m p (k_methods k ! i)"
    using assms(1) i(1) unfolding rep_def holds_def items_are_def by (meson order_less_le_trans)
  have d: "delimited javaGetMethodLength (k_methods k ! i)" using assms(1) i(1) by (simp add: rep_def wf_class_def)
  have r: "room (Suc (Suc n)) info k" using room_mono [OF _ assms(2)] by simp
  let ?m = "m @ [Some (rename (of_nat (length (k_pool k) + 1)) (k_methods k ! i)), Some (utf8 name)]"
  obtain info' where "javaCopyMethod m info p name = Some (?m, info')" "rep ?m info' (copy_method (k_methods k ! i) name k)"
      "room n info' (copy_method (k_methods k ! i) name k)"
    using javaCopyMethod_rep [OF assms(1) r p(3) d i(2)] .
  moreover have "extends m ?m" using extends_trans [OF extends_append extends_append, of m] by simp
  ultimately show ?thesis using CopyMethod entry_nth [OF p(2,1)] by simp
next
  case (Nativize i)
  then have i: "i < length (k_methods k)" using assms(3) by simp
  show ?thesis
    by (rule javaConvertMethodToNative_rep [OF assms(1) room_mono [OF _ assms(2), of n] i]) (use Nativize in auto)
next
  case (AddMethod name desc flags s l code)
  then have o: "length name < 65533" "length desc < 65533" using assms(3) by simp_all
  show ?thesis
    by (rule javaAddMethod_rep [OF assms(1) room_mono [OF _ assms(2), of "Suc (Suc (Suc (Suc n)))"] o,
          of code "case code of None \<Rightarrow> 0 | Some c \<Rightarrow> of_nat (length c)"])
      (use AddMethod assms(3) in auto)
next
  case (AddField name desc flags)
  then have o: "length name < 65533" "length desc < 65533" using assms(3) by simp_all
  show ?thesis
    by (rule javaAddField_rep [OF assms(1) room_mono [OF _ assms(2), of "Suc (Suc (Suc n))"] o]) (use AddField in auto)
next
  case (AddNameAndType name desc)
  then have o: "length name < 65533" "length desc < 65533" using assms(3) by simp_all
  show ?thesis
    by (rule javaAddNameAndTypeTag_rep [OF assms(1) room_mono [OF _ assms(2), of "Suc (Suc (Suc n))"] o]) (use AddNameAndType in auto)
next
  case (AddMethodRef c nt)
  show ?thesis
    by (rule javaAddMethodRefTag_rep [OF assms(1) room_mono [OF _ assms(2), of "Suc n"], of c nt]) (use AddMethodRef in auto)
qed

fun apply_ops :: "class_op list \<Rightarrow> jmem \<times> java_class_t \<Rightarrow> (jmem \<times> java_class_t) option" where
  "apply_ops [] s = Some s"
| "apply_ops (op # ops) s = do { s \<leftarrow> apply_op op s; apply_ops ops s }"

fun ops_ok :: "class_op list \<Rightarrow> jclass \<Rightarrow> bool" where
  "ops_ok [] k \<longleftrightarrow> True"
| "ops_ok (op # ops) k \<longleftrightarrow> op_ok op k \<and> ops_ok ops (spec_op op k)"

lemma apply_ops_rep:
  "\<lbrakk>rep m info k; room (4 * length ops) info k; ops_ok ops k\<rbrakk> \<Longrightarrow>
   \<exists>m' info'. apply_ops ops (m, info) = Some (m', info') \<and> extends m m' \<and> rep m' info' (fold spec_op ops k)"
proof (induction ops arbitrary: m info k)
  case (Cons op ops)
  obtain m1 i1 where 1: "apply_op op (m, info) = Some (m1, i1)" "extends m m1" "rep m1 i1 (spec_op op k)" "room (4 * length ops) i1 (spec_op op k)"
    using apply_op_rep [OF Cons.prems(1), of "4 * length ops" op] Cons.prems(2,3) by (auto simp: add.commute)
  obtain m2 i2 where "apply_ops ops (m1, i1) = Some (m2, i2)" "extends m1 m2" "rep m2 i2 (fold spec_op ops (spec_op op k))"
    using Cons.IH [OF 1(3,4)] Cons.prems(3) by auto
  then show ?case using 1(1) extends_trans [OF 1(2)] by auto
qed simp

text \<open>
  C32. The instrumentation of a well-formed class file: reading it, any sequence of up to 25 changes (copying a
  method under a new name, making a method native, adding methods, fields and constants), and writing
  it into a buffer of the length that the structure keeps fills that buffer exactly with the file
  of the class that the same changes on the class itself give.
\<close>

theorem java_instrument:
  assumes "wf_class k" "block m b = Some (serialize k @ rest)" "ops_ok ops k" "length ops \<le> 25"
    and "length (k_pool k) < 65435" "length (k_fields k) < 65436" "length (k_methods k) < 65436"
    and "length (serialize (fold spec_op ops k)) < 2 ^ 32"
  shows "\<exists>info m' info'. javaReadClass True m b = Some (Some info) \<and> apply_ops ops (m, info) = Some (m', info') \<and>
    javaWriteClass (m' @ [Some (replicate (unat (jc_length info')) 0)]) (length m', 0) info' =
      Some (m' @ [Some (serialize (fold spec_op ops k))]) \<and> wf_class (fold spec_op ops k)"
proof -
  obtain info where i: "javaReadClass True m b = Some (Some info)" "holds m info k" "fresh_class info k"
    using read_serialized [OF assms(1,2)] .
  have "rep m info k" using i(2,3) assms(1) by (simp add: rep_def fresh_class_def)
  moreover have "room (4 * length ops) info k" using i(3) assms(4-7) by (auto simp: room_def fresh_class_def)
  ultimately obtain m' info' where o: "apply_ops ops (m, info) = Some (m', info')" "rep m' info' (fold spec_op ops k)"
    using apply_ops_rep assms(3) by blast
  let ?k = "fold spec_op ops k" and ?m = "m' @ [Some (replicate (unat (jc_length info')) 0)]"
  have h: "holds ?m info' ?k" "wf_class ?k" using o(2) holds_extends [OF extends_append] unfolding rep_def by blast+
  have len: "unat (jc_length info') = length (serialize ?k)" using o(2) assms(8) by (simp add: rep_def unat_of_nat)
  have "javaWriteClass ?m (length m', 0) info' = Some (m' @ [Some (serialize ?k)])"
    unfolding javaWriteClass_def holds_bytes [OF h] bind.bind_lunit by (simp add: store_def patch_def len)
  then show ?thesis using i(1) o(1) h(2) by blast
qed

theorem java_instrument_witness:
  "\<exists>info m' info'. javaReadClass True [Some (serialize tiny_class @ [])] 0 = Some (Some info) \<and>
     apply_ops [CopyMethod 0 [95, 119], Nativize 0] ([Some (serialize tiny_class @ [])], info) = Some (m', info') \<and>
     javaWriteClass (m' @ [Some (replicate (unat (jc_length info')) 0)]) (length m', 0) info' =
       Some (m' @ [Some (serialize (fold spec_op [CopyMethod 0 [95, 119], Nativize 0] tiny_class))]) \<and>
     wf_class (fold spec_op [CopyMethod 0 [95, 119], Nativize 0] tiny_class)"
proof (rule java_instrument [OF tiny_wf])
  let ?k = "fold spec_op [CopyMethod 0 [95, 119], Nativize 0] tiny_class"
  show "length (serialize ?k) < 2 ^ 32"
    by (simp add: serialize_def tiny_class_def magic_def copy_method_def add_method_item_def add_const_def native_method_def rename_def nativize_def)
qed (simp_all add: block_def tiny_class_def copy_method_def add_method_item_def)

section \<open>Finding a method\<close>

definition utf8_at :: "jclass \<Rightarrow> nat \<Rightarrow> bytes \<Rightarrow> bool" where
  "utf8_at k idx s \<longleftrightarrow> 0 < idx \<and> idx \<le> length (k_pool k) \<and> k_pool k ! (idx - 1) = Some (utf8 s) \<and> length s < 65536 \<and> 0 \<notin> set s"

definition method_named :: "jclass \<Rightarrow> bytes \<Rightarrow> bytes \<times> bytes \<Rightarrow> bool" where
  "method_named k x n \<longleftrightarrow> utf8_at k (be_val (take 2 (drop 2 x))) (fst n) \<and> utf8_at k (be_val (take 2 (drop 4 x))) (snd n)"

lemma utf8_string:
  assumes "holds m info k" "utf8_at k idx s"
  shows "javaGetUtf8String m info (int idx) = Some s" "c_str s = s"
proof -
  have i: "idx - 1 < length (k_pool k)" "int idx - 1 = int (idx - 1)" using assms(2) by (auto simp: utf8_at_def)
  obtain p r where p: "jc_constant_pool info ! (idx - 1) = Some p" "idx - 1 < length (jc_constant_pool info)" "deref m p = Some (utf8 s @ r)"
    using assms i(1) unfolding holds_def pool_are_def points_def utf8_at_def by (meson order_less_le_trans)
  have u: "unat (of_nat (length s) :: u16) = length s" using assms(2) by (intro unat_of_nat16) (simp add: utf8_at_def)
  have "at (utf8 s @ r) 1 (htobe16 (of_nat (length s)) @ s @ r)" by (simp add: at_def utf8_def)
  note l = at_be16 [OF this]
  have "at (utf8 s @ r) 3 (s @ r)" using at_step2 [OF \<open>at (utf8 s @ r) 1 _\<close>] by (simp add: numeral_3_eq_3)
  note t = at_rd [OF this]
  show "javaGetUtf8String m info (int idx) = Some s"
    unfolding javaGetUtf8String_def i(2) entry_nth [OF p(2,1)] bind.bind_lunit p(3) l u t ..
  show "c_str s = s" using assms(2) by (auto simp: c_str_def utf8_at_def)
qed

lemma be16_head: "off + 2 \<le> length x \<Longrightarrow> be16toh (x @ r) off = Some (of_nat (be_val (take 2 (drop off x))))"
  by (simp add: be16toh_def rd_def)

lemma unat_index:
  assumes "length w = 2"
  shows "uint (of_nat (be_val w) :: u16) = int (be_val w)"
proof -
  obtain x y where w: "w = [x, y]" using assms by (auto simp: numeral_2_eq_2 length_Suc_conv)
  have "be_val w < 65536" using unat8 [of x] unat8 [of y] by (simp add: be_val_def w)
  then show ?thesis by (simp only: uint_nat unat_of_nat16)
qed

lemma find_method_named:
  assumes "holds m info k" "wf_class k" "length names = length (k_methods k)"
    and "\<forall>j<length names. method_named k (k_methods k ! j) (names ! j)"
  shows "i \<le> length names \<Longrightarrow> find_method m info n s i =
    Some (case find (\<lambda>j. names ! j = (n, s)) [i..<length names] of None \<Rightarrow> -1 | Some j \<Rightarrow> int j)"
proof (induction "length names - i" arbitrary: i)
  case 0
  then show ?case using assms(1,3) by (subst find_method.simps) (simp add: holds_def)
next
  case (Suc d)
  then have i: "i < length names" by simp
  let ?x = "k_methods k ! i"
  have "delimited javaGetMethodLength ?x" using assms(2,3) i by (simp add: wf_class_def)
  note l8 = delimited_method_length [OF this]
  obtain p r where p: "jc_methods info ! i = Some p" "i < length (jc_methods info)" "deref m p = Some (?x @ r)"
    using assms(1,3) i unfolding holds_def items_are_def points_def by (metis order_less_le_trans)
  have nm: "utf8_at k (be_val (take 2 (drop 2 ?x))) (fst (names ! i))" "utf8_at k (be_val (take 2 (drop 4 ?x))) (snd (names ! i))"
    using assms(4) i by (auto simp: method_named_def)
  note strings = utf8_string [OF assms(1) nm(1)] utf8_string [OF assms(1) nm(2)]
  have u: "uint (of_nat (be_val (take 2 (drop 2 ?x))) :: u16) = int (be_val (take 2 (drop 2 ?x)))"
    "uint (of_nat (be_val (take 2 (drop 4 ?x))) :: u16) = int (be_val (take 2 (drop 4 ?x)))"
    using l8 by (intro unat_index; simp)+
  have step: "find_method m info n s i = (if names ! i = (n, s) then Some (int i) else find_method m info n s (Suc i))"
    using i p l8 be16_head [of 2 ?x r] be16_head [of 4 ?x r] strings u assms(1,3)
    by (subst find_method.simps) (auto simp: entry_nth holds_def prod_eq_iff)
  have up: "[i..<length names] = i # [Suc i..<length names]" using i by (simp add: upt_conv_Cons)
  show ?case using Suc.hyps(1) [of "Suc i"] Suc.hyps(2) i unfolding step up by auto
qed

text \<open>
  \<open>javaFindMethodIndex\<close> gives the first method of a class with the name and the signature, and
  -1 when there is none.
\<close>

theorem java_find_method:
  assumes "holds m info k" "wf_class k" "length names = length (k_methods k)"
    and "\<forall>j<length names. method_named k (k_methods k ! j) (names ! j)"
  shows "javaFindMethodIndex m info n s =
    Some (case find (\<lambda>j. names ! j = (n, s)) [0..<length names] of None \<Rightarrow> -1 | Some j \<Rightarrow> int j)"
  unfolding javaFindMethodIndex_def using find_method_named [OF assms, of 0] by simp

theorem java_find_method_witness:
  "\<exists>info. javaReadClass True [Some (serialize tiny_class)] 0 = Some (Some info) \<and>
     javaFindMethodIndex [Some (serialize tiny_class)] info [119] [86] = Some 0 \<and>
     javaFindMethodIndex [Some (serialize tiny_class)] info [119] [73] = Some (-1)"
proof -
  have b: "block [Some (serialize tiny_class)] 0 = Some (serialize tiny_class @ [])" by (simp add: block_def)
  obtain info where i: "javaReadClass True [Some (serialize tiny_class)] 0 = Some (Some info)" "holds [Some (serialize tiny_class)] info tiny_class"
    using read_serialized [OF tiny_wf b] by blast
  have l: "length [([119], [86])] = length (k_methods tiny_class)" by (simp add: tiny_class_def)
  have n: "\<forall>j<length [([119], [86])]. method_named tiny_class (k_methods tiny_class ! j) ([([119], [86])] ! j)"
    by (simp add: method_named_def utf8_at_def tiny_class_def be_val_def)
  show ?thesis
    using i(1) java_find_method [OF i(2) tiny_wf l n, of "[119]" "[86]"] java_find_method [OF i(2) tiny_wf l n, of "[119]" "[73]"] by simp
qed

section \<open>Defects\<close>

text \<open>
  C34. \<open>javaAddStringTag\<close> does not count the three bytes of the string constant: the file it leads to is three
  bytes longer than the length that the structure keeps, so that writing it into a buffer of
  that length runs past the end.
\<close>

theorem java_string_tag_overflow:
  assumes "rep m info k" "room 2 info k" "length s < 65533" "length (serialize k) + length s + 6 < 2 ^ 32"
  shows "\<exists>idx m' info' out. javaAddStringTag m info s = Some (idx, m', info') \<and> class_bytes m' info' = Some out \<and>
    length out = unat (jc_length info') + 3 \<and>
    javaWriteClass (m' @ [Some (replicate (unat (jc_length info')) 0)]) (length m', 0) info' = None"
proof -
  let ?k1 = "add_const (utf8 s) k" and ?m1 = "m @ [Some (utf8 s)]"
  have r: "room (Suc (Suc 0)) info k" using assms(2) by (simp add: numeral_2_eq_2)
  obtain i1 where 1: "addUtf8Tag m info s = Some (of_nat (length (k_pool k) + 1), ?m1, i1)" "rep ?m1 i1 ?k1" "room (Suc 0) i1 ?k1"
    using addUtf8Tag_rep [OF assms(1) r assms(3)] .
  let ?e = "[CONSTANT_String] @ htobe16 (of_nat (length (k_pool k) + 1))"
  let ?k2 = "add_const ?e ?k1" and ?m2 = "?m1 @ [Some ?e]"
  have e: "entry_ok ?e" "\<not> wide ?e"
    unfolding append_Cons append_Nil
    by (rule fixed_ok [where l = 3]) (simp_all add: CONSTANT_String_def CONSTANT_Utf8_def cp_tag_size_def aget_def wide_def is_wide_def
        CONSTANT_Double_def CONSTANT_Long_def)
  have h: "holds ?m2 i1 ?k1" "wf_class ?k1" using 1(2) holds_extends [OF extends_append] unfolding rep_def by blast+
  obtain i2 where 2: "addTag i1 (length ?m1, 0) = Some (of_nat (length (k_pool ?k1) + 1), i2)" "holds ?m2 i2 ?k2" "wf_class ?k2"
      "jc_length i2 = jc_length i1"
    using addTag_holds [OF h points_new e 1(3)] .
  have a: "javaAddStringTag m info s = Some (of_nat (length (k_pool ?k1) + 1), ?m2, i2)"
    unfolding javaAddStringTag_def 1(1) bind.bind_lunit prod.case malloc_with_def Let_def using 2(1) by simp
  have l1: "length (serialize ?k1) = length (serialize k) + length s + 3" "length (serialize ?k2) = length (serialize ?k1) + 3"
    by (simp_all add: length_add_const)
  have "jc_length i2 = of_nat (length (serialize ?k1))" using 1(2) 2(4) unfolding rep_def by metis
  moreover have "length (serialize ?k1) < 2 ^ 32" using l1(1) assms(4) by simp
  ultimately have "unat (jc_length i2) = length (serialize ?k1)" by (simp only: unat_of_nat) simp
  then have len: "length (serialize ?k2) = unat (jc_length i2) + 3" using l1(2) by simp
  let ?m3 = "?m2 @ [Some (replicate (unat (jc_length i2)) 0)]"
  have "class_bytes ?m3 i2 = Some (serialize ?k2)"
    using holds_bytes [OF holds_extends [OF extends_append 2(2)] 2(3)] .
  moreover have "block ?m3 (length ?m2) = Some (replicate (unat (jc_length i2)) 0)" by (rule block_new)
  ultimately have "javaWriteClass ?m3 (length ?m2, 0) i2 = None"
    unfolding javaWriteClass_def store_def fst_conv snd_conv using len by (simp add: patch_def)
  then show ?thesis using a holds_bytes [OF 2(2,3)] len by blast
qed

theorem java_string_tag_overflow_witness:
  "\<exists>info idx m' info'. javaReadClass True [Some (serialize tiny_class)] 0 = Some (Some info) \<and>
     javaAddStringTag [Some (serialize tiny_class)] info [104, 105] = Some (idx, m', info') \<and>
     javaWriteClass (m' @ [Some (replicate (unat (jc_length info')) 0)]) (length m', 0) info' = None"
proof -
  have b: "block [Some (serialize tiny_class)] 0 = Some (serialize tiny_class @ [])" by (simp add: block_def)
  obtain info where i: "javaReadClass True [Some (serialize tiny_class)] 0 = Some (Some info)" "holds [Some (serialize tiny_class)] info tiny_class"
      "fresh_class info tiny_class"
    using read_serialized [OF tiny_wf b] by blast
  have "rep [Some (serialize tiny_class)] info tiny_class" using i tiny_wf by (simp add: rep_def fresh_class_def)
  moreover have "room 2 info tiny_class" using i(3) by (simp add: room_def fresh_class_def tiny_class_def)
  ultimately show ?thesis using java_string_tag_overflow [of _ info tiny_class "[104, 105]"] tiny_length i(1) by fastforce
qed

text \<open>
  A string constant of 65533 bytes or more: the length of its entry does not fit in 16 bits, and the
  reader continues inside the string.
\<close>

lemma java_tag_length_wraps:
  assumes "65533 \<le> length s" "length s < 65536"
  shows "javaGetTagLength (utf8 s) = Some (of_nat (length s - 65533))"
proof -
  have "at (utf8 s) 1 (htobe16 (of_nat (length s)) @ s)" by (simp add: at_def utf8_def)
  from at_be16 [OF this] have "javaGetTagLength (utf8 s) = Some (of_nat (length s) + 3)"
    by (simp add: javaGetTagLength_def utf8_def aget_def)
  moreover have "of_nat (length s) + 3 = (of_nat (length s - 65533) :: u16)"
  proof -
    have "of_nat (length s) = (of_nat (length s - 65533) + 65533 :: u16)"
      using assms(1) by (metis le_add_diff_inverse2 of_nat_add of_nat_numeral)
    then show ?thesis by simp
  qed
  ultimately show ?thesis by simp
qed

lemma copy_frame:
  assumes "javaCopyMethod m info p name = Some (m', info')"
  shows "jc_orig_constant_pool_count info' = jc_orig_constant_pool_count info" "jc_orig_methods_count info' = jc_orig_methods_count info"
    "jc_constant_pool_count info' = jc_constant_pool_count info + 1" "jc_methods_count info' = jc_methods_count info + 1"
    "jc_constant_pool info' = (jc_constant_pool info)[nat (uint (jc_constant_pool_count info - 1)) := Some (Suc (length m), 0)]"
    "jc_methods info' = (jc_methods info)[nat (uint (jc_methods_count info + 1) - 1) := Some (length m, 0)]"
  using assms
  by (auto simp: javaCopyMethod_def addUtf8Tag_def addTag_def push_method_def malloc_with_def add_length_def bind_eq_Some_conv Let_def
      aset_def split: if_splits)

lemma native_frame:
  assumes "javaConvertMethodToNative m info (int i) = Some (p, m', info')"
  shows "jc_orig_constant_pool_count info' = jc_orig_constant_pool_count info" "jc_orig_methods_count info' = jc_orig_methods_count info"
    "jc_constant_pool_count info' = jc_constant_pool_count info" "jc_methods_count info' = jc_methods_count info"
    "jc_constant_pool info' = jc_constant_pool info" "jc_methods info' = (jc_methods info)[i := Some (length m, 0)]"
  using assms
  by (auto simp: javaConvertMethodToNative_def malloc_with_def add_length_def bind_eq_Some_conv Let_def aset_def split: if_splits)

text \<open>
  After the agent's change of a method (a copy under a new name, then the original made native) \<open>javaDestroy\<close>
  frees the copy and the new constant, but not the native method that replaced the
  original one: it only frees methods beyond the original number.
\<close>

theorem java_destroy_leaks:
  assumes "wf_class k" "block m b = Some (serialize k @ rest)" "i < length (k_methods k)" "length name < 65533"
    and "length (k_pool k) < 65435" "length (k_fields k) < 65436" "length (k_methods k) < 65436"
  shows "\<exists>info m' info' m''. javaReadClass True m b = Some (Some info) \<and>
    apply_ops [CopyMethod i name, Nativize i] (m, info) = Some (m', info') \<and> javaDestroy m' info' = Some m'' \<and>
    length m' = length m + 3 \<and> m'' = m @ [None, None, Some (nativize (k_methods k ! i))]"
proof -
  obtain info where r: "javaReadClass True m b = Some (Some info)" "holds m info k" "fresh_class info k"
    using read_serialized [OF assms(1,2)] .
  let ?P = "length (k_pool k)" and ?M = "length (k_methods k)" and ?x = "k_methods k ! i"
  have rp: "rep m info k" using r(2,3) assms(1) by (simp add: rep_def fresh_class_def)
  have room: "room 8 info k" using r(3) assms(5-7) by (auto simp: room_def fresh_class_def)
  obtain p where p: "jc_methods info ! i = Some p" "i < length (jc_methods info)" "points m p ?x"
    using r(2) assms(3) unfolding holds_def items_are_def by (meson order_less_le_trans)
  have d: "delimited javaGetMethodLength ?x" using assms(1,3) by (simp add: wf_class_def)
  let ?y = "rename (of_nat (?P + 1)) ?x"
  let ?m1 = "m @ [Some ?y, Some (utf8 name)]" and ?k1 = "copy_method ?x name k"
  have r2: "room (Suc (Suc 6)) info k" using room_mono [OF _ room] by simp
  obtain i1 where 1: "javaCopyMethod m info p name = Some (?m1, i1)" "rep ?m1 i1 ?k1" "room 6 i1 ?k1"
    using javaCopyMethod_rep [OF rp r2 p(3) d assms(4)] .
  have ki: "k_methods ?k1 ! i = ?x" "i < length (k_methods ?k1)"
    using assms(3) by (simp_all add: copy_method_def add_method_item_def add_const_def nth_append)
  obtain i2 where 2: "javaConvertMethodToNative ?m1 i1 (int i) = Some ((length ?m1, 0), ?m1 @ [Some (nativize ?x)], i2)"
    using javaConvertMethodToNative_rep [OF 1(2,3) ki(2)] ki(1) by metis
  have cP: "unat (jc_constant_pool_count info) = ?P + 1" "unat (jc_methods_count info) = ?M"
    using r(2) by (simp_all add: holds_def)
  have o: "unat (jc_orig_constant_pool_count i2) = ?P + 1" "unat (jc_orig_methods_count i2) = ?M"
    using copy_frame(1,2) [OF 1(1)] native_frame(1,2) [OF 2] r(3) cP by (simp_all add: fresh_class_def)
  have c2: "unat (jc_constant_pool_count i2) = ?P + 2" "unat (jc_methods_count i2) = ?M + 1"
    using copy_frame(3,4) [OF 1(1)] native_frame(3,4) [OF 2] unat_Suc16 [OF cP(1)] unat_Suc16 [OF cP(2)] assms(5,7) by simp_all
  have "nat (uint (jc_constant_pool_count info - 1)) = ?P"
    using unat_count [OF cP(1)] unat_of_nat16 [of ?P] assms(5) by (simp only: uint_nat) simp
  moreover have "nat (uint (jc_methods_count info + 1) - 1) = ?M"
    using unat_Suc16 [OF cP(2)] assms(7) by (simp only: uint_nat)
  ultimately have arr: "jc_constant_pool i2 ! ?P = Some (Suc (length m), 0)" "?P < length (jc_constant_pool i2)"
      "jc_methods i2 ! ?M = Some (length m, 0)" "?M < length (jc_methods i2)"
    using copy_frame(5,6) [OF 1(1)] native_frame(5,6) [OF 2] r(3) assms(3) by (simp_all add: fresh_class_def)
  let ?m2 = "m @ [Some ?y, Some (utf8 name), Some (nativize ?x)]"
  have "javaDestroy ?m2 i2 = Some (m @ [None, None, Some (nativize ?x)])"
    unfolding javaDestroy_def o c2 using arr by (simp add: aget_nat jfree_def block_def nth_append list_update_append)
  moreover have "apply_ops [CopyMethod i name, Nativize i] (m, info) = Some (?m2, i2)"
    using entry_nth [OF p(2,1)] 1(1) 2 by simp
  ultimately show ?thesis using r(1) by auto
qed

theorem java_destroy_leaks_witness:
  "\<exists>info m' info'. javaReadClass True [Some (serialize tiny_class @ [])] 0 = Some (Some info) \<and>
     apply_ops [CopyMethod 0 [95, 119], Nativize 0] ([Some (serialize tiny_class @ [])], info) = Some (m', info') \<and>
     javaDestroy m' info' = Some [Some (serialize tiny_class @ []), None, None, Some (nativize [0, 1, 0, 1, 0, 2, 0, 0])]"
proof -
  have "block [Some (serialize tiny_class @ [])] 0 = Some (serialize tiny_class @ [])" by (simp add: block_def)
  from java_destroy_leaks [OF tiny_wf this, of 0 "[95, 119]"] show ?thesis by (auto simp: tiny_class_def)
qed

text \<open>
  The unusable entry after a long or double constant is a null pointer, which \<open>javaFindClassIndex\<close>
  follows.
\<close>

lemma java_find_class_null:
  assumes "aget (jc_constant_pool info) 1 = Some None" "2 < unat (jc_constant_pool_count info)"
    and "entry (jc_constant_pool info) 0 = Some p" "deref m p = Some (t # bs)" "is_wide t"
  shows "javaFindClassIndex m info className = None"
proof -
  have "t \<noteq> CONSTANT_Class" using assms(5) by (auto simp: is_wide_def CONSTANT_Class_def CONSTANT_Double_def CONSTANT_Long_def)
  then have "find_class m info className 1 = find_class m info className 2"
    using assms(2-4) by (subst find_class.simps) (simp add: aget_def numeral_2_eq_2)
  also have "find_class m info className 2 = None"
    using assms(1,2) by (subst find_class.simps) (simp add: entry_def)
  finally show ?thesis by (simp add: javaFindClassIndex_def)
qed

end
