(* ===== verification/Cdouble.thy ===== *)
theory Cdouble
  imports Cstring "HOL-Library.Log_Nat"
begin

text \<open>
  The \<open>double\<close> values that the JSON code keeps in a number item, and the library functions it uses
  on them: reading (\<open>strtod\<close>) and printing with \<^verbatim>\<open>%1.15g\<close>, \<^verbatim>\<open>%1.17g\<close> and \<^verbatim>\<open>%.2f\<close>. A finite value is a
  sign and a magnitude, so that there are two zeros; rounding is to the nearest value of 53
  significant bits, ties to even, with gradual underflow at \<open>2 ^ -1074\<close> and overflow to infinity.
  The lemmas show that integers of up to 15 digits are printed exactly and read back.
\<close>

datatype dbl = Fin (neg: bool) (mag: rat) | Inf (neg: bool) | NaN

section \<open>Rounding\<close>

definition round_even :: "rat \<Rightarrow> int" where
  "round_even x = (let f = \<lfloor>x\<rfloor>; r = x - of_int f in
     if r < 1 / 2 then f else if r > 1 / 2 then f + 1 else if even f then f else f + 1)"

text \<open>The exponent of the leading digit of a positive number in base \<open>b\<close>.\<close>

definition flog :: "nat \<Rightarrow> rat \<Rightarrow> int" where
  "flog b q = (let (n, d) = quotient_of q;
                   k = int (floorlog b (nat n)) - int (floorlog b (nat d))
               in if of_nat b powi k \<le> q then k else k - 1)"

definition dbl_round :: "bool \<Rightarrow> rat \<Rightarrow> dbl" where
  "dbl_round s q =
     (if q = 0 then Fin s 0
      else let e = max (- 1074) (flog 2 q - 52);
               v = of_int (round_even (q / 2 powi e)) * 2 powi e
           in if 2 ^ 1024 \<le> v then Inf s else Fin s v)"

text \<open>Conversion of an integer to \<open>double\<close>.\<close>

definition dbl_of_int :: "int \<Rightarrow> dbl" where
  "dbl_of_int i = dbl_round (i < 0) (of_int \<bar>i\<bar>)"

text \<open>The comparison \<open>==\<close>: the zeros are equal and NaN differs from everything.\<close>

fun dbl_eq :: "dbl \<Rightarrow> dbl \<Rightarrow> bool" where
  "dbl_eq (Fin s q) (Fin t r) = (q = r \<and> (s = t \<or> q = 0))"
| "dbl_eq (Inf s) (Inf t) = (s = t)"
| "dbl_eq _ _ = False"

definition dbl_val :: "bool \<Rightarrow> rat \<Rightarrow> rat" where
  "dbl_val s q = (if s then - q else q)"

section \<open>\<open>strtod\<close>\<close>

text \<open>
  The decimal forms: a sign, digits with a point, and an exponent if at least one digit follows its
  letter. The result is the value and the number of characters read, 0 when there is no digit.
\<close>

definition sign_of :: "string \<Rightarrow> bool \<times> nat" where
  "sign_of s = (case s of [] \<Rightarrow> (False, 0)
     | c # _ \<Rightarrow> if c = CHR ''-'' then (True, 1) else if c = CHR ''+'' then (False, 1) else (False, 0))"

definition exponent_of :: "string \<Rightarrow> int \<times> nat" where
  "exponent_of s = (case s of [] \<Rightarrow> (0, 0)
     | c # r \<Rightarrow>
       if c = CHR ''e'' \<or> c = CHR ''E'' then
         let (neg, k) = sign_of r; ds = takeWhile is_digit (drop k r) in
         if ds = [] then (0, 0)
         else ((if neg then - int (digits_val ds) else int (digits_val ds)), 1 + k + length ds)
       else (0, 0))"

definition strtod :: "string \<Rightarrow> dbl \<times> nat" where
  "strtod s =
     (let (neg, k) = sign_of s;
          r = drop k s;
          ip = takeWhile is_digit r;
          r = drop (length ip) r;
          point = (r \<noteq> [] \<and> hd r = CHR ''.'');
          fp = (if point then takeWhile is_digit (tl r) else []);
          r = (if point then drop (Suc (length fp)) r else r)
      in if ip = [] \<and> fp = [] then (Fin False 0, 0)
         else let (e, m) = exponent_of r in
           (dbl_round neg (of_nat (digits_val (ip @ fp)) * 10 powi (e - int (length fp))),
            k + length ip + (if point then Suc (length fp) else 0) + m))"

section \<open>Printing\<close>

text \<open>The decimal digits of a positive number, rounded to \<open>p\<close> digits, and its exponent.\<close>

definition dec_digits :: "nat \<Rightarrow> rat \<Rightarrow> nat \<times> int" where
  "dec_digits p q =
     (let x = flog 10 q;
          d = nat (round_even (q / 10 powi (x - int p + 1)))
      in if d = 10 ^ p then (10 ^ (p - 1), x + 1) else (d, x))"

definition strip_zeros :: "string \<Rightarrow> string" where
  "strip_zeros s = rev (dropWhile (\<lambda>c. c = CHR ''0'') (rev s))"

definition with_point :: "string \<Rightarrow> string" where
  "with_point f = (if f = [] then [] else CHR ''.'' # f)"

definition show_exp :: "int \<Rightarrow> string" where
  "show_exp x = CHR ''e'' # (if x < 0 then CHR ''-'' else CHR ''+'')
     # (if \<bar>x\<bar> < 10 then CHR ''0'' # show_nat (nat \<bar>x\<bar>) else show_nat (nat \<bar>x\<bar>))"

text \<open>\<^verbatim>\<open>%.<p>g\<close>; infinities and NaN are printed by name.\<close>

definition fmt_mag :: "nat \<Rightarrow> rat \<Rightarrow> string" where
  "fmt_mag p q =
     (if q = 0 then ''0''
      else let (d, x) = dec_digits p q; ds = show_nat d in
        if - 4 \<le> x \<and> x < int p then
          if 0 \<le> x then take (nat x + 1) ds @ with_point (strip_zeros (drop (nat x + 1) ds))
          else ''0'' @ with_point (strip_zeros (replicate (nat (- x - 1)) (CHR ''0'') @ ds))
        else take 1 ds @ with_point (strip_zeros (drop 1 ds)) @ show_exp x)"

definition fmt_sign :: "bool \<Rightarrow> string" where
  "fmt_sign s = (if s then ''-'' else [])"

fun fmt_g :: "nat \<Rightarrow> dbl \<Rightarrow> string" where
  "fmt_g p (Fin s q) = fmt_sign s @ fmt_mag p q"
| "fmt_g p (Inf s) = fmt_sign s @ ''inf''"
| "fmt_g p NaN = ''nan''"

section \<open>Facts about rounding\<close>

lemma round_even_int [simp]: "round_even (of_int i) = i"
  by (simp add: round_even_def)

lemma round_even_nat [simp]: "round_even (of_nat n) = int n"
  using round_even_int [of "int n"] by simp

lemma round_even_ge: "of_int i \<le> x \<Longrightarrow> i \<le> round_even x"
  by (auto simp: round_even_def Let_def le_floor_iff intro: le_floor_iff [THEN iffD2])
    (meson le_floor_iff order_trans zle_add1_eq_le less_add_one less_imp_le)+

lemma round_even_le: "x \<le> of_int i \<Longrightarrow> round_even x \<le> i"
proof -
  assume x: "x \<le> of_int i"
  consider "\<lfloor>x\<rfloor> < i" | "x = of_int i"
    using x by (metis floor_less_iff leI le_less not_le)
  then show ?thesis
    by cases (auto simp: round_even_def Let_def)
qed

lemma floorlog_rat:
  assumes "1 < b" "0 < n"
  shows "of_nat b ^ (floorlog b n - 1) \<le> (of_nat n :: rat)" "(of_nat n :: rat) < of_nat b ^ floorlog b n"
    "0 < floorlog b n"
  using floorlog_bounds [OF assms(2) assms(1)] assms
  by (metis of_nat_le_iff of_nat_power, metis of_nat_less_iff of_nat_power, simp add: floorlog_def)

lemma flog_bounds:
  assumes b: "1 < b" and q: "0 < q"
  shows "of_nat b powi flog b q \<le> q" "q < of_nat b powi (flog b q + 1)"
proof -
  obtain n d where nd: "quotient_of q = (n, d)" by fastforce
  have d: "0 < d" and q': "q = of_int n / of_int d"
    using nd quotient_of_denom_pos quotient_of_div by auto
  have n: "0 < n" using q q' d by (simp add: zero_less_divide_iff)
  define N where "N = floorlog b (nat n)"
  define D where "D = floorlog b (nat d)"
  have Nn: "of_nat b ^ (N - 1) \<le> (of_int n :: rat)" "(of_int n :: rat) < of_nat b ^ N" "0 < N"
    using floorlog_rat [OF b, of "nat n"] n by (simp_all add: N_def)
  have Dd: "of_nat b ^ (D - 1) \<le> (of_int d :: rat)" "(of_int d :: rat) < of_nat b ^ D" "0 < D"
    using floorlog_rat [OF b, of "nat d"] d by (simp_all add: D_def)
  have b0: "(of_nat b :: rat) \<noteq> 0" "0 < (of_nat b :: rat)" using b by simp_all
  have pN: "(of_nat b :: rat) ^ (N - 1) = of_nat b powi (int N - 1)"
    using Nn(3) by (simp add: power_int_def nat_diff_distrib)
  have pD: "(of_nat b :: rat) ^ (D - 1) = of_nat b powi (int D - 1)"
    using Dd(3) by (simp add: power_int_def nat_diff_distrib)
  define k where "k = int N - int D"
  have lower: "of_nat b powi (k - 1) \<le> q"
  proof -
    have "of_nat b powi (k - 1) * of_int d \<le> of_nat b powi (k - 1) * (of_nat b powi int D :: rat)"
      using Dd(2) b0 by (intro mult_left_mono) (simp_all add: less_imp_le)
    also have "\<dots> = of_nat b powi (int N - 1)"
      using b0 power_int_add [of "of_nat b :: rat" "k - 1" "int D"] by (simp add: k_def)
    also have "\<dots> \<le> of_int n" using Nn(1) pN by simp
    finally show ?thesis using d q' by (simp add: pos_le_divide_eq)
  qed
  have upper: "q < of_nat b powi (k + 1)"
  proof -
    have "of_int n < (of_nat b powi int N :: rat)" using Nn(2) by simp
    also have "\<dots> = of_nat b powi (k + 1) * of_nat b powi (int D - 1)"
      using b0 power_int_add [of "of_nat b :: rat" "k + 1" "int D - 1"] by (simp add: k_def)
    also have "\<dots> \<le> of_nat b powi (k + 1) * of_int d"
      using Dd(1) pD b0 by (intro mult_left_mono) simp_all
    finally show ?thesis using d q' by (simp add: pos_divide_less_eq)
  qed
  show "of_nat b powi flog b q \<le> q" "q < of_nat b powi (flog b q + 1)"
    using lower upper nd by (auto simp: flog_def k_def N_def D_def Let_def not_le)
qed

lemma powi_less_cancel: "1 < (b :: rat) \<Longrightarrow> b powi i < b powi j \<Longrightarrow> i < j"
  by (metis leD leI less_imp_le power_int_increasing)

lemma flog_unique:
  assumes b: "1 < b" and q: "of_nat b powi k \<le> (q :: rat)" "q < of_nat b powi (k + 1)"
  shows "flog b q = k"
proof -
  have b1: "1 < (of_nat b :: rat)" using b by simp
  have q0: "0 < q" using q(1) b1 by (smt (verit) less_le_trans order_less_trans zero_less_one zero_less_power_int)
  note f = flog_bounds [OF b q0]
  have "(of_nat b :: rat) powi flog b q < of_nat b powi (k + 1)" using f(1) q(2) by simp
  then have "flog b q < k + 1" using b1 powi_less_cancel by blast
  moreover have "(of_nat b :: rat) powi k < of_nat b powi (flog b q + 1)" using f(2) q(1) by simp
  then have "k < flog b q + 1" using b1 powi_less_cancel by blast
  ultimately show ?thesis by simp
qed

text \<open>Integers below \<open>2 ^ 53\<close> are exact.\<close>

lemma dbl_round_exact:
  assumes "n < 2 ^ 53"
  shows "dbl_round s (of_nat n) = Fin s (of_nat n)"
proof (cases "n = 0")
  case False
  then have q0: "0 < (of_nat n :: rat)" by simp
  define e where "e = max (- 1074) (flog 2 (of_nat n) - 52)"
  have "(2 :: rat) powi flog 2 (of_nat n) < 2 powi 53"
    using flog_bounds(1) [of 2, OF _ q0] assms
    by (metis (no_types, lifting) le_less_trans numeral_One of_nat_1 of_nat_less_numeral_power_cancel_iff of_nat_numeral one_less_numeral_iff power_int_numeral semiring_norm(76))
  then have "flog 2 (of_nat n) < 53" by (rule powi_less_cancel [rotated]) simp
  then have e0: "e \<le> 0" by (simp add: e_def)
  define j where "j = nat (- e)"
  have "e = - int j" using e0 by (simp add: j_def)
  then have j: "(2 :: rat) powi e = 1 / 2 ^ j" by (simp only: power_int_minus_divide power_int_of_nat)
  have "(of_nat n :: rat) / 2 powi e = of_nat (n * 2 ^ j)" by (simp add: j)
  then have v: "of_int (round_even (of_nat n / 2 powi e)) * 2 powi e = (of_nat n :: rat)"
    using j by (metis (no_types, lifting) divide_eq_eq nonzero_mult_div_cancel_right of_int_of_nat_eq power_int_eq_0_iff round_even_nat times_divide_eq_left zero_neq_numeral)
  have "(of_nat n :: rat) < of_nat (2 ^ 1024)"
    using assms by (intro of_nat_less_iff [THEN iffD2]) (rule less_le_trans, assumption, rule power_increasing, simp_all)
  then show ?thesis
    using False v by (simp add: dbl_round_def Let_def flip: e_def)
qed (simp add: dbl_round_def)

lemma dbl_of_int_exact: "\<bar>i\<bar> < 2 ^ 53 \<Longrightarrow> dbl_of_int i = Fin (i < 0) (of_int \<bar>i\<bar>)"
  using dbl_round_exact [of "nat \<bar>i\<bar>" "i < 0"] by (simp add: dbl_of_int_def)

section \<open>Facts about printing\<close>

lemma length_show_nat_eq: "10 ^ k \<le> n \<Longrightarrow> n < 10 ^ Suc k \<Longrightarrow> length (show_nat n) = Suc k"
proof (induction k arbitrary: n)
  case 0
  then show ?case by (subst show_nat.simps) simp
next
  case (Suc k)
  from Suc.prems have "10 ^ k \<le> n div 10" "n div 10 < 10 ^ Suc k" "\<not> n < 10"
    by (simp_all add: less_mult_imp_div_less less_eq_div_iff_mult_less_eq not_less order_trans [rotated])
  with Suc.IH [of "n div 10"] show ?case by (subst show_nat.simps) simp
qed

lemma digit_char_0 [simp]: "digit_char 0 = CHR ''0''"
  by code_simp

lemma show_nat_shift: "0 < n \<Longrightarrow> show_nat (n * 10 ^ j) = show_nat n @ replicate j (CHR ''0'')"
proof (induction j)
  case (Suc j)
  have "show_nat (n * 10 ^ Suc j) = show_nat (n * 10 ^ j) @ [CHR ''0'']"
    using Suc.prems by (subst show_nat.simps) (simp add: mult.left_commute)
  with Suc show ?case by (simp add: replicate_append_same)
qed simp

lemma strip_zeros_replicate [simp]: "strip_zeros (replicate j (CHR ''0'')) = []"
  by (simp add: strip_zeros_def)

lemma strip_zeros_set: "set (strip_zeros s) \<subseteq> set s"
  by (auto simp: strip_zeros_def dest: set_dropWhileD)

lemma length_strip_zeros: "length (strip_zeros s) \<le> length s"
  by (simp add: strip_zeros_def length_dropWhile_le [of _ "rev s", simplified])

lemma dec_digits_bounds:
  assumes p: "0 < p" and q: "0 < q" and dx: "dec_digits p q = (d, x)"
  shows "10 ^ (p - 1) \<le> d" "d < 10 ^ p" "x = flog 10 q \<or> x = flog 10 q + 1"
proof -
  define y where "y = flog 10 q"
  note f = flog_bounds [of 10, OF _ q, simplified, folded y_def]
  define c :: rat where "c = 10 powi (y - int p + 1)"
  have c: "0 < c" by (simp add: c_def)
  have e: "int (p - 1) + (y - int p + 1) = y" "int p + (y - int p + 1) = y + 1" using p by simp_all
  have "10 powi int (p - 1) * c = 10 powi y" "10 powi int p * c = 10 powi (y + 1)"
    unfolding c_def by (simp_all only: e flip: power_int_add [OF disjI1, OF zero_neq_numeral [symmetric]])
  then have s: "10 powi y = 10 ^ (p - 1) * c" "10 powi (y + 1) = 10 ^ p * c"
    by (simp_all only: power_int_of_nat)
  have "of_int (10 ^ (p - 1)) \<le> q / c" "q / c \<le> of_int (10 ^ p)"
    using f s c by (simp_all add: pos_le_divide_eq pos_divide_le_eq)
  then have r: "10 ^ (p - 1) \<le> round_even (q / c)" "round_even (q / c) \<le> 10 ^ p"
    by (simp_all add: round_even_ge round_even_le)
  then have "10 ^ (p - 1) \<le> nat (round_even (q / c))" "nat (round_even (q / c)) \<le> 10 ^ p"
    by (metis nat_mono nat_numeral nat_power_eq zero_le_numeral)+
  moreover have "(10 :: nat) ^ (p - 1) < 10 ^ p" using p by simp
  ultimately show "10 ^ (p - 1) \<le> d" "d < 10 ^ p" "x = flog 10 q \<or> x = flog 10 q + 1"
    using dx by (auto simp: dec_digits_def Let_def y_def [symmetric] c_def [symmetric] split: if_splits)
qed

lemma dec_digits_length:
  assumes "0 < p" "0 < q" "dec_digits p q = (d, x)"
  shows "length (show_nat d) = p"
  using length_show_nat_eq [of "p - 1" d] dec_digits_bounds [OF assms] assms(1) by simp

text \<open>The range of the finite values.\<close>

fun dbl_ok :: "dbl \<Rightarrow> bool" where
  "dbl_ok (Fin s q) \<longleftrightarrow> q = 0 \<or> (2 powi (- 1074) \<le> q \<and> q < 2 ^ 1024)"
| "dbl_ok _ = True"

lemma flog_ok:
  assumes "2 powi (- 1074) \<le> q" "q < 2 ^ 1024"
  shows "- 325 < flog 10 q" "flog 10 q < 309"
proof -
  have q: "0 < q" using assms(1) by (rule less_le_trans [rotated]) (rule zero_less_power_int, simp)
  note f = flog_bounds [of 10, OF _ q, simplified]
  have "10 powi flog 10 q < (10 :: rat) powi 309"
  proof -
    have "(2 :: rat) ^ 1024 \<le> 10 powi 309" by simp
    with f(1) assms(2) show ?thesis by linarith
  qed
  then show "flog 10 q < 309" by (rule powi_less_cancel [rotated]) simp
  have "(10 :: rat) powi - 324 < 10 powi (flog 10 q + 1)"
  proof -
    have "(10 :: rat) powi - 324 \<le> 2 powi - 1074"
      unfolding power_int_minus_divide by (simp add: field_simps)
    with f(2) assms(1) show ?thesis by linarith
  qed
  then have "- 324 < flog 10 q + 1" by (rule powi_less_cancel [rotated]) simp
  then show "- 325 < flog 10 q" by simp
qed

definition num_char :: "char \<Rightarrow> bool" where
  "num_char c \<longleftrightarrow> is_digit c \<or> c \<in> {CHR ''+'', CHR ''-'', CHR ''e'', CHR ''E'', CHR ''.''}"

lemma num_char_digit: "is_digit c \<Longrightarrow> num_char c"
  by (simp add: num_char_def)

lemma num_char_show: "c \<in> set (show_nat n) \<Longrightarrow> num_char c"
  using show_nat_digits by (blast intro: num_char_digit)

lemma num_char_zero [simp]: "num_char (CHR ''0'')"
  by (simp add: num_char_def is_digit_def)

lemma num_text_parts:
  "\<forall>c\<in>set s. num_char c \<Longrightarrow> \<forall>c\<in>set (with_point (strip_zeros s)). num_char c"
  "\<forall>c\<in>set (show_nat n). num_char c" "\<forall>c\<in>set (show_exp x). num_char c"
proof -
  show s: "\<forall>c\<in>set (show_nat n). num_char c" for n using num_char_show by blast
  show "\<forall>c\<in>set (show_exp x). num_char c"
    using s by (simp add: show_exp_def) (simp add: num_char_def)
  assume "\<forall>c\<in>set s. num_char c"
  then show "\<forall>c\<in>set (with_point (strip_zeros s)). num_char c"
    using strip_zeros_set [of s] by (auto simp: with_point_def num_char_def)
qed

lemma fmt_mag_chars: "\<forall>c\<in>set (fmt_mag p q). num_char c"
proof -
  have t: "\<forall>c\<in>set (take n (show_nat d)). num_char c" "\<forall>c\<in>set (drop n (show_nat d)). num_char c" for n d
    using num_text_parts(2) in_set_takeD in_set_dropD by fast+
  have z: "\<forall>c\<in>set (replicate n (CHR ''0'') @ show_nat d). num_char c" for n d
    using num_text_parts(2) by auto
  obtain d x where dx: "dec_digits p q = (d, x)" by fastforce
  note pt = num_text_parts(1) [OF t(2)] num_text_parts(1) [OF z]
  show ?thesis
    unfolding fmt_mag_def dx Let_def prod.case using t(1) pt num_text_parts(3) [of x]
    by (simp only: set_append ball_Un simp_thms split: if_split) (simp add: num_char_def is_digit_def)
qed

lemma length_fmt_mag:
  assumes p: "0 < p" and ok: "dbl_ok (Fin s q)"
  shows "length (fmt_mag p q) \<le> p + 6"
proof (cases "q = 0")
  case False
  then have b: "2 powi (- 1074) \<le> q" "q < 2 ^ 1024" using ok by auto
  have q: "0 < q" using b(1) by (rule less_le_trans [rotated]) (rule zero_less_power_int, simp)
  obtain d x where dx: "dec_digits p q = (d, x)" by fastforce
  have x: "\<bar>x\<bar> < 1000" using dec_digits_bounds(3) [OF p q dx] flog_ok [OF b] by auto
  have l: "length (show_nat d) = p" using dec_digits_length [OF p q dx] .
  have "length (show_nat (nat \<bar>x\<bar>)) \<le> Suc 2" using x by (intro length_show_nat) simp
  then have e: "length (show_exp x) \<le> 5"
    by (auto simp: show_exp_def show_nat.simps [of "nat \<bar>x\<bar>"])
  have w: "length (with_point t) \<le> Suc (length t)" for t by (simp add: with_point_def)
  have ws: "length (with_point (strip_zeros t)) \<le> Suc (length t)" for t
    using w [of "strip_zeros t"] length_strip_zeros [of t] by linarith
  show ?thesis
    using False dx l e p ws [of "drop (nat x + 1) (show_nat d)"] ws [of "drop 1 (show_nat d)"]
      ws [of "replicate (nat (- x - 1)) (CHR ''0'') @ show_nat d"]
    by (auto simp: fmt_mag_def Let_def)
qed (use p in \<open>simp add: fmt_mag_def\<close>)

lemma dbl_round_ok:
  assumes "0 \<le> q"
  shows "dbl_ok (dbl_round s q)"
proof (cases "q = 0")
  case False
  define e where "e = max (- 1074) (flog 2 q - 52)"
  define v where "v = of_int (round_even (q / 2 powi e)) * (2 powi e :: rat)"
  have e: "(2 :: rat) powi (- 1074) \<le> 2 powi e" by (rule power_int_increasing) (simp_all add: e_def)
  have "0 \<le> round_even (q / 2 powi e)" using assms by (intro round_even_ge) simp
  then consider "v = 0" | "1 \<le> round_even (q / 2 powi e)" by (cases "round_even (q / 2 powi e) = 0") (auto simp: v_def)
  then have "v = 0 \<or> 2 powi (- 1074) \<le> v"
  proof cases
    case 2
    then have "1 * 2 powi e \<le> v" unfolding v_def by (intro mult_right_mono) simp_all
    with e show ?thesis by (simp only: mult_1) linarith
  qed simp
  then show ?thesis
    using False unfolding dbl_round_def e_def [symmetric] Let_def v_def [symmetric]
    by (simp only: dbl_ok.simps not_le simp_thms split: if_split) blast
qed (simp add: dbl_round_def)

lemma fmt_mag_int:
  assumes "n < 10 ^ 15"
  shows "fmt_mag 15 (of_nat n) = show_nat n"
proof (cases "n = 0")
  case False
  then have n: "0 < n" by simp
  define k where "k = floorlog 10 n - 1"
  have "Suc k = floorlog 10 n" using floorlog_rat(3) [of 10 n] n by (simp add: k_def)
  then have k: "10 ^ k \<le> n" "n < 10 ^ Suc k"
    using floorlog_bounds [OF n, of 10] by (simp_all add: k_def)
  have k15: "k < 15" using k(1) assms by (metis le_less_trans nat_power_less_imp_less zero_less_numeral)
  have fl: "flog 10 (of_nat n) = int k"
  proof (rule flog_unique)
    show "of_nat 10 powi int k \<le> (of_nat n :: rat)"
      using k(1) by (metis of_nat_le_iff of_nat_power power_int_of_nat)
    show "(of_nat n :: rat) < of_nat 10 powi (int k + 1)"
      using k(2) by (metis Suc_eq_plus1 of_nat_1 of_nat_add of_nat_less_iff of_nat_power power_int_of_nat)
  qed simp
  define j where "j = 14 - k"
  have "int k - int 15 + 1 = - int j" using k15 by (simp add: j_def)
  then have "(of_nat n :: rat) / 10 powi (int k - int 15 + 1) = of_nat (n * 10 ^ j)"
    by (simp only: power_int_minus_divide power_int_of_nat) simp
  then have r: "nat (round_even (of_nat n / 10 powi (int k - int 15 + 1))) = n * 10 ^ j"
    by (simp only: round_even_nat nat_int)
  have "n * 10 ^ j < 10 ^ Suc k * 10 ^ j" using k(2) by simp
  also have "\<dots> = 10 ^ 15" using k15 by (simp add: j_def flip: power_add power_Suc)
  finally have dd: "dec_digits 15 (of_nat n) = (n * 10 ^ j, int k)"
    unfolding dec_digits_def fl Let_def r by simp
  have l: "length (show_nat n) = Suc k" by (rule length_show_nat_eq [OF k])
  show ?thesis
    using n k15 l unfolding fmt_mag_def dd Let_def prod.case show_nat_shift [OF n]
    by (simp add: with_point_def)
qed (simp add: fmt_mag_def show_nat.simps)

lemma fmt_g_int: "\<bar>i\<bar> < 10 ^ 15 \<Longrightarrow> fmt_g 15 (dbl_of_int i) = show_int i"
  using fmt_mag_int [of "nat \<bar>i\<bar>"]
  by (simp add: dbl_of_int_exact fmt_sign_def show_int_def)

lemma exponent_of_Nil [simp]: "exponent_of [] = (0, 0)"
  by (simp add: exponent_of_def)

lemma takeWhile_show_nat [simp]: "takeWhile is_digit (show_nat n) = show_nat n"
  using show_nat_digits [of n] by (simp add: takeWhile_eq_all_conv)

lemma sign_of_show [simp]: "sign_of (show_nat n) = (False, 0)"
proof -
  obtain c s where s: "show_nat n = c # s" by (cases "show_nat n") auto
  with show_nat_digits [of n] show ?thesis by (auto simp: sign_of_def dest: digit_not_special)
qed

lemma strtod_show_int:
  assumes "\<bar>i\<bar> < 2 ^ 53"
  shows "strtod (show_int i) = (dbl_of_int i, length (show_int i))"
  using dbl_round_exact [of "nat \<bar>i\<bar>"] assms
  by (auto simp: strtod_def show_int_def Let_def digits_val_show dbl_of_int_exact sign_of_def [of "_ # _"])

lemma strtod_ok: "dbl_ok (fst (strtod s))"
  by (auto simp: strtod_def Let_def split: prod.split intro!: dbl_round_ok)

lemma sign_of_le: "snd (sign_of s) \<le> length s"
  by (auto simp: sign_of_def split: list.splits)

lemma exponent_of_le: "snd (exponent_of s) \<le> length s"
proof (cases s)
  case (Cons c r)
  obtain neg k where k: "sign_of r = (neg, k)" by fastforce
  have "k \<le> length r" using sign_of_le [of r] k by simp
  moreover have "length (takeWhile is_digit (drop k r)) \<le> length r - k"
    using length_takeWhile_le [of is_digit "drop k r"] by simp
  ultimately show ?thesis using Cons k by (auto simp: exponent_of_def Let_def)
qed (simp add: exponent_of_def)

lemma strtod_le: "snd (strtod s) \<le> length s"
proof -
  obtain neg k where k: "sign_of s = (neg, k)" by fastforce
  have k1: "k \<le> length s" using sign_of_le [of s] k by simp
  define r where "r = drop k s"
  define ip where "ip = takeWhile is_digit r"
  have ip: "length ip \<le> length r" unfolding ip_def by (rule length_takeWhile_le)
  define r2 where "r2 = drop (length ip) r"
  define point where "point = (r2 \<noteq> [] \<and> hd r2 = CHR ''.'')"
  define fp where "fp = (if point then takeWhile is_digit (tl r2) else [])"
  have fp: "point \<Longrightarrow> Suc (length fp) \<le> length r2"
    using length_takeWhile_le [of is_digit "tl r2"] by (auto simp: fp_def point_def Suc_le_eq neq_Nil_conv)
  define r3 where "r3 = (if point then drop (Suc (length fp)) r2 else r2)"
  obtain e m where em: "exponent_of r3 = (e, m)" by fastforce
  have "m \<le> length r3" using exponent_of_le [of r3] em by simp
  then have "k + length ip + (if point then Suc (length fp) else 0) + m \<le> length s"
    using k1 ip fp by (auto simp: r3_def r2_def r_def)
  moreover have "snd (strtod s) = (if ip = [] \<and> fp = [] then 0
      else k + length ip + (if point then Suc (length fp) else 0) + m)"
    unfolding strtod_def k Let_def prod.case r_def [symmetric] ip_def [symmetric] r2_def [symmetric]
      point_def [symmetric] fp_def [symmetric] r3_def [symmetric] em by simp
  ultimately show ?thesis by simp
qed

lemma strtod_not_nan: "fst (strtod s) \<noteq> NaN"
  by (auto simp: strtod_def Let_def dbl_round_def split: prod.split)

end
