(* ===== verification/Heap.thy ===== *)
theory Heap
  imports Alloc
begin

text \<open>
  A heap whose allocator may refuse: every allocation consumes one answer of \<open>h_ok\<close>, numbered by
  \<open>h_tick\<close>, and freeing a block that is not live is undefined (\<open>None\<close>). Components that allocate in
  many places thread it as their state instead of taking one argument per allocation.
\<close>

record heap =
  h_mem :: amem
  h_ok :: "nat \<Rightarrow> bool"
  h_tick :: nat

definition h_alloc :: "heap \<Rightarrow> block option \<times> heap" where
  "h_alloc h = (let (p, m) = am_alloc (h_ok h (h_tick h)) (h_mem h) in (p, h\<lparr>h_mem := m, h_tick := Suc (h_tick h)\<rparr>))"

definition h_free :: "block \<Rightarrow> heap \<Rightarrow> heap option" where
  "h_free b h = (case am_free b (h_mem h) of None \<Rightarrow> None | Some m \<Rightarrow> Some (h\<lparr>h_mem := m\<rparr>))"

definition h_free_opt :: "block option \<Rightarrow> heap \<Rightarrow> heap option" where
  "h_free_opt p h = (case p of None \<Rightarrow> Some h | Some b \<Rightarrow> h_free b h)"

definition howns :: "heap \<Rightarrow> block multiset \<Rightarrow> bool" where
  "howns h B \<longleftrightarrow> owns (h_mem h) B"

lemma howns_alloc:
  assumes "howns h B" "h_alloc h = (p, h')"
  shows "howns h' (blk p + B)" "h_ok h' = h_ok h" "p = None \<Longrightarrow> \<not> h_ok h (h_tick h)"
  using assms owns_alloc [of "h_mem h" B "h_ok h (h_tick h)"]
  by (auto simp: howns_def h_alloc_def Let_def am_alloc_def split: if_splits)

lemma howns_free:
  assumes "howns h (add_mset b B)"
  obtains h' where "h_free b h = Some h'" "howns h' B" "h_ok h' = h_ok h"
proof -
  obtain m where "am_free b (h_mem h) = Some m" "owns m B"
    using assms unfolding howns_def by (rule owns_free)
  then show thesis using that [of "h\<lparr>h_mem := m\<rparr>"] by (simp add: h_free_def howns_def)
qed

lemma howns_free_opt:
  assumes "howns h (blk p + B)"
  obtains h' where "h_free_opt p h = Some h'" "howns h' B" "h_ok h' = h_ok h"
  using assms by (cases p) (auto simp: h_free_opt_def elim: howns_free)

definition heap0 :: "(nat \<Rightarrow> bool) \<Rightarrow> heap" where
  "heap0 al = \<lparr>h_mem = am_empty, h_ok = al, h_tick = 0\<rparr>"

lemma howns_heap0 [simp]: "howns (heap0 al) {#}"
  by (simp add: heap0_def howns_def)

end
