(* ===== verification/Cjson.thy ===== *)
theory Cjson
  imports Cdouble Heap
begin

text \<open>
  The item trees of the vendored JSON library (\<^verbatim>\<open>contrib/cJSON/cJSON.c\<close>) that the command interface
  and the event formatter build: constructors, insertion into arrays and objects, lookup and
  deletion. An item owns its block, the block of its string value, the block of its key unless the
  key is a constant (\<open>cJSON_StringIsConst\<close>), and its children. The sibling chain is a list, so
  \<open>cJSON_Delete\<close> takes the chain that starts at its argument. The library's reference items
  (\<open>cJSON_IsReference\<close>) are not used by the program.
\<close>

section \<open>Items\<close>

text \<open>\<open>cJSON_strdup\<close>, which returns NULL for NULL\<close>

definition cJSON_strdup :: "string option \<Rightarrow> heap \<Rightarrow> hstr option \<times> heap" where
  "cJSON_strdup s h = (case s of None \<Rightarrow> (None, h)
     | Some s \<Rightarrow> (let (p, h) = h_alloc h in (map_option (\<lambda>b. (b, s)) p, h)))"

datatype jtype = cJSON_Invalid | cJSON_False | cJSON_True | cJSON_NULL | cJSON_Number | cJSON_String
  | cJSON_Array | cJSON_Object | cJSON_Raw

datatype jkey = NoKey | ConstKey string | HeapKey block string

datatype cjson = Item (i_blk: block) (i_type: jtype) (i_string: jkey) (i_valuestring: "hstr option")
  (i_valueint: int) (i_valuedouble: dbl) (i_child: "cjson list")

fun key_string :: "jkey \<Rightarrow> string option" where
  "key_string NoKey = None"
| "key_string (ConstKey s) = Some s"
| "key_string (HeapKey b s) = Some s"

fun key_block :: "jkey \<Rightarrow> block option" where
  "key_block (HeapKey b s) = Some b"
| "key_block _ = None"

definition INT_MAX :: int where "INT_MAX = 2147483647"
definition INT_MIN :: int where "INT_MIN = - 2147483648"

definition cJSON_New_Item :: "heap \<Rightarrow> cjson option \<times> heap" where
  "cJSON_New_Item h = (let (p, h) = h_alloc h in
     (map_option (\<lambda>b. Item b cJSON_Invalid NoKey None 0 (Fin False 0) []) p, h))"

fun cJSON_Delete :: "cjson list \<Rightarrow> heap \<Rightarrow> heap option" where
  "cJSON_Delete [] h = Some h"
| "cJSON_Delete (Item b t k vs vi vd ch # nxt) h = do {
     h \<leftarrow> cJSON_Delete ch h;
     h \<leftarrow> h_free_opt (map_option fst vs) h;
     h \<leftarrow> h_free_opt (key_block k) h;
     h \<leftarrow> h_free b h;
     cJSON_Delete nxt h
   }"

definition ptr :: "'a option \<Rightarrow> 'a list" where
  "ptr p = (case p of None \<Rightarrow> [] | Some x \<Rightarrow> [x])"

section \<open>Constructors\<close>

definition set_type :: "jtype \<Rightarrow> cjson \<Rightarrow> cjson" where
  "set_type t i = Item (i_blk i) t (i_string i) (i_valuestring i) (i_valueint i) (i_valuedouble i) (i_child i)"

definition create_of :: "jtype \<Rightarrow> heap \<Rightarrow> cjson option \<times> heap" where
  "create_of t h = (let (p, h) = cJSON_New_Item h in (map_option (set_type t) p, h))"

definition cJSON_CreateNull :: "heap \<Rightarrow> cjson option \<times> heap" where
  "cJSON_CreateNull = create_of cJSON_NULL"

definition cJSON_CreateTrue :: "heap \<Rightarrow> cjson option \<times> heap" where
  "cJSON_CreateTrue = create_of cJSON_True"

definition cJSON_CreateFalse :: "heap \<Rightarrow> cjson option \<times> heap" where
  "cJSON_CreateFalse = create_of cJSON_False"

definition cJSON_CreateBool :: "bool \<Rightarrow> heap \<Rightarrow> cjson option \<times> heap" where
  "cJSON_CreateBool v = create_of (if v then cJSON_True else cJSON_False)"

definition cJSON_CreateArray :: "heap \<Rightarrow> cjson option \<times> heap" where
  "cJSON_CreateArray = create_of cJSON_Array"

definition cJSON_CreateObject :: "heap \<Rightarrow> cjson option \<times> heap" where
  "cJSON_CreateObject = create_of cJSON_Object"

text \<open>The saturating conversion to \<open>int\<close>; that of NaN is undefined.\<close>

fun sat_int :: "dbl \<Rightarrow> int option" where
  "sat_int (Fin s q) = (let v = dbl_val s q in Some (
     if v \<ge> of_int INT_MAX then INT_MAX
     else if v \<le> of_int INT_MIN then INT_MIN
     else if s then - \<lfloor>q\<rfloor> else \<lfloor>q\<rfloor>))"
| "sat_int (Inf s) = Some (if s then INT_MIN else INT_MAX)"
| "sat_int NaN = None"

definition set_number :: "dbl \<Rightarrow> int \<Rightarrow> cjson \<Rightarrow> cjson" where
  "set_number d v i = Item (i_blk i) cJSON_Number (i_string i) (i_valuestring i) v d (i_child i)"

definition cJSON_CreateNumber :: "dbl \<Rightarrow> heap \<Rightarrow> (cjson option \<times> heap) option" where
  "cJSON_CreateNumber num h = (case cJSON_New_Item h of
       (None, h) \<Rightarrow> Some (None, h)
     | (Some item, h) \<Rightarrow> do { v \<leftarrow> sat_int num; Some (Some (set_number num v item), h) })"

definition set_vstr :: "jtype \<Rightarrow> hstr option \<Rightarrow> cjson \<Rightarrow> cjson" where
  "set_vstr t s i = Item (i_blk i) t (i_string i) s (i_valueint i) (i_valuedouble i) (i_child i)"

definition create_text :: "jtype \<Rightarrow> string option \<Rightarrow> heap \<Rightarrow> (cjson option \<times> heap) option" where
  "create_text t s h = (case cJSON_New_Item h of
       (None, h) \<Rightarrow> Some (None, h)
     | (Some item, h) \<Rightarrow>
         let (v, h) = cJSON_strdup s h; item = set_vstr t v item in
         if v = None then do { h \<leftarrow> cJSON_Delete [item] h; Some (None, h) }
         else Some (Some item, h))"

definition cJSON_CreateString :: "string option \<Rightarrow> heap \<Rightarrow> (cjson option \<times> heap) option" where
  "cJSON_CreateString = create_text cJSON_String"

definition cJSON_CreateRaw :: "string option \<Rightarrow> heap \<Rightarrow> (cjson option \<times> heap) option" where
  "cJSON_CreateRaw = create_text cJSON_Raw"

section \<open>Insertion\<close>

definition set_child :: "cjson list \<Rightarrow> cjson \<Rightarrow> cjson" where
  "set_child ch i = Item (i_blk i) (i_type i) (i_string i) (i_valuestring i) (i_valueint i) (i_valuedouble i) ch"

definition set_key :: "jkey \<Rightarrow> cjson \<Rightarrow> cjson" where
  "set_key k i = Item (i_blk i) (i_type i) k (i_valuestring i) (i_valueint i) (i_valuedouble i) (i_child i)"

text \<open>The result is the code's return value and the array afterwards.\<close>

definition add_item_to_array :: "cjson option \<Rightarrow> cjson option \<Rightarrow> bool \<times> cjson option" where
  "add_item_to_array array item = (case (array, item) of
       (Some a, Some i) \<Rightarrow> (True, Some (set_child (i_child a @ [i]) a))
     | _ \<Rightarrow> (False, array))"

definition cJSON_AddItemToArray :: "cjson option \<Rightarrow> cjson option \<Rightarrow> cjson option" where
  "cJSON_AddItemToArray array item = snd (add_item_to_array array item)"

definition make_key :: "bool \<Rightarrow> string \<Rightarrow> heap \<Rightarrow> jkey option \<times> heap" where
  "make_key constant_key s h =
     (if constant_key then (Some (ConstKey s), h)
      else let (p, h) = cJSON_strdup (Some s) h in (map_option (\<lambda>(b, s). HeapKey b s) p, h))"

definition add_item_to_object ::
  "cjson option \<Rightarrow> string option \<Rightarrow> cjson option \<Rightarrow> bool \<Rightarrow> heap \<Rightarrow> (bool \<times> cjson option \<times> heap) option" where
  "add_item_to_object object name item constant_key h = (case (object, name, item) of
       (Some ob, Some s, Some i) \<Rightarrow>
         let (new_key, h) = make_key constant_key s h in
         (case new_key of
            None \<Rightarrow> Some (False, object, h)
          | Some k \<Rightarrow> do {
              h \<leftarrow> h_free_opt (key_block (i_string i)) h;
              let (ok, ob') = add_item_to_array object (Some (set_key k i));
              Some (ok, ob', h)
            })
     | _ \<Rightarrow> Some (False, object, h))"

definition cJSON_AddItemToObject ::
  "cjson option \<Rightarrow> string option \<Rightarrow> cjson option \<Rightarrow> heap \<Rightarrow> (cjson option \<times> heap) option" where
  "cJSON_AddItemToObject object name item h = do {
     (_, ob, h) \<leftarrow> add_item_to_object object name item False h; Some (ob, h) }"

definition cJSON_AddItemToObjectCS ::
  "cjson option \<Rightarrow> string option \<Rightarrow> cjson option \<Rightarrow> heap \<Rightarrow> (cjson option \<times> heap) option" where
  "cJSON_AddItemToObjectCS object name item h = do {
     (_, ob, h) \<leftarrow> add_item_to_object object name item True h; Some (ob, h) }"

text \<open>
  The common body of the \<open>cJSON_Add...\<close> functions: insert the new item or delete it. Their result
  is whether the returned pointer is not NULL, and the object afterwards.
\<close>

definition add_new ::
  "bool \<Rightarrow> cjson option \<Rightarrow> string option \<Rightarrow> cjson option \<times> heap \<Rightarrow> (bool \<times> cjson option \<times> heap) option" where
  "add_new constant_key object name new = (case new of (item, h) \<Rightarrow> do {
     (ok, ob, h) \<leftarrow> add_item_to_object object name item constant_key h;
     if ok then Some (True, ob, h)
     else do { h \<leftarrow> cJSON_Delete (ptr item) h; Some (False, ob, h) } })"

type_synonym adder = "cjson option \<Rightarrow> string option \<Rightarrow> heap \<Rightarrow> (bool \<times> cjson option \<times> heap) option"

definition cJSON_AddTrueToObject :: adder where
  "cJSON_AddTrueToObject object name h = add_new False object name (cJSON_CreateTrue h)"

definition cJSON_AddFalseToObject :: adder where
  "cJSON_AddFalseToObject object name h = add_new False object name (cJSON_CreateFalse h)"

definition cJSON_AddNumberToObject :: "dbl \<Rightarrow> adder" where
  "cJSON_AddNumberToObject number object name h = do {
     new \<leftarrow> cJSON_CreateNumber number h; add_new False object name new }"

definition cJSON_AddStringToObject :: "string option \<Rightarrow> adder" where
  "cJSON_AddStringToObject s object name h = do {
     new \<leftarrow> cJSON_CreateString s h; add_new False object name new }"

definition cJSON_AddBoolToObjLN :: "bool \<Rightarrow> adder" where
  "cJSON_AddBoolToObjLN v object name h = add_new True object name (cJSON_CreateBool v h)"

definition cJSON_AddNumberToObjLN :: "dbl \<Rightarrow> adder" where
  "cJSON_AddNumberToObjLN number object name h = do {
     new \<leftarrow> cJSON_CreateNumber number h; add_new True object name new }"

definition cJSON_AddStringToObjLN :: "string option \<Rightarrow> adder" where
  "cJSON_AddStringToObjLN s object name h = do {
     new \<leftarrow> cJSON_CreateString s h; add_new True object name new }"

definition cJSON_AddObjectToObjLN :: adder where
  "cJSON_AddObjectToObjLN object name h = add_new True object name (cJSON_CreateObject h)"

section \<open>Lookup\<close>

definition cJSON_GetArraySize :: "cjson option \<Rightarrow> int" where
  "cJSON_GetArraySize array = (case array of None \<Rightarrow> 0 | Some a \<Rightarrow> to_int32 (int (length (i_child a))))"

definition get_array_item :: "cjson option \<Rightarrow> nat \<Rightarrow> cjson option" where
  "get_array_item array i = (case array of None \<Rightarrow> None
     | Some a \<Rightarrow> if i < length (i_child a) then Some (i_child a ! i) else None)"

definition cJSON_GetArrayItem :: "cjson option \<Rightarrow> int \<Rightarrow> cjson option" where
  "cJSON_GetArrayItem array i = (if i < 0 then None else get_array_item array (nat i))"

definition lower :: "char \<Rightarrow> char" where
  "lower c = (let n = (of_char c :: nat) in if 65 \<le> n \<and> n \<le> 90 then char_of (n + 32) else c)"

text \<open>The walk with case ends at a child without key; that without case passes over it.\<close>

fun find_key :: "string \<Rightarrow> cjson list \<Rightarrow> cjson option" where
  "find_key name [] = None"
| "find_key name (c # cs) = (case key_string (i_string c) of
     None \<Rightarrow> None
   | Some s \<Rightarrow> if s = name then Some c else find_key name cs)"

fun find_key_nocase :: "string \<Rightarrow> cjson list \<Rightarrow> cjson option" where
  "find_key_nocase name [] = None"
| "find_key_nocase name (c # cs) = (case key_string (i_string c) of
     None \<Rightarrow> find_key_nocase name cs
   | Some s \<Rightarrow> if map lower s = map lower name then Some c else find_key_nocase name cs)"

definition get_object_item :: "cjson option \<Rightarrow> string option \<Rightarrow> bool \<Rightarrow> cjson option" where
  "get_object_item object name case_sensitive = (case (object, name) of
       (Some ob, Some s) \<Rightarrow> if case_sensitive then find_key s (i_child ob) else find_key_nocase s (i_child ob)
     | _ \<Rightarrow> None)"

definition cJSON_GetObjectItem :: "cjson option \<Rightarrow> string option \<Rightarrow> cjson option" where
  "cJSON_GetObjectItem object name = get_object_item object name False"

definition cJSON_GetObjectItemCaseSensitive :: "cjson option \<Rightarrow> string option \<Rightarrow> cjson option" where
  "cJSON_GetObjectItemCaseSensitive object name = get_object_item object name True"

definition is_type :: "jtype \<Rightarrow> cjson option \<Rightarrow> bool" where
  "is_type t item = (case item of None \<Rightarrow> False | Some i \<Rightarrow> i_type i = t)"

definition cJSON_IsNumber :: "cjson option \<Rightarrow> bool" where
  "cJSON_IsNumber = is_type cJSON_Number"

definition cJSON_IsString :: "cjson option \<Rightarrow> bool" where
  "cJSON_IsString = is_type cJSON_String"

definition cJSON_IsObject :: "cjson option \<Rightarrow> bool" where
  "cJSON_IsObject = is_type cJSON_Object"

definition cJSON_GetStringValue :: "cjson option \<Rightarrow> string option" where
  "cJSON_GetStringValue item =
     (if cJSON_IsString item then str_of (i_valuestring (the item)) else None)"

section \<open>Ownership\<close>

fun jblocks :: "cjson \<Rightarrow> block multiset" where
  "jblocks (Item b t k vs vi vd ch) = {#b#} + blk (key_block k) + sblk vs + sum_list (map jblocks ch)"

definition jblks :: "cjson option \<Rightarrow> block multiset" where
  "jblks p = (case p of None \<Rightarrow> {#} | Some i \<Rightarrow> jblocks i)"

lemma jblks_simps [simp]: "jblks None = {#}" "jblks (Some i) = jblocks i"
  by (simp_all add: jblks_def)

lemma sum_list_ptr [simp]: "sum_list (map jblocks (ptr p)) = jblks p"
  by (cases p) (simp_all add: ptr_def)

lemma jblocks_set [simp]:
  "jblocks (set_type t i) = jblocks i"
  "jblocks (set_number d v i) = jblocks i"
  "i_valuestring i = None \<Longrightarrow> jblocks (set_vstr t s i) = sblk s + jblocks i"
  "jblocks (set_child (i_child i @ [c]) i) = jblocks c + jblocks i"
  by (cases i; simp add: set_type_def set_number_def set_vstr_def set_child_def ac_simps)+

lemma jblocks_set_key:
  "jblocks (set_key k i) + blk (key_block (i_string i)) = jblocks i + blk (key_block k)"
  by (cases i) (simp add: set_key_def ac_simps)

text \<open>Deleting a chain frees exactly the blocks of its items, each once.\<close>

lemma cJSON_Delete_owns:
  assumes "howns h (sum_list (map jblocks cs) + B)"
  shows "\<exists>h'. cJSON_Delete cs h = Some h' \<and> howns h' B \<and> h_ok h' = h_ok h"
  using assms
proof (induction cs h arbitrary: B rule: cJSON_Delete.induct)
  case (2 b t k vs vi vd ch nxt h)
  let ?N = "sum_list (map jblocks nxt)"
  have "howns h (sum_list (map jblocks ch) + (sblk vs + (blk (key_block k) + (add_mset b (?N + B)))))"
    using "2.prems" by (simp add: ac_simps)
  then obtain h1 where h1: "cJSON_Delete ch h = Some h1"
    "howns h1 (sblk vs + (blk (key_block k) + (add_mset b (?N + B))))" "h_ok h1 = h_ok h"
    using "2.IH"(1) by blast
  from h1(2) obtain h2 where h2: "h_free_opt (map_option fst vs) h1 = Some h2"
    "howns h2 (blk (key_block k) + (add_mset b (?N + B)))" "h_ok h2 = h_ok h1"
    unfolding sblk_def by (rule howns_free_opt)
  from h2(2) obtain h3 where h3: "h_free_opt (key_block k) h2 = Some h3"
    "howns h3 (add_mset b (?N + B))" "h_ok h3 = h_ok h2"
    by (rule howns_free_opt)
  from h3(2) obtain h4 where h4: "h_free b h3 = Some h4" "howns h4 (?N + B)" "h_ok h4 = h_ok h3"
    by (rule howns_free)
  then obtain h5 where "cJSON_Delete nxt h4 = Some h5" "howns h5 B" "h_ok h5 = h_ok h4"
    using "2.IH"(2) [OF h1(1) h2(1) h3(1) h4(1)] by blast
  with h1 h2 h3 h4 show ?case by simp
qed simp

lemma howns_delete:
  assumes "howns h (jblks p + B)"
  obtains h' where "cJSON_Delete (ptr p) h = Some h'" "howns h' B" "h_ok h' = h_ok h"
  using cJSON_Delete_owns [of h "ptr p" B] assms by auto

lemma howns_strdup:
  assumes "howns h B" "cJSON_strdup s h = (p, h')"
  shows "howns h' (sblk p + B)" "h_ok h' = h_ok h" "str_of p = None \<or> str_of p = s"
    "(\<forall>n. h_ok h n) \<Longrightarrow> str_of p = s"
proof -
  obtain q h1 where a: "h_alloc h = (q, h1)" by fastforce
  show "howns h' (sblk p + B)" "h_ok h' = h_ok h" "str_of p = None \<or> str_of p = s"
    "(\<forall>n. h_ok h n) \<Longrightarrow> str_of p = s"
    using assms howns_alloc [OF assms(1) a] a
    by (cases q; cases s; auto simp: cJSON_strdup_def str_of_def)+
qed

lemma howns_new_item:
  assumes "howns h B" "cJSON_New_Item h = (p, h')"
  shows "howns h' (jblks p + B)" "h_ok h' = h_ok h" "(\<forall>n. h_ok h n) \<Longrightarrow> p \<noteq> None"
    "p = None \<or> (\<exists>b. p = Some (Item b cJSON_Invalid NoKey None 0 (Fin False 0) []))"
proof -
  obtain q h1 where a: "h_alloc h = (q, h1)" by fastforce
  show "howns h' (jblks p + B)" "h_ok h' = h_ok h" "(\<forall>n. h_ok h n) \<Longrightarrow> p \<noteq> None"
    "p = None \<or> (\<exists>b. p = Some (Item b cJSON_Invalid NoKey None 0 (Fin False 0) []))"
    using assms howns_alloc [OF assms(1) a] a
    by (cases q; auto simp: cJSON_New_Item_def)+
qed

section \<open>The value of a tree\<close>

text \<open>
  What a tree denotes, without blocks and the derived integer: the specification against which the
  operations are stated. A string value or a key may be missing.
\<close>

datatype json = JInvalid | JNull | JBool bool | JNum dbl | JStr "string option" | JRaw "string option"
  | JArr "json list" | JObj "(string option \<times> json) list"

fun jval :: "cjson \<Rightarrow> json" where
  "jval (Item b t k vs vi vd ch) = (case t of
     cJSON_Invalid \<Rightarrow> JInvalid
   | cJSON_False \<Rightarrow> JBool False
   | cJSON_True \<Rightarrow> JBool True
   | cJSON_NULL \<Rightarrow> JNull
   | cJSON_Number \<Rightarrow> JNum vd
   | cJSON_String \<Rightarrow> JStr (str_of vs)
   | cJSON_Raw \<Rightarrow> JRaw (str_of vs)
   | cJSON_Array \<Rightarrow> JArr (map jval ch)
   | cJSON_Object \<Rightarrow> JObj (map (\<lambda>c. (key_string (i_string c), jval c)) ch))"

definition jmembers :: "cjson \<Rightarrow> (string option \<times> json) list" where
  "jmembers i = map (\<lambda>c. (key_string (i_string c), jval c)) (i_child i)"

lemma jval_object: "i_type i = cJSON_Object \<Longrightarrow> jval i = JObj (jmembers i)"
  by (cases i) (simp add: jmembers_def)

lemma jval_array: "i_type i = cJSON_Array \<Longrightarrow> jval i = JArr (map jval (i_child i))"
  by (cases i) simp

lemma jval_set_key [simp]: "jval (set_key k i) = jval i" "i_string (set_key k i) = k"
  by (cases i; simp add: set_key_def)+

text \<open>A new item: what it denotes, that it has no key yet, and what it owns.\<close>

definition made :: "heap \<Rightarrow> block multiset \<Rightarrow> json option \<Rightarrow> cjson option \<times> heap \<Rightarrow> bool" where
  "made h B v r = (case r of (p, h') \<Rightarrow> howns h' (jblks p + B) \<and> h_ok h' = h_ok h
     \<and> (\<forall>i. p = Some i \<longrightarrow> v = Some (jval i) \<and> i_string i = NoKey)
     \<and> ((\<forall>n. h_ok h n) \<and> v \<noteq> None \<longrightarrow> p \<noteq> None))"

lemma create_of_made:
  assumes "howns h B" "t \<noteq> cJSON_Number" "t \<noteq> cJSON_String" "t \<noteq> cJSON_Raw"
  shows "made h B (Some (jval (Item 0 t NoKey None 0 (Fin False 0) []))) (create_of t h)"
proof -
  obtain p h' where p: "cJSON_New_Item h = (p, h')" by fastforce
  show ?thesis
    using howns_new_item [OF assms(1) p] assms(2-)
    by (cases p; cases t) (auto simp: create_of_def p made_def set_type_def)
qed

lemmas create_made = create_of_made [where t = cJSON_Object, simplified] create_of_made [where t = cJSON_Array, simplified]
  create_of_made [where t = cJSON_True, simplified] create_of_made [where t = cJSON_False, simplified]

lemma create_number_made:
  assumes "howns h B" "d \<noteq> NaN"
  shows "\<exists>r. cJSON_CreateNumber d h = Some r \<and> made h B (Some (JNum d)) r"
proof -
  obtain p h' where p: "cJSON_New_Item h = (p, h')" by fastforce
  have "\<exists>v. sat_int d = Some v" using assms(2) by (cases d) (auto simp: Let_def)
  then show ?thesis
    using howns_new_item [OF assms(1) p]
    by (cases p) (auto simp: cJSON_CreateNumber_def p made_def set_number_def)
qed

lemma create_text_made:
  assumes "howns h B" "t = cJSON_String \<or> t = cJSON_Raw"
  shows "\<exists>r. create_text t s h = Some r
    \<and> made h B (case s of None \<Rightarrow> None | Some _ \<Rightarrow> Some (if t = cJSON_String then JStr s else JRaw s)) r"
proof -
  obtain p h1 where p: "cJSON_New_Item h = (p, h1)" by fastforce
  note n = howns_new_item [OF assms(1) p]
  show ?thesis
  proof (cases p)
    case None
    with n show ?thesis by (auto simp: create_text_def p made_def split: option.splits)
  next
    case (Some i)
    obtain v h2 where v: "cJSON_strdup s h1 = (v, h2)" by fastforce
    have i: "i_valuestring i = None" "i_string i = NoKey" using n(4) Some by auto
    note d = howns_strdup [OF n(1) v]
    have own: "howns h2 (jblks (Some (set_vstr t v i)) + B)" using d(1) i Some by (simp add: ac_simps)
    show ?thesis
    proof (cases v)
      case None
      obtain h3 where "cJSON_Delete (ptr (Some (set_vstr t v i))) h2 = Some h3" "howns h3 B" "h_ok h3 = h_ok h2"
        using own by (rule howns_delete)
      then show ?thesis
        using n(2) d(2,4) None Some p v
        by (auto simp: create_text_def made_def ptr_def split: option.splits)
    next
      case (Some w)
      have "jval (set_vstr t v i) = (if t = cJSON_String then JStr (str_of v) else JRaw (str_of v))"
        using assms(2) by (cases i) (auto simp: set_vstr_def)
      then show ?thesis
        using n(2) d(2,3,4) Some \<open>p = Some i\<close> p v own i
        by (cases w) (auto simp: create_text_def made_def set_vstr_def split: option.splits)
    qed
  qed
qed

text \<open>
  Insertion of a new item under a key: either the object has the member as its last one, or the
  object is as before and the new item is gone. The members and the ownership are exact in both
  cases, and insertion succeeds when the allocator does.
\<close>

definition added ::
  "heap \<Rightarrow> block multiset \<Rightarrow> cjson \<Rightarrow> string \<Rightarrow> json option \<Rightarrow> bool \<times> cjson option \<times> heap \<Rightarrow> bool" where
  "added h B ob name v r = (case r of (ok, ob', h') \<Rightarrow> \<exists>o'. ob' = Some o' \<and> howns h' (jblocks o' + B)
     \<and> h_ok h' = h_ok h \<and> i_type o' = i_type ob \<and> i_string o' = i_string ob
     \<and> (if ok then \<exists>w. v = Some w \<and> jmembers o' = jmembers ob @ [(Some name, w)] else o' = ob)
     \<and> ((\<forall>n. h_ok h n) \<and> v \<noteq> None \<longrightarrow> ok))"

lemma add_item_spec:
  assumes own: "howns h (jblocks i + (jblocks ob + B))"
  shows "\<exists>ok o' h'. add_item_to_object (Some ob) (Some name) (Some i) const h = Some (ok, Some o', h')
    \<and> h_ok h' = h_ok h \<and> i_type o' = i_type ob \<and> i_string o' = i_string ob
    \<and> (if ok then howns h' (jblocks o' + B) \<and> jmembers o' = jmembers ob @ [(Some name, jval i)]
       else o' = ob \<and> howns h' (jblocks i + (jblocks ob + B)))
    \<and> ((const \<or> (\<forall>n. h_ok h n)) \<longrightarrow> ok)"
proof -
  obtain k h1 where k: "make_key const name h = (k, h1)" by fastforce
  have k1: "howns h1 (blk (Option.bind k key_block) + (jblocks i + (jblocks ob + B)))" "h_ok h1 = h_ok h"
    "k = None \<or> (\<exists>k'. k = Some k' \<and> key_string k' = Some name)" "const \<or> (\<forall>n. h_ok h n) \<Longrightarrow> k \<noteq> None"
    using k own howns_strdup [OF own, of "Some name"]
    by (auto simp: make_key_def str_of_def sblk_def split: if_splits prod.splits)
  show ?thesis
  proof (cases k)
    case None
    then show ?thesis
      using k k1 by (auto simp: add_item_to_object_def Let_def)
  next
    case (Some k')
    have "howns h1 (blk (key_block (i_string i)) + (jblocks (set_key k' i) + (jblocks ob + B)))"
      using k1(1) Some jblocks_set_key [of k' i] by (simp add: ac_simps)
    then obtain h2 where h2: "h_free_opt (key_block (i_string i)) h1 = Some h2"
      "howns h2 (jblocks (set_key k' i) + (jblocks ob + B))" "h_ok h2 = h_ok h1"
      by (rule howns_free_opt)
    define o' where "o' = set_child (i_child ob @ [set_key k' i]) ob"
    have "add_item_to_object (Some ob) (Some name) (Some i) const h = Some (True, Some o', h2)"
      using k Some h2(1) by (simp add: add_item_to_object_def add_item_to_array_def o'_def)
    moreover have "i_type o' = i_type ob" "i_string o' = i_string ob"
      by (simp_all add: o'_def set_child_def)
    moreover have "jmembers o' = jmembers ob @ [(Some name, jval i)]"
      using k1(3) Some by (simp add: o'_def set_child_def jmembers_def)
    moreover have "howns h2 (jblocks o' + B)"
      using h2(2) by (simp add: o'_def ac_simps)
    ultimately show ?thesis using h2(3) k1(2) by auto
  qed
qed

lemma add_new_spec:
  assumes own: "howns h (jblocks ob + B)" and m: "made h (jblocks ob + B) v new"
  shows "\<exists>r. add_new const (Some ob) (Some name) new = Some r \<and> added h B ob name v r"
proof -
  obtain p h1 where new: "new = (p, h1)" by fastforce
  from m new have p: "howns h1 (jblks p + (jblocks ob + B))" "h_ok h1 = h_ok h"
    "\<And>i. p = Some i \<Longrightarrow> v = Some (jval i)" "(\<forall>n. h_ok h n) \<Longrightarrow> v \<noteq> None \<Longrightarrow> p \<noteq> None"
    by (auto simp: made_def)
  show ?thesis
  proof (cases p)
    case None
    then show ?thesis
      using p own new by (auto simp: add_new_def add_item_to_object_def ptr_def added_def)
  next
    case (Some i)
    then obtain ok o' h2 where a:
      "add_item_to_object (Some ob) (Some name) (Some i) const h1 = Some (ok, Some o', h2)"
      "h_ok h2 = h_ok h1" "i_type o' = i_type ob" "i_string o' = i_string ob"
      "if ok then howns h2 (jblocks o' + B) \<and> jmembers o' = jmembers ob @ [(Some name, jval i)]
       else o' = ob \<and> howns h2 (jblocks i + (jblocks ob + B))"
      "(const \<or> (\<forall>n. h_ok h1 n)) \<longrightarrow> ok"
      using add_item_spec [of h1 i ob B name const] p(1) by auto
    show ?thesis
    proof (cases ok)
      case True
      with a p Some new show ?thesis by (auto simp: add_new_def added_def)
    next
      case False
      with a have "howns h2 (jblks (Some i) + (jblocks ob + B))" by simp
      then obtain h3 where "cJSON_Delete (ptr (Some i)) h2 = Some h3" "howns h3 (jblocks ob + B)" "h_ok h3 = h_ok h2"
        by (rule howns_delete)
      with False a p Some new show ?thesis by (auto simp: add_new_def added_def)
    qed
  qed
qed

text \<open>The functions that create and insert.\<close>

lemma add_number_LN:
  assumes "howns h (jblocks ob + B)" "d \<noteq> NaN"
  shows "\<exists>r. cJSON_AddNumberToObjLN d (Some ob) (Some name) h = Some r \<and> added h B ob name (Some (JNum d)) r"
  using create_number_made [OF assms] add_new_spec [OF assms(1)]
  by (fastforce simp: cJSON_AddNumberToObjLN_def)

lemma add_number:
  assumes "howns h (jblocks ob + B)" "d \<noteq> NaN"
  shows "\<exists>r. cJSON_AddNumberToObject d (Some ob) (Some name) h = Some r \<and> added h B ob name (Some (JNum d)) r"
  using create_number_made [OF assms] add_new_spec [OF assms(1)]
  by (fastforce simp: cJSON_AddNumberToObject_def)

definition text_value :: "string option \<Rightarrow> json option" where
  "text_value s = (case s of None \<Rightarrow> None | Some t \<Rightarrow> Some (JStr (Some t)))"

lemma text_value_simps [simp]: "text_value None = None" "text_value (Some t) = Some (JStr (Some t))"
  by (simp_all add: text_value_def)

lemma create_string_made:
  assumes "howns h B"
  shows "\<exists>r. cJSON_CreateString s h = Some r \<and> made h B (text_value s) r"
  using create_text_made [OF assms, of cJSON_String s]
  by (cases s) (auto simp: cJSON_CreateString_def)

lemma add_string_LN:
  assumes "howns h (jblocks ob + B)"
  shows "\<exists>r. cJSON_AddStringToObjLN s (Some ob) (Some name) h = Some r \<and> added h B ob name (text_value s) r"
  using create_string_made [OF assms, of s] add_new_spec [OF assms]
  by (fastforce simp: cJSON_AddStringToObjLN_def)

lemma add_string:
  assumes "howns h (jblocks ob + B)"
  shows "\<exists>r. cJSON_AddStringToObject s (Some ob) (Some name) h = Some r \<and> added h B ob name (text_value s) r"
  using create_string_made [OF assms, of s] add_new_spec [OF assms]
  by (fastforce simp: cJSON_AddStringToObject_def)

lemma add_bool_LN:
  assumes "howns h (jblocks ob + B)"
  shows "\<exists>r. cJSON_AddBoolToObjLN v (Some ob) (Some name) h = Some r \<and> added h B ob name (Some (JBool v)) r"
  using create_made(3,4) [OF assms] add_new_spec [OF assms]
  by (cases v) (auto simp: cJSON_AddBoolToObjLN_def cJSON_CreateBool_def)

lemma add_true:
  assumes "howns h (jblocks ob + B)"
  shows "\<exists>r. cJSON_AddTrueToObject (Some ob) (Some name) h = Some r \<and> added h B ob name (Some (JBool True)) r"
  using create_made(3) [OF assms] add_new_spec [OF assms]
  by (auto simp: cJSON_AddTrueToObject_def cJSON_CreateTrue_def)

lemma add_false:
  assumes "howns h (jblocks ob + B)"
  shows "\<exists>r. cJSON_AddFalseToObject (Some ob) (Some name) h = Some r \<and> added h B ob name (Some (JBool False)) r"
  using create_made(4) [OF assms] add_new_spec [OF assms]
  by (auto simp: cJSON_AddFalseToObject_def cJSON_CreateFalse_def)

lemmas adders = add_number_LN add_number add_string_LN add_string add_bool_LN add_true add_false

end
