(* ===== verification/Cjson_Print.thy ===== *)
theory Cjson_Print
  imports Cjson
begin

text \<open>
  Printing an item tree (\<^verbatim>\<open>contrib/cJSON/cJSON.c\<close>): the output buffer that grows by
  reallocation, and the printers that write into it. A write outside the buffer and a \<open>strlen\<close> that
  finds no terminator are undefined (\<open>None\<close>). The refinement lemma shows that for every tree and every
  behaviour of the allocator nothing undefined happens, and that what is written is the text
  \<open>json_text\<close> of the tree's value.
\<close>

abbreviation NUL :: char where "NUL \<equiv> CHR 0x00"

section \<open>The print buffer\<close>

text \<open>
  The length is that of the buffer. \<open>pb_al\<close> answers the allocations, \<open>pb_fill\<close> is what new memory
  holds.
\<close>

record printbuffer =
  pb_buffer :: "string option"
  pb_offset :: nat
  pb_depth :: nat
  pb_noalloc :: bool
  pb_format :: bool
  pb_al :: "nat \<Rightarrow> bool"
  pb_tick :: nat
  pb_fill :: char

definition INT_MAXn :: nat where "INT_MAXn = 2147483647"

definition ensure :: "nat \<Rightarrow> printbuffer \<Rightarrow> bool \<times> printbuffer" where
  "ensure needed p = (case pb_buffer p of
       None \<Rightarrow> (False, p)
     | Some b \<Rightarrow>
       if length b > 0 \<and> pb_offset p \<ge> length b then (False, p)
       else if needed > INT_MAXn then (False, p)
       else let needed = needed + (pb_offset p + 1) in
         if needed \<le> length b then (True, p)
         else if pb_noalloc p then (False, p)
         else if needed > INT_MAXn div 2 \<and> needed > INT_MAXn then (False, p)
         else let newsize = (if needed > INT_MAXn div 2 then INT_MAXn else needed * 2) in
           if pb_al p (pb_tick p)
           then (True, p\<lparr>pb_buffer := Some (c_realloc (pb_fill p) newsize b), pb_tick := Suc (pb_tick p)\<rparr>)
           else (False, p\<lparr>pb_buffer := None, pb_tick := Suc (pb_tick p)\<rparr>))"

definition poke :: "string \<Rightarrow> nat \<Rightarrow> string \<Rightarrow> string option" where
  "poke b i s = (if i + length s \<le> length b then Some (take i b @ s @ drop (i + length s) b) else None)"

text \<open>Writes relative to the offset.\<close>

definition put :: "nat \<Rightarrow> string \<Rightarrow> printbuffer \<Rightarrow> printbuffer option" where
  "put i s p = do {
     b \<leftarrow> pb_buffer p;
     b \<leftarrow> poke b (pb_offset p + i) s;
     Some (p\<lparr>pb_buffer := Some b\<rparr>) }"

definition advance :: "nat \<Rightarrow> printbuffer \<Rightarrow> printbuffer" where
  "advance n p = p\<lparr>pb_offset := pb_offset p + n\<rparr>"

definition update_offset :: "printbuffer \<Rightarrow> printbuffer option" where
  "update_offset p = (case pb_buffer p of
       None \<Rightarrow> Some p
     | Some b \<Rightarrow>
         let t = drop (pb_offset p) b in
         if NUL \<in> set t then Some (advance (length (takeWhile (\<lambda>c. c \<noteq> NUL) t)) p) else None)"

text \<open>\<open>if (!m) return false; f\<close>\<close>

definition if_ok ::
  "(bool \<times> printbuffer) option \<Rightarrow> (printbuffer \<Rightarrow> (bool \<times> printbuffer) option) \<Rightarrow> (bool \<times> printbuffer) option" where
  "if_ok m f = do { (ok, p) \<leftarrow> m; if ok then f p else Some (False, p) }"

definition done_ok :: "printbuffer option \<Rightarrow> (bool \<times> printbuffer) option" where
  "done_ok m = do { p \<leftarrow> m; Some (True, p) }"

section \<open>Values\<close>

definition number_buffer :: "string \<Rightarrow> string option" where
  "number_buffer s = (if length s < 26 then Some s else None)"

fun finite_dbl :: "dbl \<Rightarrow> bool" where
  "finite_dbl (Fin s q) = True"
| "finite_dbl _ = False"

definition print_number :: "dbl \<Rightarrow> printbuffer \<Rightarrow> (bool \<times> printbuffer) option" where
  "print_number d p = do {
     t \<leftarrow> (if \<not> finite_dbl d then number_buffer ''null''
          else do {
            t \<leftarrow> number_buffer (fmt_g 15 d);
            let (test, n) = strtod t;
            if n = 0 \<or> \<not> dbl_eq test d then number_buffer (fmt_g 17 d) else Some t
          });
     if length t > 25 then Some (False, p)
     else if_ok (Some (ensure (length t + 1) p))
       (\<lambda>p. do { p \<leftarrow> put 0 (t @ [NUL]) p; Some (True, advance (length t) p) })
   }"

definition esc_letter :: "char \<Rightarrow> char option" where
  "esc_letter c = (
     if c = CHR 0x5C then Some (CHR 0x5C)
     else if c = CHR 0x22 then Some (CHR 0x22)
     else if c = CHR 0x08 then Some (CHR ''b'')
     else if c = CHR 0x0C then Some (CHR ''f'')
     else if c = CHR 0x0A then Some (CHR ''n'')
     else if c = CHR 0x0D then Some (CHR ''r'')
     else if c = CHR 0x09 then Some (CHR ''t'')
     else None)"

definition ctl_char :: "char \<Rightarrow> bool" where
  "ctl_char c \<longleftrightarrow> (of_char c :: nat) < 32"

definition hex_digit :: "nat \<Rightarrow> char" where
  "hex_digit d = (if d < 10 then char_of (48 + d) else char_of (87 + d))"

definition hex4 :: "nat \<Rightarrow> string" where
  "hex4 n = [hex_digit (n div 4096 mod 16), hex_digit (n div 256 mod 16), hex_digit (n div 16 mod 16), hex_digit (n mod 16)]"

definition escape_characters :: "char \<Rightarrow> nat" where
  "escape_characters c = (if esc_letter c \<noteq> None then 1 else if ctl_char c then 5 else 0)"

fun print_chars :: "string \<Rightarrow> nat \<Rightarrow> string \<Rightarrow> string option" where
  "print_chars [] pos b = Some b"
| "print_chars (c # cs) pos b =
     (if \<not> ctl_char c \<and> c \<noteq> CHR 0x22 \<and> c \<noteq> CHR 0x5C
      then do { b \<leftarrow> poke b pos [c]; print_chars cs (pos + 1) b }
      else do {
        b \<leftarrow> poke b pos [CHR 0x5C];
        (case esc_letter c of
           Some e \<Rightarrow> do { b \<leftarrow> poke b (pos + 1) [e]; print_chars cs (pos + 2) b }
         | None \<Rightarrow> do {
             b \<leftarrow> poke b (pos + 1) (CHR ''u'' # hex4 (of_char c) @ [NUL]);
             print_chars cs (pos + 6) b })
      })"

text \<open>
  The memory at the input pointer is \<open>input\<close>; the text is its first \<open>str_len\<close> bytes or, if that is 0,
  what precedes the terminator.
\<close>

definition input_text :: "string \<Rightarrow> nat \<Rightarrow> string option" where
  "input_text input str_len =
     (if str_len \<noteq> 0 then (if str_len \<le> length input then Some (take str_len input) else None)
      else if NUL \<in> set input then Some (takeWhile (\<lambda>c. c \<noteq> NUL) input) else None)"

text \<open>Quotes and text; the loop over the characters is only needed if something is escaped.\<close>

definition write_quoted :: "string \<Rightarrow> printbuffer \<Rightarrow> printbuffer option" where
  "write_quoted s p =
     (let escapes = sum_list (map escape_characters s); output_length = length s + escapes in
      if escapes = 0 then do {
        p \<leftarrow> put 0 [CHR 0x22] p;
        p \<leftarrow> put 1 s p;
        put (output_length + 1) [CHR 0x22, NUL] p }
      else do {
        p \<leftarrow> put 0 [CHR 0x22] p;
        b \<leftarrow> pb_buffer p;
        b \<leftarrow> print_chars s (pb_offset p + 1) b;
        put (output_length + 1) [CHR 0x22, NUL] (p\<lparr>pb_buffer := Some b\<rparr>) })"

definition print_string_ptr :: "string option \<Rightarrow> nat \<Rightarrow> printbuffer \<Rightarrow> (bool \<times> printbuffer) option" where
  "print_string_ptr input str_len p = (case input of
       None \<Rightarrow> if_ok (Some (ensure 3 p)) (\<lambda>p. done_ok (put 0 [CHR 0x22, CHR 0x22, NUL] p))
     | Some m \<Rightarrow> do {
         s \<leftarrow> input_text m str_len;
         if_ok (Some (ensure (length s + sum_list (map escape_characters s) + 3) p))
           (\<lambda>p. done_ok (write_quoted s p)) })"

definition c_string :: "string option \<Rightarrow> string option" where
  "c_string s = map_option (\<lambda>s. s @ [NUL]) s"

definition print_text :: "string \<Rightarrow> printbuffer \<Rightarrow> (bool \<times> printbuffer) option" where
  "print_text s p = if_ok (Some (ensure (length s + 1) p)) (\<lambda>p. done_ok (put 0 (s @ [NUL]) p))"

definition tabs :: "nat \<Rightarrow> string" where
  "tabs n = replicate n (CHR 0x09)"

fun print_value :: "cjson \<Rightarrow> printbuffer \<Rightarrow> (bool \<times> printbuffer) option"
and print_elements :: "cjson list \<Rightarrow> printbuffer \<Rightarrow> (bool \<times> printbuffer) option"
and print_members :: "cjson list \<Rightarrow> printbuffer \<Rightarrow> (bool \<times> printbuffer) option" where
  "print_value (Item bl t k vs vi vd ch) p = (case t of
     cJSON_NULL \<Rightarrow> print_text ''null'' p
   | cJSON_False \<Rightarrow> print_text ''false'' p
   | cJSON_True \<Rightarrow> print_text ''true'' p
   | cJSON_Number \<Rightarrow> print_number vd p
   | cJSON_Raw \<Rightarrow> (case str_of vs of None \<Rightarrow> Some (False, p) | Some s \<Rightarrow> print_text s p)
   | cJSON_String \<Rightarrow> print_string_ptr (c_string (str_of vs)) 0 p
   | cJSON_Array \<Rightarrow>
       if_ok (Some (ensure 1 p)) (\<lambda>p. do {
         p \<leftarrow> put 0 ''['' p;
         if_ok (print_elements ch ((advance 1 p)\<lparr>pb_depth := pb_depth p + 1\<rparr>)) (\<lambda>p.
         if_ok (Some (ensure 2 p)) (\<lambda>p. do {
           p \<leftarrow> put 0 [CHR '']'', NUL] p;
           Some (True, p\<lparr>pb_depth := pb_depth p - 1\<rparr>) })) })
   | cJSON_Object \<Rightarrow>
       let len = (if pb_format p then 2 else 1) in
       if_ok (Some (ensure (len + 1) p)) (\<lambda>p. do {
         p \<leftarrow> put 0 (if pb_format p then [CHR ''{'', CHR 0x0A] else ''{'') p;
         if_ok (print_members ch ((advance len p)\<lparr>pb_depth := pb_depth p + 1\<rparr>)) (\<lambda>p.
         if_ok (Some (ensure (if pb_format p then pb_depth p + 1 else 2) p)) (\<lambda>p. do {
           p \<leftarrow> put 0 ((if pb_format p then tabs (pb_depth p - 1) else []) @ [CHR ''}'', NUL]) p;
           Some (True, p\<lparr>pb_depth := pb_depth p - 1\<rparr>) })) })
   | cJSON_Invalid \<Rightarrow> Some (False, p))"
| "print_elements [] p = Some (True, p)"
| "print_elements (c # cs) p =
     if_ok (print_value c p) (\<lambda>p. do {
       p \<leftarrow> update_offset p;
       if cs \<noteq> [] then
         let len = (if pb_format p then 2 else 1) in
         if_ok (Some (ensure (len + 1) p)) (\<lambda>p. do {
           p \<leftarrow> put 0 ((if pb_format p then '', '' else '','') @ [NUL]) p;
           print_elements cs (advance len p) })
       else print_elements cs p })"
| "print_members [] p = Some (True, p)"
| "print_members (c # cs) p =
     if_ok (if pb_format p
            then if_ok (Some (ensure (pb_depth p) p)) (\<lambda>p. do {
                   p \<leftarrow> put 0 (tabs (pb_depth p)) p;
                   Some (True, advance (pb_depth p) p) })
            else Some (True, p)) (\<lambda>p.
     if_ok (print_string_ptr (c_string (key_string (i_string c))) 0 p) (\<lambda>p. do {
       p \<leftarrow> update_offset p;
       let len = (if pb_format p then 2 else 1);
       if_ok (Some (ensure len p)) (\<lambda>p. do {
         p \<leftarrow> put 0 (if pb_format p then [CHR '':'', CHR 0x09] else '':'') p;
         if_ok (print_value c (advance len p)) (\<lambda>p. do {
           p \<leftarrow> update_offset p;
           let len = (if pb_format p then 1 else 0) + (if cs \<noteq> [] then 1 else 0);
           if_ok (Some (ensure (len + 1) p)) (\<lambda>p. do {
             p \<leftarrow> put 0 ((if cs \<noteq> [] then '','' else []) @ (if pb_format p then [CHR 0x0A] else []) @ [NUL]) p;
             print_members cs (advance len p) }) }) }) }))"

section \<open>Entry points\<close>

definition print :: "(nat \<Rightarrow> bool) \<Rightarrow> char \<Rightarrow> bool \<Rightarrow> cjson option \<Rightarrow> string option option" where
  "print al fill fmt item =
     (if \<not> al 0 then Some None
      else case item of None \<Rightarrow> Some None
      | Some i \<Rightarrow> do {
          (ok, p) \<leftarrow> print_value i \<lparr>pb_buffer = Some (replicate 256 fill), pb_offset = 0, pb_depth = 0,
              pb_noalloc = False, pb_format = fmt, pb_al = al, pb_tick = 1, pb_fill = fill\<rparr>;
          if \<not> ok then Some None
          else do {
            p \<leftarrow> update_offset p;
            b \<leftarrow> pb_buffer p;
            if al (pb_tick p) then Some (Some (take (pb_offset p) b)) else Some None } })"

definition cJSON_PrintUnformatted :: "(nat \<Rightarrow> bool) \<Rightarrow> char \<Rightarrow> cjson option \<Rightarrow> string option option" where
  "cJSON_PrintUnformatted al fill item = print al fill False item"

definition cJSON_Print :: "(nat \<Rightarrow> bool) \<Rightarrow> char \<Rightarrow> cjson option \<Rightarrow> string option option" where
  "cJSON_Print al fill item = print al fill True item"

text \<open>
  A string item from a buffer of the given length: the text is escaped at once and kept as a raw
  item, whose string is the print buffer.
\<close>

definition cJSON_CreateStringFromBuffer :: "char \<Rightarrow> string option \<Rightarrow> nat \<Rightarrow> heap \<Rightarrow> (cjson option \<times> heap) option" where
  "cJSON_CreateStringFromBuffer fill buffer len h = (case h_alloc h of
       (None, h) \<Rightarrow> Some (None, h)
     | (Some bl, h) \<Rightarrow> do {
         (ok, p) \<leftarrow> print_string_ptr buffer len \<lparr>pb_buffer = Some (replicate 256 fill), pb_offset = 0, pb_depth = 0,
              pb_noalloc = False, pb_format = False, pb_al = h_ok h, pb_tick = h_tick h, pb_fill = fill\<rparr>;
         let h = h\<lparr>h_tick := pb_tick p\<rparr>;
         if \<not> ok then do { h \<leftarrow> h_free bl h; Some (None, h) }
         else (case cJSON_New_Item h of
             (None, h) \<Rightarrow> do { h \<leftarrow> h_free bl h; Some (None, h) }
           | (Some item, h) \<Rightarrow> do {
               b \<leftarrow> pb_buffer p;
               Some (Some (set_vstr cJSON_Raw (Some (bl, takeWhile (\<lambda>c. c \<noteq> NUL) b)) item), h) }) })"

section \<open>The text of a value\<close>

definition esc :: "char \<Rightarrow> string" where
  "esc c = (case esc_letter c of Some e \<Rightarrow> [CHR 0x5C, e]
     | None \<Rightarrow> if ctl_char c then CHR 0x5C # CHR ''u'' # hex4 (of_char c) else [c])"

definition esc_string :: "string \<Rightarrow> string" where
  "esc_string s = concat (map esc s)"

definition quoted :: "string option \<Rightarrow> string" where
  "quoted s = [CHR 0x22] @ esc_string (case s of None \<Rightarrow> [] | Some s \<Rightarrow> s) @ [CHR 0x22]"

definition num_text :: "dbl \<Rightarrow> string" where
  "num_text d = (if \<not> finite_dbl d then ''null''
     else let (test, n) = strtod (fmt_g 15 d) in
       if n = 0 \<or> \<not> dbl_eq test d then fmt_g 17 d else fmt_g 15 d)"

fun comma_list :: "string list \<Rightarrow> string" where
  "comma_list [] = []"
| "comma_list [s] = s"
| "comma_list (s # t # ts) = s @ '','' @ comma_list (t # ts)"

fun json_text :: "json \<Rightarrow> string" where
  "json_text JInvalid = []"
| "json_text JNull = ''null''"
| "json_text (JBool v) = (if v then ''true'' else ''false'')"
| "json_text (JNum d) = num_text d"
| "json_text (JStr s) = quoted s"
| "json_text (JRaw s) = (case s of None \<Rightarrow> [] | Some s \<Rightarrow> s)"
| "json_text (JArr js) = ''['' @ comma_list (map json_text js) @ '']''"
| "json_text (JObj ms) = ''{'' @ comma_list (map (\<lambda>(k, v). quoted k @ '':'' @ json_text v) ms) @ ''}''"

text \<open>What can be printed: no invalid item, strings without terminator, doubles in range.\<close>

definition c_str_ok :: "string option \<Rightarrow> bool" where
  "c_str_ok s = (case s of None \<Rightarrow> True | Some s \<Rightarrow> NUL \<notin> set s)"

fun printable :: "json \<Rightarrow> bool" where
  "printable JInvalid = False"
| "printable (JNum d) = dbl_ok d"
| "printable (JStr s) = c_str_ok s"
| "printable (JRaw s) = (s \<noteq> None \<and> c_str_ok s)"
| "printable (JArr js) = (\<forall>j\<in>set js. printable j)"
| "printable (JObj ms) = (\<forall>m\<in>set ms. c_str_ok (fst m) \<and> printable (snd m))"
| "printable _ = True"

section \<open>What the printers write\<close>

definition pb_ok :: "printbuffer \<Rightarrow> bool" where
  "pb_ok p = (case pb_buffer p of None \<Rightarrow> False | Some b \<Rightarrow> pb_offset p < length b \<and> length b \<le> INT_MAXn)"

text \<open>What stays the same.\<close>

definition pb_same :: "printbuffer \<Rightarrow> printbuffer \<Rightarrow> bool" where
  "pb_same p q \<longleftrightarrow> pb_noalloc q = pb_noalloc p \<and> pb_format q = pb_format p
     \<and> pb_al q = pb_al p \<and> pb_fill q = pb_fill p"

definition pb_bytes :: "printbuffer \<Rightarrow> string" where
  "pb_bytes p = the (pb_buffer p)"

definition pb_text :: "printbuffer \<Rightarrow> string" where
  "pb_text p = take (pb_offset p) (pb_bytes p)"

text \<open>
  \<open>reached\<close>: the text is written and the offset is behind it. \<open>wrote\<close>: the text and its terminator
  are written, and the offset is somewhere on it.
\<close>

definition reached :: "printbuffer \<Rightarrow> string \<Rightarrow> printbuffer \<Rightarrow> bool" where
  "reached p s q \<longleftrightarrow> pb_ok q \<and> pb_same p q \<and> pb_text q = pb_text p @ s"

definition wrote :: "printbuffer \<Rightarrow> string \<Rightarrow> printbuffer \<Rightarrow> bool" where
  "wrote p s q \<longleftrightarrow> pb_ok q \<and> pb_same p q \<and> pb_offset p \<le> pb_offset q \<and> pb_offset q \<le> pb_offset p + length s
     \<and> (\<exists>rest. pb_bytes q = pb_text p @ s @ NUL # rest)"

lemma pb_okE:
  assumes "pb_ok p"
  obtains b where "pb_buffer p = Some b" "pb_bytes p = b" "pb_offset p < length b" "length b \<le> INT_MAXn"
  using assms by (auto simp: pb_ok_def pb_bytes_def split: option.splits)

lemma length_pb_text: "pb_ok p \<Longrightarrow> length (pb_text p) = pb_offset p"
  by (auto simp: pb_text_def elim!: pb_okE)

lemma pb_same_refl [simp]: "pb_same p p"
  by (simp add: pb_same_def)

lemma pb_same_trans: "pb_same p q \<Longrightarrow> pb_same q r \<Longrightarrow> pb_same p r"
  by (simp add: pb_same_def)

lemma reached_refl: "pb_ok p \<Longrightarrow> reached p [] p"
  by (simp add: reached_def)

lemma reached_trans: "reached p s q \<Longrightarrow> reached q t r \<Longrightarrow> reached p (s @ t) r"
  by (auto simp: reached_def intro: pb_same_trans)

lemma reached_offset: "pb_ok p \<Longrightarrow> reached p s q \<Longrightarrow> pb_offset q = pb_offset p + length s"
  using length_pb_text [of p] length_pb_text [of q] by (auto simp: reached_def)

lemma ensure_spec:
  assumes "pb_ok p" "ensure n p = (ok, q)"
  shows "ok \<Longrightarrow> reached p [] q \<and> pb_offset q = pb_offset p \<and> pb_offset p + n + 1 \<le> length (pb_bytes q)"
    "\<lbrakk>\<forall>k. pb_al p k; \<not> pb_noalloc p; pb_offset p + n + 1 \<le> INT_MAXn\<rbrakk> \<Longrightarrow> ok"
proof -
  from assms(1) obtain b where b: "pb_buffer p = Some b" "pb_bytes p = b" "pb_offset p < length b" "length b \<le> INT_MAXn"
    by (rule pb_okE)
  have t: "take (pb_offset p) (c_realloc (pb_fill p) m b) = take (pb_offset p) b" if "pb_offset p \<le> m" for m
    using that b(3) by (simp add: take_c_realloc)
  show "ok \<Longrightarrow> reached p [] q \<and> pb_offset q = pb_offset p \<and> pb_offset p + n + 1 \<le> length (pb_bytes q)"
    using assms b
    by (auto simp: ensure_def Let_def reached_def pb_same_def pb_text_def pb_bytes_def pb_ok_def INT_MAXn_def t
        split: if_splits)
  show "\<lbrakk>\<forall>k. pb_al p k; \<not> pb_noalloc p; pb_offset p + n + 1 \<le> INT_MAXn\<rbrakk> \<Longrightarrow> ok"
    using assms b by (auto simp: ensure_def Let_def split: if_splits)
qed

lemma put_spec:
  assumes "pb_ok p" "pb_offset p + i + length s \<le> length (pb_bytes p)"
  obtains q where "put i s p = Some q" "pb_ok q" "pb_same p q" "pb_offset q = pb_offset p"
    "length (pb_bytes q) = length (pb_bytes p)"
    "pb_bytes q = take (pb_offset p + i) (pb_bytes p) @ s @ drop (pb_offset p + i + length s) (pb_bytes p)"
proof -
  from assms(1) obtain b where b: "pb_buffer p = Some b" "pb_bytes p = b" "pb_offset p < length b" "length b \<le> INT_MAXn"
    by (rule pb_okE)
  let ?q = "p\<lparr>pb_buffer := Some (take (pb_offset p + i) b @ s @ drop (pb_offset p + i + length s) b)\<rparr>"
  show thesis
    by (rule that [of ?q])
      (use assms(2) b in \<open>auto simp: put_def poke_def pb_ok_def pb_same_def pb_bytes_def\<close>)
qed

text \<open>Writing at the offset, and moving over what was written.\<close>

lemma put_reached:
  assumes "pb_ok p" "pb_offset p + length s < length (pb_bytes p)"
  obtains q where "put 0 s p = Some q" "reached p s (advance (length s) q)" "pb_format q = pb_format p"
proof -
  obtain q where q: "put 0 s p = Some q" "pb_ok q" "pb_same p q" "pb_offset q = pb_offset p"
    "length (pb_bytes q) = length (pb_bytes p)"
    "pb_bytes q = take (pb_offset p + 0) (pb_bytes p) @ s @ drop (pb_offset p + 0 + length s) (pb_bytes p)"
    by (rule put_spec [OF assms(1), of 0 s]) (use assms(2) in auto)
  have "reached p s (advance (length s) q)"
  proof -
    have ok: "pb_ok (advance (length s) q)"
      using q(2,4,5) assms(2) by (auto simp: pb_ok_def advance_def pb_bytes_def split: option.splits)
    have "take (pb_offset p + length s) (pb_bytes q) = take (pb_offset p) (pb_bytes p) @ s"
      using assms(2) by (simp add: q(6))
    then show ?thesis
      using ok q(3,4) by (simp add: reached_def pb_same_def advance_def pb_text_def pb_bytes_def)
  qed
  with q that show thesis by (simp add: pb_same_def)
qed

lemma put_wrote:
  assumes "pb_ok p" "pb_offset p + length s + 1 \<le> length (pb_bytes p)"
  obtains q where "put 0 (s @ [NUL]) p = Some q" "wrote p s q" "wrote p s (advance (length s) q)"
    "pb_offset q = pb_offset p"
proof -
  obtain q where q: "put 0 (s @ [NUL]) p = Some q" "pb_ok q" "pb_same p q" "pb_offset q = pb_offset p"
    "length (pb_bytes q) = length (pb_bytes p)"
    "pb_bytes q = take (pb_offset p + 0) (pb_bytes p) @ (s @ [NUL]) @ drop (pb_offset p + 0 + length (s @ [NUL])) (pb_bytes p)"
    by (rule put_spec [OF assms(1), of 0 "s @ [NUL]"]) (use assms(2) in auto)
  have "wrote p s q"
    using q by (auto simp: wrote_def pb_text_def)
  moreover from this have "wrote p s (advance (length s) q)"
    using q assms(2) by (auto simp: wrote_def advance_def pb_same_def pb_ok_def pb_bytes_def split: option.splits)
  ultimately show thesis using q(1,4) that by simp
qed

lemma wrote_update:
  assumes "pb_ok p" "wrote p s q" "NUL \<notin> set s"
  obtains r where "update_offset q = Some r" "reached p s r"
proof -
  from assms obtain rest where w: "pb_ok q" "pb_same p q" "pb_offset p \<le> pb_offset q"
    "pb_offset q \<le> pb_offset p + length s" "pb_bytes q = pb_text p @ s @ NUL # rest"
    by (auto simp: wrote_def)
  obtain b where b: "pb_buffer q = Some b" "pb_bytes q = b" "pb_offset q < length b" "length b \<le> INT_MAXn"
    using w(1) by (rule pb_okE)
  note l = length_pb_text [OF assms(1)]
  define k where "k = pb_offset q - pb_offset p"
  have d: "drop (pb_offset q) b = drop k s @ NUL # rest"
    using w(3-5) b(2) l by (simp add: k_def)
  have "NUL \<notin> set (drop k s)" using assms(3) by (auto dest: in_set_dropD)
  then have t: "takeWhile (\<lambda>c. c \<noteq> NUL) (drop (pb_offset q) b) = drop k s"
    unfolding d by (subst takeWhile_append2) auto
  have u: "update_offset q = Some (advance (length s - k) q)"
    unfolding update_offset_def b(1) option.case Let_def t using d by simp
  have off: "pb_offset q + (length s - k) = pb_offset p + length s" using w(3,4) by (simp add: k_def)
  have "reached p s (advance (length s - k) q)"
    using w b off l by (auto simp: reached_def advance_def pb_same_def pb_text_def pb_bytes_def pb_ok_def)
  with u that show thesis by blast
qed

lemma reached_wrote:
  assumes "pb_ok p" "reached p s q" "wrote q t r"
  shows "wrote p (s @ t) r"
  using assms reached_offset [OF assms(1,2)]
  by (auto simp: wrote_def reached_def intro: pb_same_trans)

section \<open>Strings\<close>

lemma esc_letter_cases:
  "esc_letter c \<noteq> None \<longleftrightarrow> c \<in> {CHR 0x5C, CHR 0x22, CHR 0x08, CHR 0x0C, CHR 0x0A, CHR 0x0D, CHR 0x09}"
  by (auto simp: esc_letter_def)

lemma plain_char:
  "(\<not> ctl_char c \<and> c \<noteq> CHR 0x22 \<and> c \<noteq> CHR 0x5C) \<longleftrightarrow> esc_letter c = None \<and> \<not> ctl_char c"
  by (auto simp: esc_letter_def ctl_char_def)

lemma length_esc: "length (esc c) = 1 + escape_characters c"
  by (auto simp: esc_def escape_characters_def hex4_def split: option.splits)

lemma length_esc_string: "length (esc_string s) = length s + sum_list (map escape_characters s)"
  by (induction s) (simp_all add: esc_string_def length_esc)

lemma esc_string_id: "sum_list (map escape_characters s) = 0 \<Longrightarrow> esc_string s = s"
  by (induction s) (auto simp: esc_string_def esc_def escape_characters_def split: option.splits if_splits)

lemma print_chars_spec:
  assumes "pos + length (esc_string s) + 1 \<le> length b"
  shows "\<exists>rest. print_chars s pos b = Some (take pos b @ esc_string s @ rest)
    \<and> pos + length (esc_string s) + length rest = length b"
  using assms
proof (induction s pos b rule: print_chars.induct)
  case (1 pos b)
  then show ?case by (auto simp: esc_string_def intro!: exI [of _ "drop pos b"])
next
  case (2 c cs pos b)
  have es: "esc_string (c # cs) = esc c @ esc_string cs" by (simp add: esc_string_def)
  have step: "\<exists>rest. print_chars cs (pos + length (esc c)) b' = Some (take pos b @ esc_string (c # cs) @ rest)
      \<and> pos + length (esc_string (c # cs)) + length rest = length b"
    if "\<exists>rest. print_chars cs (pos + length (esc c)) b' = Some (take (pos + length (esc c)) b' @ esc_string cs @ rest)
      \<and> pos + length (esc c) + length (esc_string cs) + length rest = length b'"
      "take (pos + length (esc c)) b' = take pos b @ esc c" "length b' = length b" for b'
    using that by (auto simp: es)
  consider (plain) "esc_letter c = None" "\<not> ctl_char c" | (letter) e where "esc_letter c = Some e"
    | (code) "esc_letter c = None" "ctl_char c" by (cases "esc_letter c") auto
  then show ?case
  proof cases
    case plain
    note pc = plain_char [THEN iffD2, OF conjI, OF plain]
    have e: "esc c = [c]" using plain by (simp add: esc_def)
    define b' where "b' = take pos b @ [c] @ drop (pos + 1) b"
    have k: "poke b pos [c] = Some b'" using "2.prems" by (simp add: poke_def b'_def es e)
    have l: "length b' = length b" "take (pos + 1) b' = take pos b @ [c]" using "2.prems" by (auto simp: b'_def es e)
    have "pos + 1 + length (esc_string cs) + 1 \<le> length b'" using "2.prems" l by (simp add: es e)
    note ih = "2.IH"(1) [OF pc k this]
    have "print_chars (c # cs) pos b = print_chars cs (pos + length (esc c)) b'" using pc k e by simp
    then show ?thesis using step [of b'] ih l e by simp
  next
    case (letter e)
    have pc: "\<not> (\<not> ctl_char c \<and> c \<noteq> CHR 0x22 \<and> c \<noteq> CHR 0x5C)" unfolding plain_char using letter by simp
    have e: "esc c = [CHR 0x5C, e]" using letter by (simp add: esc_def)
    define b1 where "b1 = take pos b @ [CHR 0x5C] @ drop (pos + 1) b"
    define b' where "b' = take (pos + 1) b1 @ [e] @ drop (pos + 2) b1"
    have k: "poke b pos [CHR 0x5C] = Some b1" "poke b1 (pos + 1) [e] = Some b'"
      using "2.prems" by (auto simp: poke_def b1_def b'_def es e)
    have l: "length b' = length b" "take (pos + 2) b' = take pos b @ esc c"
      using "2.prems" by (auto simp: b'_def b1_def es e)
    have "pos + 2 + length (esc_string cs) + 1 \<le> length b'" using "2.prems" l by (simp add: es e)
    note ih = "2.IH"(3) [OF pc k(1) letter k(2) this]
    have n: "pos + length (esc c) = pos + 2" by (simp add: e)
    have "print_chars (c # cs) pos b = print_chars cs (pos + length (esc c)) b'"
      unfolding n print_chars.simps(2) if_not_P [OF pc] k(1) letter by (simp del: print_chars.simps add: k(2) [simplified])
    then show ?thesis using step [of b', unfolded n, OF ih l(2) l(1)] by (simp only: n)
  next
    case code
    have pc: "\<not> (\<not> ctl_char c \<and> c \<noteq> CHR 0x22 \<and> c \<noteq> CHR 0x5C)" using code by simp
    have e: "esc c = CHR 0x5C # CHR ''u'' # hex4 (of_char c)" using code by (simp add: esc_def)
    have h4: "length (hex4 n) = 4" for n by (simp add: hex4_def)
    define b1 where "b1 = take pos b @ [CHR 0x5C] @ drop (pos + 1) b"
    define b' where "b' = take (pos + 1) b1 @ (CHR ''u'' # hex4 (of_char c) @ [NUL]) @ drop (pos + 7) b1"
    have k: "poke b pos [CHR 0x5C] = Some b1" "poke b1 (pos + 1) (CHR ''u'' # hex4 (of_char c) @ [NUL]) = Some b'"
      using "2.prems" by (auto simp: poke_def b1_def b'_def es e h4)
    have l: "length b' = length b" "take (pos + 6) b' = take pos b @ esc c"
      using "2.prems" by (auto simp: b'_def b1_def es e h4)
    have "pos + 6 + length (esc_string cs) + 1 \<le> length b'" using "2.prems" l by (simp add: es e h4)
    note ih = "2.IH"(2) [OF pc k(1) code(1) k(2) this]
    have n: "pos + length (esc c) = pos + 6" by (simp add: e h4)
    have "print_chars (c # cs) pos b = print_chars cs (pos + length (esc c)) b'"
      unfolding n print_chars.simps(2) if_not_P [OF pc] k(1) code(1) by (simp del: print_chars.simps add: k(2) [simplified])
    then show ?thesis using step [of b', unfolded n, OF ih l(2) l(1)] by (simp only: n)
  qed
qed

section \<open>Outcomes\<close>

text \<open>
  A printer's outcome: it is defined; if it reports success then the text is written (\<open>wrote\<close>, or
  \<open>reached\<close> for the loops); and it succeeds when the allocator does and the text fits an \<open>int\<close>.
\<close>

definition post :: "bool \<Rightarrow> printbuffer \<Rightarrow> string \<Rightarrow> printbuffer \<Rightarrow> bool" where
  "post w p s q = (if w then wrote p s q else reached p s q)"

definition fits :: "printbuffer \<Rightarrow> string \<Rightarrow> bool" where
  "fits p s \<longleftrightarrow> (\<forall>k. pb_al p k) \<and> \<not> pb_noalloc p \<and> pb_offset p + length s + 3 \<le> INT_MAXn"

definition outcome :: "bool \<Rightarrow> printbuffer \<Rightarrow> string \<Rightarrow> (bool \<times> printbuffer) option \<Rightarrow> bool" where
  "outcome w p s r = (case r of None \<Rightarrow> False
     | Some (ok, q) \<Rightarrow> (ok \<longrightarrow> post w p s q) \<and> (fits p s \<longrightarrow> ok))"

lemma outcomeI: "post w p s q \<Longrightarrow> outcome w p s (Some (True, q))"
  by (simp add: outcome_def)

lemma outcome_done: "wrote p s q \<Longrightarrow> outcome True p s (done_ok (Some q))"
  by (simp add: done_ok_def outcome_def post_def)

lemma fits_step: "pb_ok p \<Longrightarrow> reached p s q \<Longrightarrow> fits p (s @ t) \<Longrightarrow> fits q t"
  using reached_offset [of p s q] by (auto simp: fits_def reached_def pb_same_def)

lemma post_step: "pb_ok p \<Longrightarrow> reached p s q \<Longrightarrow> post w q t r \<Longrightarrow> post w p (s @ t) r"
  by (auto simp: post_def intro: reached_wrote reached_trans split: if_splits)

lemma outcome_step:
  assumes "pb_ok p" "reached p s q" "outcome w q t r"
  shows "outcome w p (s @ t) r"
  using assms fits_step [OF assms(1,2), of t] post_step [OF assms(1,2), of w t]
  by (auto simp: outcome_def split: option.splits)

lemma outcome_ensure:
  assumes ok: "pb_ok p" and n: "n \<le> length s + 2"
    and f: "\<And>q. reached p [] q \<Longrightarrow> pb_offset q = pb_offset p \<Longrightarrow> pb_offset q + n + 1 \<le> length (pb_bytes q)
      \<Longrightarrow> outcome w q s (f q)"
  shows "outcome w p s (if_ok (Some (ensure n p)) f)"
proof -
  obtain e q where e: "ensure n p = (e, q)" by fastforce
  note es = ensure_spec [OF ok e]
  show ?thesis
  proof (cases e)
    case True
    then have q: "reached p [] q" "pb_offset q = pb_offset p" "pb_offset q + n + 1 \<le> length (pb_bytes q)"
      using es(1) by auto
    have "outcome w p ([] @ s) (f q)" using outcome_step [OF ok q(1) f [OF q]] .
    then show ?thesis using True e by (simp add: if_ok_def)
  next
    case False
    have "\<not> fits p s" using False es(2) n by (auto simp: fits_def)
    then show ?thesis using False e by (simp add: if_ok_def outcome_def)
  qed
qed

lemma outcome_seq:
  assumes ok: "pb_ok p" and m: "outcome True p s m" and nul: "NUL \<notin> set s"
    and f: "\<And>q. reached p s q \<Longrightarrow> outcome w q t (f q)"
  shows "outcome w p (s @ t) (if_ok m (\<lambda>p. do { p \<leftarrow> update_offset p; f p }))"
proof -
  from m obtain e q where e: "m = Some (e, q)" "e \<Longrightarrow> wrote p s q" "fits p s \<Longrightarrow> e"
    by (auto simp: outcome_def post_def split: option.splits)
  show ?thesis
  proof (cases e)
    case True
    obtain r where r: "update_offset q = Some r" "reached p s r"
      using wrote_update [OF ok e(2) [OF True] nul] .
    from outcome_step [OF ok r(2) f [OF r(2)]] show ?thesis
      using True e(1) r(1) by (simp add: if_ok_def)
  next
    case False
    have "\<not> fits p (s @ t)" using False e(3) by (auto simp: fits_def)
    then show ?thesis using False e(1) by (simp add: if_ok_def outcome_def)
  qed
qed

text \<open>A loop followed by the rest.\<close>

lemma outcome_loop:
  assumes ok: "pb_ok p" and m: "outcome False p s m"
    and f: "\<And>q. reached p s q \<Longrightarrow> outcome w q t (f q)"
  shows "outcome w p (s @ t) (if_ok m f)"
proof -
  from m obtain e q where e: "m = Some (e, q)" "e \<Longrightarrow> reached p s q" "fits p s \<Longrightarrow> e"
    by (auto simp: outcome_def post_def split: option.splits)
  show ?thesis
  proof (cases e)
    case True
    from outcome_step [OF ok e(2) f, OF True e(2), OF True] show ?thesis
      using True e(1) by (simp add: if_ok_def)
  next
    case False
    have "\<not> fits p (s @ t)" using False e(3) by (auto simp: fits_def)
    then show ?thesis using False e(1) by (simp add: if_ok_def outcome_def)
  qed
qed

text \<open>Writing text at the offset and moving over it.\<close>

lemma outcome_put:
  assumes ok: "pb_ok p" and len: "pb_offset p + length s < length (pb_bytes p)"
    and f: "\<And>q. reached p s (advance (length s) q) \<Longrightarrow> pb_format q = pb_format p
      \<Longrightarrow> outcome w (advance (length s) q) t (f q)"
  shows "outcome w p (s @ t) (do { p \<leftarrow> put 0 s p; f p })"
proof -
  obtain q where q: "put 0 s p = Some q" "reached p s (advance (length s) q)" "pb_format q = pb_format p"
    using put_reached [OF ok len] .
  from outcome_step [OF ok q(2) f [OF q(2-3)]] show ?thesis using q(1) by simp
qed

lemma reached_ok: "reached p s q \<Longrightarrow> pb_ok q"
  by (simp add: reached_def)

lemma outcome_text:
  assumes "pb_ok p"
  shows "outcome True p s (print_text s p)"
  unfolding print_text_def
proof (rule outcome_ensure [OF assms])
  fix q
  assume q: "reached p [] q" "pb_offset q + (length s + 1) + 1 \<le> length (pb_bytes q)"
  obtain r where "put 0 (s @ [NUL]) q = Some r" "wrote q s r"
    by (rule put_wrote [OF reached_ok [OF q(1)], of s]) (use q(2) in auto)
  then show "outcome True q s (done_ok (put 0 (s @ [NUL]) q))"
    using outcome_done by simp
qed simp

definition quote :: "string \<Rightarrow> string" where
  "quote s = [CHR 0x22] @ esc_string s @ [CHR 0x22]"

lemma quote_put:
  assumes ok: "pb_ok p" and len: "pb_offset p + length (esc_string s) + 4 \<le> length (pb_bytes p)"
  shows "\<exists>q. write_quoted s p = Some q \<and> wrote p (quote s) q"
proof -
  define off where "off = pb_offset p"
  let ?E = "esc_string s"
  have el: "length s + sum_list (map escape_characters s) = length ?E" by (simp add: length_esc_string)
  obtain q1 where q1: "put 0 [CHR 0x22] p = Some q1" "pb_ok q1" "pb_same p q1" "pb_offset q1 = off"
    "length (pb_bytes q1) = length (pb_bytes p)"
    "pb_bytes q1 = take (pb_offset p + 0) (pb_bytes p) @ [CHR 0x22] @ drop (pb_offset p + 0 + length [CHR 0x22]) (pb_bytes p)"
    unfolding off_def by (rule put_spec [OF ok, of 0 "[CHR 0x22]"]) (use len in auto)
  have t1: "take (off + 1) (pb_bytes q1) = pb_text p @ [CHR 0x22]"
    using len by (simp add: q1(6) pb_text_def off_def)
  have fin: "\<exists>q. put (length ?E + 1) [CHR 0x22, NUL] r = Some q \<and> wrote p (quote s) q"
    if r: "pb_ok r" "pb_same p r" "pb_offset r = off" "length (pb_bytes r) = length (pb_bytes p)"
      "take (off + 1 + length ?E) (pb_bytes r) = pb_text p @ [CHR 0x22] @ ?E" for r
  proof -
    obtain q where q: "put (length ?E + 1) [CHR 0x22, NUL] r = Some q" "pb_ok q" "pb_same r q" "pb_offset q = pb_offset r"
      "pb_bytes q = take (pb_offset r + (length ?E + 1)) (pb_bytes r) @ [CHR 0x22, NUL]
         @ drop (pb_offset r + (length ?E + 1) + length [CHR 0x22, NUL]) (pb_bytes r)"
      by (rule put_spec [OF r(1), of "length ?E + 1" "[CHR 0x22, NUL]"]) (use len r in \<open>auto simp: off_def\<close>)
    have "pb_bytes q = pb_text p @ quote s @ NUL # drop (Suc (Suc (Suc (off + length ?E)))) (pb_bytes r)"
      using q(5) r(3,5) by (simp add: quote_def)
    then have "\<exists>rest. pb_bytes q = pb_text p @ quote s @ NUL # rest" by blast
    then have "wrote p (quote s) q"
      using pb_same_trans [OF r(2) q(3)] q(2,4) r(3) by (simp add: wrote_def off_def)
    with q(1) show ?thesis by blast
  qed
  show ?thesis
  proof (cases "sum_list (map escape_characters s) = 0")
    case True
    have E: "?E = s" using True by (rule esc_string_id)
    obtain q2 where q2: "put 1 s q1 = Some q2" "pb_ok q2" "pb_same q1 q2" "pb_offset q2 = pb_offset q1"
      "length (pb_bytes q2) = length (pb_bytes q1)"
      "pb_bytes q2 = take (pb_offset q1 + 1) (pb_bytes q1) @ s @ drop (pb_offset q1 + 1 + length s) (pb_bytes q1)"
      by (rule put_spec [OF q1(2), of 1 s]) (use len q1 E in \<open>auto simp: off_def\<close>)
    have t2: "take (off + 1 + length ?E) (pb_bytes q2) = pb_text p @ [CHR 0x22] @ ?E"
      using q2(6) t1 q1(4,5) len E length_pb_text [OF ok] by (simp add: off_def)
    have "\<exists>q. put (length ?E + 1) [CHR 0x22, NUL] q2 = Some q \<and> wrote p (quote s) q"
      using fin [OF q2(2) pb_same_trans [OF q1(3) q2(3)] _ _ t2] q2(4,5) q1(4,5) by simp
    then show ?thesis unfolding write_quoted_def Let_def if_P [OF True] using q1(1) q2(1) el by simp
  next
    case False
    obtain b where b: "pb_buffer q1 = Some b" "pb_bytes q1 = b" using q1(2) by (rule pb_okE)
    have "off + 1 + length ?E + 1 \<le> length b" using len q1(5) b by (simp add: off_def)
    then obtain rest where rest: "print_chars s (off + 1) b = Some (take (off + 1) b @ ?E @ rest)"
      "off + 1 + length ?E + length rest = length b"
      using print_chars_spec by blast
    define r where "r = q1\<lparr>pb_buffer := Some (take (off + 1) b @ ?E @ rest)\<rparr>"
    have lr: "length (pb_bytes r) = length b" "pb_offset r = off" "pb_same p r"
      using rest(2) q1(3,4) by (auto simp: r_def pb_bytes_def pb_same_def)
    have "pb_ok r" using q1(2,4) b lr(1) by (auto simp: pb_ok_def r_def pb_bytes_def)
    moreover have "take (off + 1 + length ?E) (pb_bytes r) = pb_text p @ [CHR 0x22] @ ?E"
      using t1 b rest(2) length_pb_text [OF ok] by (simp add: r_def pb_bytes_def off_def)
    ultimately have "\<exists>q. put (length ?E + 1) [CHR 0x22, NUL] r = Some q \<and> wrote p (quote s) q"
      using fin [of r] lr q1(5) b by simp
    then show ?thesis unfolding write_quoted_def Let_def if_not_P [OF False] using q1(1,4) b(1) rest(1) el by (simp add: r_def)
  qed
qed


lemma outcome_string:
  assumes ok: "pb_ok p" and s: "input_text m n = Some s"
  shows "outcome True p (quote s) (print_string_ptr (Some m) n p)"
proof -
  let ?n = "length s + sum_list (map escape_characters s) + 3"
  have "outcome True p (quote s) (if_ok (Some (ensure ?n p)) (\<lambda>p. done_ok (write_quoted s p)))"
  proof (rule outcome_ensure [OF ok])
    show "?n \<le> length (quote s) + 2" by (simp add: quote_def length_esc_string)
    fix q
    assume q: "reached p [] q" "pb_offset q + ?n + 1 \<le> length (pb_bytes q)"
    then have "pb_offset q + length (esc_string s) + 4 \<le> length (pb_bytes q)"
      by (simp add: length_esc_string)
    from quote_put [OF reached_ok [OF q(1)] this] show "outcome True q (quote s) (done_ok (write_quoted s q))"
      using outcome_done by auto
  qed
  then show ?thesis using s by (simp add: print_string_ptr_def)
qed

lemma outcome_no_string:
  assumes "pb_ok p"
  shows "outcome True p (quote []) (print_string_ptr None n p)"
proof -
  have "outcome True p (quote []) (print_text (quote []) p)" by (rule outcome_text [OF assms])
  moreover have "quote [] = [CHR 0x22, CHR 0x22]" by (simp add: quote_def esc_string_def)
  ultimately show ?thesis by (simp add: print_text_def print_string_ptr_def numeral_3_eq_3)
qed

lemma takeWhile_nul: "NUL \<notin> set t \<Longrightarrow> takeWhile (\<lambda>c. c \<noteq> NUL) (t @ NUL # r) = t"
  by (induction t) auto

lemma outcome_key:
  assumes "pb_ok p" "c_str_ok s"
  shows "outcome True p (quoted s) (print_string_ptr (c_string s) 0 p)"
proof (cases s)
  case None
  then show ?thesis
    using outcome_no_string [OF assms(1), of 0] by (simp add: c_string_def quoted_def quote_def)
next
  case (Some t)
  then have "input_text (t @ [NUL]) 0 = Some t" using assms(2)
    by (simp add: input_text_def c_str_ok_def takeWhile_nul)
  from outcome_string [OF assms(1) this] Some show ?thesis by (simp add: c_string_def quoted_def quote_def)
qed

section \<open>Numbers\<close>

lemma length_fmt_g:
  assumes "dbl_ok (Fin s q)" "0 < n" "n \<le> 17"
  shows "length (fmt_g n (Fin s q)) \<le> 24"
  using length_fmt_mag [OF assms(2,1)] assms(3) by (simp add: fmt_sign_def)

lemma num_text_cases:
  "num_text d = ''null'' \<or> num_text d = fmt_g 15 d \<or> num_text d = fmt_g 17 d"
  by (auto simp: num_text_def Let_def split: prod.splits)

lemma fmt_g_chars: "c \<in> set (fmt_g n (Fin s q)) \<Longrightarrow> num_char c"
  using fmt_mag_chars [of n q] by (auto simp: fmt_sign_def num_char_def split: if_splits)

lemma num_char_not_nul: "num_char c \<Longrightarrow> c \<noteq> NUL"
  by (auto simp: num_char_def is_digit_def)

lemma num_text_no_nul: "NUL \<notin> set (num_text d)"
proof (cases d)
  case (Fin s q)
  then have "num_text d = fmt_g 15 d \<or> num_text d = fmt_g 17 d"
    by (auto simp: num_text_def Let_def split: prod.splits)
  with Fin show ?thesis using fmt_g_chars num_char_not_nul by metis
qed (simp_all add: num_text_def)

lemma print_number_text:
  assumes "dbl_ok d"
  shows "print_number d p = if_ok (Some (ensure (length (num_text d) + 1) p))
    (\<lambda>p. do { p \<leftarrow> put 0 (num_text d @ [NUL]) p; Some (True, advance (length (num_text d)) p) })"
proof (cases d)
  case (Fin s q)
  have l: "length (fmt_g 15 d) \<le> 24" "length (fmt_g 17 d) \<le> 24"
    using length_fmt_g [of s q 15] length_fmt_g [of s q 17] assms Fin by auto
  obtain t k where st: "strtod (fmt_g 15 d) = (t, k)" by fastforce
  show ?thesis
  proof (cases "k = 0 \<or> \<not> dbl_eq t d")
    case True
    then have n: "num_text d = fmt_g 17 d" using Fin st by (simp add: num_text_def)
    show ?thesis using Fin l st True unfolding n by (simp add: print_number_def number_buffer_def del: fmt_g.simps)
  next
    case False
    then have n: "num_text d = fmt_g 15 d" using Fin st by (simp add: num_text_def)
    show ?thesis using Fin l st False unfolding n by (simp add: print_number_def number_buffer_def del: fmt_g.simps)
  qed
qed (simp_all add: print_number_def num_text_def number_buffer_def)

lemma outcome_number:
  assumes ok: "pb_ok p" and d: "dbl_ok d"
  shows "outcome True p (num_text d) (print_number d p)"
  unfolding print_number_text [OF d]
proof (rule outcome_ensure [OF ok])
  fix q
  assume q: "reached p [] q" "pb_offset q + (length (num_text d) + 1) + 1 \<le> length (pb_bytes q)"
  obtain r where "put 0 (num_text d @ [NUL]) q = Some r" "wrote q (num_text d) (advance (length (num_text d)) r)"
    by (rule put_wrote [OF reached_ok [OF q(1)], of "num_text d"]) (use q(2) in auto)
  then show "outcome True q (num_text d) (do { p \<leftarrow> put 0 (num_text d @ [NUL]) q; Some (True, advance (length (num_text d)) p) })"
    by (simp add: outcome_def post_def)
qed simp

section \<open>Trees\<close>

lemma esc_no_nul: "NUL \<notin> set (esc c)"
proof -
  have "hex_digit d \<noteq> NUL" if "d < 16" for d
    using that by (auto simp: hex_digit_def dest: arg_cong [where f = "of_char :: char \<Rightarrow> nat"])
  then show ?thesis
    by (auto simp: esc_def hex4_def ctl_char_def esc_letter_def dest: sym split: option.splits if_splits)
qed

lemma quoted_no_nul: "NUL \<notin> set (quoted s)"
  using esc_no_nul by (auto simp: quoted_def esc_string_def)

lemma comma_list_no_nul: "(\<And>s. s \<in> set ss \<Longrightarrow> NUL \<notin> set s) \<Longrightarrow> NUL \<notin> set (comma_list ss)"
  by (induction ss rule: comma_list.induct) auto

lemma json_text_no_nul: "printable j \<Longrightarrow> NUL \<notin> set (json_text j)"
proof (induction j)
  case (JArr js)
  then have "NUL \<notin> set (comma_list (map json_text js))" by (intro comma_list_no_nul) auto
  then show ?case by simp
next
  case (JObj ms)
  have "NUL \<notin> set (comma_list (map (\<lambda>(k, v). quoted k @ '':'' @ json_text v) ms))"
  proof (rule comma_list_no_nul)
    fix s assume "s \<in> set (map (\<lambda>(k, v). quoted k @ '':'' @ json_text v) ms)"
    then obtain k v where "(k, v) \<in> set ms" "s = quoted k @ '':'' @ json_text v" by auto
    moreover from this have "NUL \<notin> set (json_text v)" using JObj by force
    ultimately show "NUL \<notin> set s" using quoted_no_nul by auto
  qed
  then show ?case by simp
qed (auto simp: num_text_no_nul quoted_no_nul c_str_ok_def split: option.splits)

lemma pb_ok_depth [simp]: "pb_ok (p\<lparr>pb_depth := d\<rparr>) = pb_ok p"
  by (simp add: pb_ok_def split: option.split)

lemma reached_depth [simp]:
  "reached p s (q\<lparr>pb_depth := d\<rparr>) = reached p s q" "reached (p\<lparr>pb_depth := d\<rparr>) s q = reached p s q"
  "wrote p s (q\<lparr>pb_depth := d\<rparr>) = wrote p s q" "wrote (p\<lparr>pb_depth := d\<rparr>) s q = wrote p s q"
  "fits (p\<lparr>pb_depth := d\<rparr>) s = fits p s"
  by (simp_all add: reached_def wrote_def pb_same_def pb_text_def pb_bytes_def fits_def)

lemma outcome_depth [simp]: "outcome w (p\<lparr>pb_depth := d\<rparr>) s r = outcome w p s r"
  by (simp add: outcome_def post_def split: option.split)

lemma reached_format: "reached p s q \<Longrightarrow> pb_format q = pb_format p"
  by (simp add: reached_def pb_same_def)

text \<open>The closing bracket.\<close>

lemma outcome_close:
  assumes ok: "pb_ok p"
  shows "outcome True p [c] (if_ok (Some (ensure 2 p)) (\<lambda>p. do {
     p \<leftarrow> put 0 [c, NUL] p; Some (True, p\<lparr>pb_depth := f p\<rparr>) }))"
proof (rule outcome_ensure [OF ok])
  fix q
  assume q: "reached p [] q" "pb_offset q + 2 + 1 \<le> length (pb_bytes q)"
  obtain r where "put 0 ([c] @ [NUL]) q = Some r" "wrote q [c] r"
    by (rule put_wrote [OF reached_ok [OF q(1)], of "[c]"]) (use q(2) in auto)
  then show "outcome True q [c] (do { p \<leftarrow> put 0 [c, NUL] q; Some (True, p\<lparr>pb_depth := f p\<rparr>) })"
    by (simp add: outcome_def post_def)
qed simp

definition prints :: "cjson \<Rightarrow> bool" where
  "prints i \<longleftrightarrow> (\<forall>p. pb_ok p \<longrightarrow> \<not> pb_format p \<longrightarrow> printable (jval i)
     \<longrightarrow> outcome True p (json_text (jval i)) (print_value i p))"

lemma wrote_reached:
  assumes "pb_ok p" "wrote p s q" "pb_offset q = pb_offset p + length s"
  shows "reached p s q"
  using assms length_pb_text [OF assms(1)] by (auto simp: wrote_def reached_def pb_text_def [of q])

text \<open>Writing text with its terminator and moving over the text.\<close>

lemma outcome_put_nul:
  assumes ok: "pb_ok p" and len: "pb_offset p + length s + 1 \<le> length (pb_bytes p)"
    and f: "\<And>q. reached p s (advance (length s) q) \<Longrightarrow> outcome w (advance (length s) q) t (f q)"
  shows "outcome w p (s @ t) (do { p \<leftarrow> put 0 (s @ [NUL]) p; f p })"
proof -
  obtain q where q: "put 0 (s @ [NUL]) p = Some q" "wrote p s q" "wrote p s (advance (length s) q)"
    and "pb_offset q = pb_offset p"
    using put_wrote [OF ok len] .
  then have "reached p s (advance (length s) q)"
    by (intro wrote_reached [OF ok]) (simp_all add: advance_def)
  from outcome_step [OF ok this f [OF this]] show ?thesis using q(1) by simp
qed

lemma outcome_elements:
  assumes "\<And>c. c \<in> set cs \<Longrightarrow> prints c \<and> printable (jval c)" "pb_ok p" "\<not> pb_format p"
  shows "outcome False p (comma_list (map (\<lambda>c. json_text (jval c)) cs)) (print_elements cs p)"
  using assms
proof (induction cs arbitrary: p)
  case Nil
  then show ?case by (simp add: outcome_def post_def reached_refl)
next
  case (Cons c cs)
  have pc: "outcome True p (json_text (jval c)) (print_value c p)"
    using Cons.prems by (auto simp: prints_def)
  have nul: "NUL \<notin> set (json_text (jval c))" using Cons.prems(1) json_text_no_nul by auto
  let ?T = "comma_list (map (\<lambda>c. json_text (jval c)) cs)"
  let ?sep = "if cs = [] then [] else '','' :: string"
  have "outcome False p (json_text (jval c) @ ?sep @ ?T) (print_elements (c # cs) p)"
    unfolding print_elements.simps(2)
  proof (rule outcome_seq [OF Cons.prems(2) pc nul])
    fix q
    assume q: "reached p (json_text (jval c)) q"
    then have qf: "\<not> pb_format q" "pb_ok q" using Cons.prems(3) reached_format reached_ok by auto
    have sep: "outcome False q ('','' @ ?T) (if_ok (Some (ensure 2 q)) (\<lambda>p. do {
        p \<leftarrow> put 0 ((if pb_format p then '', '' else '','') @ [NUL]) p; print_elements cs (advance 1 p) }))"
    proof (rule outcome_ensure [OF qf(2)])
      fix r
      assume r: "reached q [] r" "pb_offset r + 2 + 1 \<le> length (pb_bytes r)"
      have rf: "\<not> pb_format r" using r(1) qf(1) reached_format by auto
      have "outcome False r ('','' @ ?T) (do { p \<leftarrow> put 0 ('','' @ [NUL]) r; print_elements cs (advance 1 p) })"
      proof (rule outcome_put_nul [OF reached_ok [OF r(1)]])
        fix r'
        assume r': "reached r '','' (advance (length '','') r')"
        show "outcome False (advance (length '','') r') ?T (print_elements cs (advance 1 r'))"
          using Cons.IH [of "advance 1 r'"] Cons.prems(1) r' rf reached_ok reached_format by fastforce
      qed (use r(2) in simp)
      then show "outcome False r ('','' @ ?T) (do {
          p \<leftarrow> put 0 ((if pb_format r then '', '' else '','') @ [NUL]) r; print_elements cs (advance 1 p) })"
        using rf by simp
    qed simp
    show "outcome False q (?sep @ ?T)
        (if cs \<noteq> [] then let len = if pb_format q then 2 else 1 in
           if_ok (Some (ensure (len + 1) q)) (\<lambda>p. do {
             p \<leftarrow> put 0 ((if pb_format p then '', '' else '','') @ [NUL]) p; print_elements cs (advance len p) })
         else print_elements cs q)"
      using sep qf Cons.IH [OF Cons.prems(1) qf(2,1)] by (auto simp: Let_def numeral_2_eq_2)
  qed
  then show ?case by (cases cs) auto
qed


lemma outcome_members:
  assumes "\<And>c. c \<in> set cs \<Longrightarrow> prints c \<and> printable (jval c) \<and> c_str_ok (key_string (i_string c))"
    "pb_ok p" "\<not> pb_format p"
  shows "outcome False p (comma_list (map (\<lambda>c. quoted (key_string (i_string c)) @ '':'' @ json_text (jval c)) cs))
    (print_members cs p)"
  using assms
proof (induction cs arbitrary: p)
  case Nil
  then show ?case by (simp add: outcome_def post_def reached_refl)
next
  case (Cons c cs)
  let ?K = "quoted (key_string (i_string c))"
  let ?V = "json_text (jval c)"
  let ?T = "comma_list (map (\<lambda>c. quoted (key_string (i_string c)) @ '':'' @ json_text (jval c)) cs)"
  let ?sep = "if cs = [] then [] else '','' :: string"
  have key: "outcome True p ?K (print_string_ptr (c_string (key_string (i_string c))) 0 p)"
    using outcome_key Cons.prems by auto
  have nul: "NUL \<notin> set ?V" using Cons.prems(1) json_text_no_nul by auto
  have tail: "outcome False q (?sep @ ?T) (let len = (if pb_format q then 1 else 0) + (if cs \<noteq> [] then 1 else 0) in
      if_ok (Some (ensure (len + 1) q)) (\<lambda>p. do {
        p \<leftarrow> put 0 ((if cs \<noteq> [] then '','' else []) @ (if pb_format p then [CHR 0x0A] else []) @ [NUL]) p;
        print_members cs (advance len p) }))" if q: "pb_ok q" "\<not> pb_format q" for q
  proof -
    have "outcome False q (?sep @ ?T) (if_ok (Some (ensure (length ?sep + 1) q)) (\<lambda>p. do {
        p \<leftarrow> put 0 ((if cs \<noteq> [] then '','' else []) @ (if pb_format p then [CHR 0x0A] else []) @ [NUL]) p;
        print_members cs (advance (length ?sep) p) }))"
    proof (rule outcome_ensure [OF q(1)])
      fix r
      assume r: "reached q [] r" "pb_offset r + (length ?sep + 1) + 1 \<le> length (pb_bytes r)"
      have rf: "\<not> pb_format r" using r(1) q(2) reached_format by auto
      have "outcome False r (?sep @ ?T) (do { p \<leftarrow> put 0 (?sep @ [NUL]) r; print_members cs (advance (length ?sep) p) })"
      proof (rule outcome_put_nul [OF reached_ok [OF r(1)]])
        fix r'
        assume "reached r ?sep (advance (length ?sep) r')"
        then have "pb_ok (advance (length ?sep) r')" "\<not> pb_format (advance (length ?sep) r')"
          using rf reached_ok reached_format by auto
        then show "outcome False (advance (length ?sep) r') ?T (print_members cs (advance (length ?sep) r'))"
          using Cons.IH Cons.prems(1) by (meson list.set_intros(2))
      qed (use r(2) in simp)
      then show "outcome False r (?sep @ ?T) (do {
        p \<leftarrow> put 0 ((if cs \<noteq> [] then '','' else []) @ (if pb_format r then [CHR 0x0A] else []) @ [NUL]) r;
        print_members cs (advance (length ?sep) p) })"
        using rf by (auto split: if_splits)
    qed simp
    then show ?thesis using q(2) by (auto simp: Let_def split: if_splits)
  qed
  have val: "outcome False q (?V @ ?sep @ ?T) (if_ok (print_value c q) (\<lambda>p. do {
           p \<leftarrow> update_offset p;
           let len = (if pb_format p then 1 else 0) + (if cs \<noteq> [] then 1 else 0);
           if_ok (Some (ensure (len + 1) p)) (\<lambda>p. do {
             p \<leftarrow> put 0 ((if cs \<noteq> [] then '','' else []) @ (if pb_format p then [CHR 0x0A] else []) @ [NUL]) p;
             print_members cs (advance len p) }) }))" if q: "pb_ok q" "\<not> pb_format q" for q
  proof (rule outcome_seq [OF q(1) _ nul])
    show "outcome True q ?V (print_value c q)" using Cons.prems(1) q by (auto simp: prints_def)
  qed (use q reached_ok reached_format tail in auto)
  have "outcome False p (?K @ ('':'' @ ?V @ ?sep @ ?T)) (print_members (c # cs) p)"
    unfolding print_members.simps(2) if_not_P [OF Cons.prems(3)] if_ok_def [of "Some (True, p)"] bind.bind_lunit prod.case if_True
  proof (rule outcome_seq [OF Cons.prems(2) key quoted_no_nul])
    fix q
    assume "reached p ?K q"
    then have q: "pb_ok q" "\<not> pb_format q" using Cons.prems(3) reached_format reached_ok by auto
    show "outcome False q ('':'' @ ?V @ ?sep @ ?T) (let len = (if pb_format q then 2 else 1) in
       if_ok (Some (ensure len q)) (\<lambda>p. do {
         p \<leftarrow> put 0 (if pb_format p then [CHR '':'', CHR 0x09] else '':'') p;
         if_ok (print_value c (advance len p)) (\<lambda>p. do {
           p \<leftarrow> update_offset p;
           let len = (if pb_format p then 1 else 0) + (if cs \<noteq> [] then 1 else 0);
           if_ok (Some (ensure (len + 1) p)) (\<lambda>p. do {
             p \<leftarrow> put 0 ((if cs \<noteq> [] then '','' else []) @ (if pb_format p then [CHR 0x0A] else []) @ [NUL]) p;
             print_members cs (advance len p) }) }) }))"
      unfolding Let_def if_not_P [OF q(2)]
    proof (rule outcome_ensure [OF q(1)])
      fix r
      assume r: "reached q [] r" "pb_offset r + 1 + 1 \<le> length (pb_bytes r)"
      have rf: "\<not> pb_format r" using r(1) q(2) reached_format by auto
      show "outcome False r ('':'' @ ?V @ ?sep @ ?T) (do {
         p \<leftarrow> put 0 (if pb_format r then [CHR '':'', CHR 0x09] else '':'') r;
         if_ok (print_value c (advance 1 p)) (\<lambda>p. do {
           p \<leftarrow> update_offset p;
           if_ok (Some (ensure ((if pb_format p then 1 else 0) + (if cs \<noteq> [] then 1 else 0) + 1) p)) (\<lambda>q. do {
             q \<leftarrow> put 0 ((if cs \<noteq> [] then '','' else []) @ (if pb_format q then [CHR 0x0A] else []) @ [NUL]) q;
             print_members cs (advance ((if pb_format p then 1 else 0) + (if cs \<noteq> [] then 1 else 0)) q) }) }) })"
        unfolding if_not_P [OF rf]
        by (rule outcome_put [OF reached_ok [OF r(1)]])
          (use r(2) rf val [unfolded Let_def] reached_ok reached_format in fastforce)+
    qed simp
  qed
  then show ?case by (cases cs) auto
qed

lemma outcome_array:
  assumes cs: "\<And>c. c \<in> set ch \<Longrightarrow> prints c \<and> printable (jval c)" and p: "pb_ok p" "\<not> pb_format p"
  shows "outcome True p (''['' @ comma_list (map (\<lambda>c. json_text (jval c)) ch) @ '']'')
    (print_value (Item b cJSON_Array k vs vi vd ch) p)"
  unfolding print_value.simps jtype.case
proof (rule outcome_ensure [OF p(1)])
  fix q
  assume q: "reached p [] q" "pb_offset q + 1 + 1 \<le> length (pb_bytes q)"
  have qf: "\<not> pb_format q" using q(1) p(2) reached_format by auto
  show "outcome True q (''['' @ comma_list (map (\<lambda>c. json_text (jval c)) ch) @ '']'') (do {
      p \<leftarrow> put 0 ''['' q;
      if_ok (print_elements ch ((advance 1 p)\<lparr>pb_depth := pb_depth p + 1\<rparr>)) (\<lambda>p.
      if_ok (Some (ensure 2 p)) (\<lambda>p. do {
        p \<leftarrow> put 0 [CHR '']'', NUL] p;
        Some (True, p\<lparr>pb_depth := pb_depth p - 1\<rparr>) })) })"
  proof (rule outcome_put [OF reached_ok [OF q(1)]])
    fix r
    assume "reached q ''['' (advance (length ''['') r)"
    then have r: "pb_ok (advance 1 r)" "\<not> pb_format (advance 1 r)"
      using qf reached_ok reached_format by auto
    let ?r = "(advance 1 r)\<lparr>pb_depth := pb_depth r + 1\<rparr>"
    have "outcome True ?r (comma_list (map (\<lambda>c. json_text (jval c)) ch) @ '']'')
      (if_ok (print_elements ch ?r) (\<lambda>p. if_ok (Some (ensure 2 p)) (\<lambda>p. do {
        p \<leftarrow> put 0 [CHR '']'', NUL] p; Some (True, p\<lparr>pb_depth := pb_depth p - 1\<rparr>) })))"
      by (rule outcome_loop) (use r outcome_elements [of ch ?r] cs outcome_close reached_ok in auto)
    then show "outcome True (advance (length ''['') r) (comma_list (map (\<lambda>c. json_text (jval c)) ch) @ '']'')
      (if_ok (print_elements ch ?r) (\<lambda>p. if_ok (Some (ensure 2 p)) (\<lambda>p. do {
        p \<leftarrow> put 0 [CHR '']'', NUL] p; Some (True, p\<lparr>pb_depth := pb_depth p - 1\<rparr>) })))"
      by simp
  qed (use q(2) in simp)
qed simp

lemma outcome_object:
  assumes cs: "\<And>c. c \<in> set ch \<Longrightarrow> prints c \<and> printable (jval c) \<and> c_str_ok (key_string (i_string c))"
    and p: "pb_ok p" "\<not> pb_format p"
  shows "outcome True p (''{'' @ comma_list (map (\<lambda>c. quoted (key_string (i_string c)) @ '':'' @ json_text (jval c)) ch) @ ''}'')
    (print_value (Item b cJSON_Object k vs vi vd ch) p)"
  unfolding print_value.simps jtype.case Let_def if_not_P [OF p(2)]
proof (rule outcome_ensure [OF p(1)])
  fix q
  assume q: "reached p [] q" "pb_offset q + (1 + 1) + 1 \<le> length (pb_bytes q)"
  have qf: "\<not> pb_format q" using q(1) p(2) reached_format by auto
  let ?T = "comma_list (map (\<lambda>c. quoted (key_string (i_string c)) @ '':'' @ json_text (jval c)) ch)"
  let ?close = "\<lambda>p. if_ok (Some (ensure (if pb_format p then pb_depth p + 1 else 2) p)) (\<lambda>p. do {
        p \<leftarrow> put 0 ((if pb_format p then tabs (pb_depth p - 1) else []) @ [CHR ''}'', NUL]) p;
        Some (True, p\<lparr>pb_depth := pb_depth p - 1\<rparr>) })"
  have close: "outcome True r ''}'' (?close r)" if r: "pb_ok r" "\<not> pb_format r" for r
    unfolding if_not_P [OF r(2)]
  proof (rule outcome_ensure [OF r(1)])
    fix t
    assume t: "reached r [] t" "pb_offset t + 2 + 1 \<le> length (pb_bytes t)"
    have tf: "\<not> pb_format t" using t(1) r(2) reached_format by auto
    obtain u where "put 0 (''}'' @ [NUL]) t = Some u" "wrote t ''}'' u"
      by (rule put_wrote [OF reached_ok [OF t(1)], of "''}''"]) (use t(2) in auto)
    then show "outcome True t ''}'' (do {
        p \<leftarrow> put 0 ((if pb_format t then tabs (pb_depth t - 1) else []) @ [CHR ''}'', NUL]) t;
        Some (True, p\<lparr>pb_depth := pb_depth p - 1\<rparr>) })"
      using tf by (simp add: outcome_def post_def)
  qed simp
  show "outcome True q (''{'' @ ?T @ ''}'') (do {
      p \<leftarrow> put 0 (if pb_format q then [CHR ''{'', CHR 0x0A] else ''{'') q;
      if_ok (print_members ch ((advance 1 p)\<lparr>pb_depth := pb_depth p + 1\<rparr>)) ?close })"
    unfolding if_not_P [OF qf]
  proof (rule outcome_put [OF reached_ok [OF q(1)]])
    fix r
    assume "reached q ''{'' (advance (length ''{'') r)"
    then have r: "pb_ok (advance 1 r)" "\<not> pb_format (advance 1 r)"
      using qf reached_ok reached_format by auto
    let ?r = "(advance 1 r)\<lparr>pb_depth := pb_depth r + 1\<rparr>"
    have "outcome True ?r (?T @ ''}'') (if_ok (print_members ch ?r) ?close)"
    proof (rule outcome_loop)
      show "outcome False ?r ?T (print_members ch ?r)" by (rule outcome_members) (use r cs in auto)
      fix t assume "reached ?r ?T t"
      then show "outcome True t ''}'' (?close t)"
        using close [of t] r reached_ok reached_format by auto
    qed (use r in simp)
    then show "outcome True (advance (length ''{'') r) (?T @ ''}'') (if_ok (print_members ch ?r) ?close)"
      by simp
  qed (use q(2) in simp)
qed simp

lemma prints_all: "prints i"
proof (induction i)
  case (Item b t k vs vi vd ch)
  show ?case
    unfolding prints_def
  proof (intro allI impI)
    fix p
    assume p: "pb_ok p" "\<not> pb_format p" and pr: "printable (jval (Item b t k vs vi vd ch))"
    show "outcome True p (json_text (jval (Item b t k vs vi vd ch))) (print_value (Item b t k vs vi vd ch) p)"
    proof (cases t)
      case cJSON_Array
      then show ?thesis using outcome_array [of ch p b k vs vi vd] Item.IH pr p by (auto simp: comp_def)
    next
      case cJSON_Object
      then show ?thesis using outcome_object [of ch p b k vs vi vd] Item.IH pr p by (auto simp: comp_def)
    next
      case cJSON_String
      then show ?thesis using pr p outcome_key [of p "str_of vs"] by simp
    next
      case cJSON_Number
      then show ?thesis using pr p outcome_number [of p vd] by simp
    qed (use pr p outcome_text in \<open>auto split: option.splits\<close>)
  qed
qed

text \<open>
  Printing is defined for every tree and allocator; its result, unless NULL, is the text of the
  tree's value; and it is not NULL when no allocation fails and the text fits.
\<close>

lemma print_unformatted:
  assumes "printable (jval i)"
  shows "\<exists>r. cJSON_PrintUnformatted al fill (Some i) = Some r \<and> (r = None \<or> r = Some (json_text (jval i)))
    \<and> ((\<forall>k. al k) \<and> length (json_text (jval i)) + 3 \<le> INT_MAXn \<longrightarrow> r \<noteq> None)"
proof -
  let ?p = "\<lparr>pb_buffer = Some (replicate 256 fill), pb_offset = 0, pb_depth = 0,
    pb_noalloc = False, pb_format = False, pb_al = al, pb_tick = 1, pb_fill = fill\<rparr>"
  have ok: "pb_ok ?p" by (simp add: pb_ok_def INT_MAXn_def)
  have "outcome True ?p (json_text (jval i)) (print_value i ?p)"
    using prints_all [of i] assms ok by (auto simp: prints_def)
  then obtain e q where e: "print_value i ?p = Some (e, q)" "e \<Longrightarrow> wrote ?p (json_text (jval i)) q"
    "fits ?p (json_text (jval i)) \<Longrightarrow> e"
    by (auto simp: outcome_def post_def split: option.splits)
  have f: "fits ?p (json_text (jval i)) \<longleftrightarrow> (\<forall>k. al k) \<and> length (json_text (jval i)) + 3 \<le> INT_MAXn"
    by (simp add: fits_def)
  show ?thesis
  proof (cases e)
    case True
    obtain r where r: "update_offset q = Some r" "reached ?p (json_text (jval i)) r"
      using wrote_update [OF ok e(2) [OF True] json_text_no_nul [OF assms]] .
    have "pb_text r = json_text (jval i)" using r(2) by (simp add: reached_def pb_text_def)
    moreover obtain b where b: "pb_buffer r = Some b" "pb_bytes r = b" using reached_ok [OF r(2)] by (rule pb_okE)
    ultimately have "take (pb_offset r) b = json_text (jval i)" by (simp add: pb_text_def)
    then show ?thesis
      using True e(1) r(1) b(1) by (auto simp: cJSON_PrintUnformatted_def print_def)
  next
    case False
    then show ?thesis using e f by (auto simp: cJSON_PrintUnformatted_def print_def)
  qed
qed

lemma print_unformatted_ok:
  assumes "printable (jval i)" "\<forall>k. al k" "length (json_text (jval i)) + 3 \<le> INT_MAXn"
  shows "cJSON_PrintUnformatted al fill (Some i) = Some (Some (json_text (jval i)))"
  using print_unformatted [OF assms(1), of al fill] assms(2,3) by auto

section \<open>Printing is faithful\<close>

text \<open>
  C38. Printing a tree (\<open>cJSON_PrintUnformatted\<close>) never writes outside its buffer, whatever the
  allocator does and however often the buffer grows: the result is NULL or exactly the JSON text of
  the tree's value, and it is the text whenever the allocator grants every request and the text fits
  an \<open>int\<close>.
\<close>

theorem cJSON_PrintUnformatted_text:
  assumes "printable (jval i)"
  shows "\<exists>r. cJSON_PrintUnformatted al fill (Some i) = Some r \<and> (r = None \<or> r = Some (json_text (jval i)))
    \<and> ((\<forall>k. al k) \<and> length (json_text (jval i)) + 3 \<le> INT_MAXn \<longrightarrow> r \<noteq> None)"
  by (rule print_unformatted [OF assms])

definition sample_tree :: cjson where
  "sample_tree = Item 0 cJSON_Object NoKey None 0 (Fin False 0)
     [Item 1 cJSON_String (HeapKey 2 ''s'') (Some (3, [CHR ''x'', CHR 0x22, CHR 0x0A])) 0 (Fin False 0) [],
      Item 4 cJSON_Array (ConstKey ''l'') None 0 (Fin False 0)
        [Item 5 cJSON_True NoKey None 1 (Fin False 0) [], Item 6 cJSON_NULL NoKey None 0 (Fin False 0) []]]"

theorem cJSON_PrintUnformatted_text_witness:
  "cJSON_PrintUnformatted (\<lambda>_. True) (CHR ''?'') (Some sample_tree)
     = Some (Some (json_text (jval sample_tree)))"
proof -
  have "printable (jval sample_tree)" by (simp add: sample_tree_def c_str_ok_def)
  moreover have "length (json_text (jval sample_tree)) + 3 \<le> INT_MAXn"
    by (simp add: sample_tree_def quoted_def esc_string_def esc_def esc_letter_def ctl_char_def INT_MAXn_def)
  ultimately show ?thesis
    using cJSON_PrintUnformatted_text [of sample_tree "\<lambda>_. True" "CHR ''?''"] by auto
qed

end
