(* ===== verification/Cjson_Parse.thy ===== *)
theory Cjson_Parse
  imports Cjson_Print
begin

text \<open>
  Reading an item tree from text (\<^verbatim>\<open>contrib/cJSON/cJSON.c\<close>). The buffer is the C string with its
  terminator; a read outside it, a write behind the memory allocated for a string and a use of
  freed memory are undefined (\<open>None\<close>). A failing parser has freed what it allocated; the position of the
  error (\<open>global_error\<close>) is only read by \<open>cJSON_GetErrorPtr\<close>, which the program does not call, and is
  left out. The recursion has a bound, \<open>None\<close> when it is exhausted; the safety lemma shows that the
  length of the text is always enough.
\<close>

record parse_buffer =
  pa_content :: string
  pa_offset :: nat
  pa_depth :: nat

definition can_access :: "parse_buffer \<Rightarrow> nat \<Rightarrow> bool" where
  "can_access pb i \<longleftrightarrow> pa_offset pb + i < length (pa_content pb)"

definition peek :: "parse_buffer \<Rightarrow> char option" where
  "peek pb = (if can_access pb 0 then Some (pa_content pb ! pa_offset pb) else None)"

definition rest_of :: "parse_buffer \<Rightarrow> string" where
  "rest_of pb = drop (pa_offset pb) (pa_content pb)"

definition move :: "nat \<Rightarrow> parse_buffer \<Rightarrow> parse_buffer" where
  "move n pb = pb\<lparr>pa_offset := pa_offset pb + n\<rparr>"

definition step_back :: "parse_buffer \<Rightarrow> parse_buffer" where
  "step_back pb = pb\<lparr>pa_offset := pa_offset pb - 1\<rparr>"

definition is_blank :: "char \<Rightarrow> bool" where
  "is_blank c \<longleftrightarrow> (of_char c :: nat) \<le> 32"

definition buffer_skip_whitespace :: "parse_buffer \<Rightarrow> parse_buffer" where
  "buffer_skip_whitespace pb =
     (let pb = move (length (takeWhile is_blank (rest_of pb))) pb in
      if pa_offset pb = length (pa_content pb) then step_back pb else pb)"

definition skip_utf8_bom :: "parse_buffer \<Rightarrow> parse_buffer" where
  "skip_utf8_bom pb =
     (if can_access pb 4 \<and> take 3 (rest_of pb) = [CHR 0xEF, CHR 0xBB, CHR 0xBF] then move 3 pb else pb)"

text \<open>Outcomes: success with a value and the buffer, or failure; and the memory.\<close>

type_synonym 'a parse_result = "(('a \<times> parse_buffer) option \<times> heap) option"

section \<open>Numbers and strings\<close>

definition parse_number :: "cjson \<Rightarrow> parse_buffer \<Rightarrow> heap \<Rightarrow> cjson parse_result" where
  "parse_number item pb h =
     (let number_c_string = takeWhile num_char (take 63 (rest_of pb));
          (number, n) = strtod number_c_string
      in if n = 0 then Some (None, h)
         else do { v \<leftarrow> sat_int number; Some (Some (set_number number v item, move n pb), h) })"

definition hex_val :: "char \<Rightarrow> nat option" where
  "hex_val c = (let n = of_char c in
     if 48 \<le> n \<and> n \<le> 57 then Some (n - 48)
     else if 65 \<le> n \<and> n \<le> 70 then Some (10 + n - 65)
     else if 97 \<le> n \<and> n \<le> 102 then Some (10 + n - 97)
     else None)"

fun hex4_loop :: "string \<Rightarrow> nat \<Rightarrow> nat" where
  "hex4_loop [] h = h"
| "hex4_loop (c # cs) h = (case hex_val c of
     None \<Rightarrow> 0
   | Some d \<Rightarrow> hex4_loop cs (if cs \<noteq> [] then (h + d) * 16 else h + d))"

definition parse_hex4 :: "string \<Rightarrow> nat" where
  "parse_hex4 input = hex4_loop (take 4 input) 0"

definition utf8_encode :: "nat \<Rightarrow> string" where
  "utf8_encode cp = map char_of (
     if cp < 0x80 then [cp]
     else if cp < 0x800 then [0xC0 + cp div 64, 0x80 + cp mod 64]
     else if cp < 0x10000 then [0xE0 + cp div 4096, 0x80 + cp div 64 mod 64, 0x80 + cp mod 64]
     else [0xF0 + cp div 262144, 0x80 + cp div 4096 mod 64, 0x80 + cp div 64 mod 64, 0x80 + cp mod 64])"

text \<open>
  The argument is the input up to the closing quote; the result is the length of the escape and the
  bytes, \<open>None\<close> when the literal is refused. A digit that is not hexadecimal makes the code 0.
\<close>

definition utf16_literal_to_utf8 :: "string \<Rightarrow> (nat \<times> string) option" where
  "utf16_literal_to_utf8 inp =
     (if length inp < 6 then None
      else let first_code = parse_hex4 (drop 2 inp) in
        if 0xDC00 \<le> first_code \<and> first_code \<le> 0xDFFF then None
        else if 0xD800 \<le> first_code \<and> first_code \<le> 0xDBFF then
          let second = drop 6 inp in
          if length second < 6 then None
          else if second ! 0 \<noteq> CHR 0x5C \<or> second ! 1 \<noteq> CHR ''u'' then None
          else let second_code = parse_hex4 (drop 2 second) in
            if second_code < 0xDC00 \<or> 0xDFFF < second_code then None
            else Some (12, utf8_encode (0x10000 + (first_code mod 1024 * 1024 + second_code mod 1024)))
        else Some (6, utf8_encode first_code))"

definition unesc_letter :: "char \<Rightarrow> char option" where
  "unesc_letter c = (
     if c = CHR ''b'' then Some (CHR 0x08)
     else if c = CHR ''f'' then Some (CHR 0x0C)
     else if c = CHR ''n'' then Some (CHR 0x0A)
     else if c = CHR ''r'' then Some (CHR 0x0D)
     else if c = CHR ''t'' then Some (CHR 0x09)
     else if c = CHR 0x22 \<or> c = CHR 0x5C \<or> c = CHR ''/'' then Some c
     else None)"

text \<open>The first pass: the number of characters before the closing quote and of escapes among them.\<close>

fun string_end :: "string \<Rightarrow> (nat \<times> nat) option" where
  "string_end [] = None"
| "string_end (c # cs) =
     (if c = CHR 0x22 then Some (0, 0)
      else if c = CHR 0x5C then
        (case cs of [] \<Rightarrow> None | d # ds \<Rightarrow> do { (n, k) \<leftarrow> string_end ds; Some (n + 2, k + 1) })
      else do { (n, k) \<leftarrow> string_end cs; Some (n + 1, k) })"

text \<open>
  The second pass: \<open>inp\<close> is the input at the input pointer, \<open>left\<close> its distance to the closing quote
  and \<open>room\<close> what is left of the output memory. \<open>Some None\<close> is failure.
\<close>

function unescape :: "string \<Rightarrow> nat \<Rightarrow> nat \<Rightarrow> string option option" where
  "unescape inp left room =
     (if left = 0 then (if room \<ge> 1 then Some (Some []) else None)
      else case inp of
        [] \<Rightarrow> None
      | c # cs \<Rightarrow>
          if c \<noteq> CHR 0x5C then
            (if room = 0 then None
             else do { r \<leftarrow> unescape cs (left - 1) (room - 1); Some (map_option (\<lambda>s. c # s) r) })
          else (case cs of
              [] \<Rightarrow> None
            | d # ds \<Rightarrow>
                if d = CHR ''u'' then
                  (case utf16_literal_to_utf8 (take left inp) of
                     None \<Rightarrow> Some None
                   | Some (len, bs) \<Rightarrow>
                       if room < length bs \<or> len = 0 then None
                       else do { r \<leftarrow> unescape (drop len inp) (left - len) (room - length bs);
                                 Some (map_option (\<lambda>s. bs @ s) r) })
                else (case unesc_letter d of
                    None \<Rightarrow> Some None
                  | Some e \<Rightarrow>
                      if room = 0 then None
                      else do { r \<leftarrow> unescape ds (left - 2) (room - 1); Some (map_option (\<lambda>s. e # s) r) })))"
  by pat_completeness auto
termination by (relation "measure (\<lambda>(inp, left, room). left)") auto

declare unescape.simps [simp del]

definition parse_string :: "cjson \<Rightarrow> parse_buffer \<Rightarrow> heap \<Rightarrow> cjson parse_result" where
  "parse_string item pb h = do {
     c \<leftarrow> peek pb;
     if c \<noteq> CHR 0x22 then Some (None, h)
     else (case string_end (drop 1 (rest_of pb)) of
         None \<Rightarrow> Some (None, h)
       | Some (n, skipped_bytes) \<Rightarrow>
           let allocation_length = n + 1 - skipped_bytes in
           (case h_alloc h of
              (None, h) \<Rightarrow> Some (None, h)
            | (Some b, h) \<Rightarrow> do {
                r \<leftarrow> unescape (drop 1 (rest_of pb)) n (allocation_length + 1);
                (case r of
                   None \<Rightarrow> do { h \<leftarrow> h_free b h; Some (None, h) }
                 | Some s \<Rightarrow>
                     Some (Some (set_vstr cJSON_String (Some (b, takeWhile (\<lambda>c. c \<noteq> NUL) s)) item, move (n + 2) pb), h)) })) }"

section \<open>Values\<close>

definition CJSON_NESTING_LIMIT :: nat where "CJSON_NESTING_LIMIT = 1000"

definition looking_at :: "string \<Rightarrow> parse_buffer \<Rightarrow> bool" where
  "looking_at s pb \<longleftrightarrow> take (length s) (rest_of pb) = s"

definition set_true :: "cjson \<Rightarrow> cjson" where
  "set_true i = Item (i_blk i) cJSON_True (i_string i) (i_valuestring i) 1 (i_valuedouble i) (i_child i)"

definition set_children :: "jtype \<Rightarrow> cjson list \<Rightarrow> cjson \<Rightarrow> cjson" where
  "set_children t ch i = set_type t (set_child ch i)"

text \<open>The swap of \<open>valuestring\<close> and \<open>string\<close> after the name of a member was parsed.\<close>

definition swap_name :: "cjson \<Rightarrow> cjson" where
  "swap_name i = Item (i_blk i) (i_type i)
     (case i_valuestring i of None \<Rightarrow> NoKey | Some (b, s) \<Rightarrow> HeapKey b s) None (i_valueint i) (i_valuedouble i) (i_child i)"

definition fail_with :: "cjson list \<Rightarrow> heap \<Rightarrow> 'a parse_result" where
  "fail_with cs h = do { h \<leftarrow> cJSON_Delete cs h; Some (None, h) }"

definition at_char :: "char \<Rightarrow> parse_buffer \<Rightarrow> bool" where
  "at_char c pb \<longleftrightarrow> can_access pb 0 \<and> pa_content pb ! pa_offset pb = c"

text \<open>
  The end of an array or object: depth and offset are adjusted and the children attached.
\<close>

definition close_with :: "jtype \<Rightarrow> cjson \<Rightarrow> cjson list \<Rightarrow> parse_buffer \<Rightarrow> heap \<Rightarrow> cjson parse_result" where
  "close_with t item cs pb h =
     Some (Some (set_children t cs item, move 1 (pb\<lparr>pa_depth := pa_depth pb - 1\<rparr>)), h)"

text \<open>
  The loops over elements and members, with the parser of values as a parameter, so that the
  recursion is on the bound alone. \<open>acc\<close> are the items attached so far.
\<close>

type_synonym value_parser = "cjson \<Rightarrow> parse_buffer \<Rightarrow> heap \<Rightarrow> cjson parse_result"

fun parse_elements :: "value_parser \<Rightarrow> nat \<Rightarrow> cjson list \<Rightarrow> parse_buffer \<Rightarrow> heap \<Rightarrow> cjson list parse_result" where
  "parse_elements pv 0 acc pb h = None"
| "parse_elements pv (Suc fuel) acc pb h = (case cJSON_New_Item h of
       (None, h) \<Rightarrow> fail_with acc h
     | (Some new_item, h) \<Rightarrow> do {
         (r, h) \<leftarrow> pv new_item (buffer_skip_whitespace (move 1 pb)) h;
         (case r of
            None \<Rightarrow> fail_with (acc @ [new_item]) h
          | Some (i, pb) \<Rightarrow>
              let pb = buffer_skip_whitespace pb in
              if at_char (CHR '','') pb then parse_elements pv fuel (acc @ [i]) pb h
              else if at_char (CHR '']'') pb then Some (Some (acc @ [i], pb), h)
              else fail_with (acc @ [i]) h) })"

fun parse_members :: "value_parser \<Rightarrow> nat \<Rightarrow> cjson list \<Rightarrow> parse_buffer \<Rightarrow> heap \<Rightarrow> cjson list parse_result" where
  "parse_members pv 0 acc pb h = None"
| "parse_members pv (Suc fuel) acc pb h = (case cJSON_New_Item h of
       (None, h) \<Rightarrow> fail_with acc h
     | (Some new_item, h) \<Rightarrow> do {
         (r, h) \<leftarrow> parse_string new_item (buffer_skip_whitespace (move 1 pb)) h;
         (case r of
            None \<Rightarrow> fail_with (acc @ [new_item]) h
          | Some (i, pb) \<Rightarrow>
              let pb = buffer_skip_whitespace pb; i = swap_name i in
              if \<not> at_char (CHR '':'') pb then fail_with (acc @ [i]) h
              else do {
                (r, h) \<leftarrow> pv i (buffer_skip_whitespace (move 1 pb)) h;
                (case r of
                   None \<Rightarrow> fail_with (acc @ [i]) h
                 | Some (i, pb) \<Rightarrow>
                     let pb = buffer_skip_whitespace pb in
                     if at_char (CHR '','') pb then parse_members pv fuel (acc @ [i]) pb h
                     else if at_char (CHR ''}'') pb then Some (Some (acc @ [i], pb), h)
                     else fail_with (acc @ [i]) h) }) })"

definition parse_array :: "value_parser \<Rightarrow> nat \<Rightarrow> cjson \<Rightarrow> parse_buffer \<Rightarrow> heap \<Rightarrow> cjson parse_result" where
  "parse_array pv fuel item pb h =
     (if pa_depth pb \<ge> CJSON_NESTING_LIMIT then Some (None, h)
      else let pb = pb\<lparr>pa_depth := pa_depth pb + 1\<rparr> in do {
        c \<leftarrow> peek pb;
        if c \<noteq> CHR ''['' then Some (None, h)
        else let pb = buffer_skip_whitespace (move 1 pb) in
          if at_char (CHR '']'') pb then close_with cJSON_Array item [] pb h
          else if \<not> can_access pb 0 then Some (None, h)
          else do {
            (r, h) \<leftarrow> parse_elements pv fuel [] (step_back pb) h;
            (case r of None \<Rightarrow> Some (None, h) | Some (cs, pb) \<Rightarrow> close_with cJSON_Array item cs pb h) } })"

definition parse_object :: "value_parser \<Rightarrow> nat \<Rightarrow> cjson \<Rightarrow> parse_buffer \<Rightarrow> heap \<Rightarrow> cjson parse_result" where
  "parse_object pv fuel item pb h =
     (if pa_depth pb \<ge> CJSON_NESTING_LIMIT then Some (None, h)
      else let pb = pb\<lparr>pa_depth := pa_depth pb + 1\<rparr> in
        if \<not> at_char (CHR ''{'') pb then Some (None, h)
        else let pb = buffer_skip_whitespace (move 1 pb) in
          if at_char (CHR ''}'') pb then close_with cJSON_Object item [] pb h
          else if \<not> can_access pb 0 then Some (None, h)
          else do {
            (r, h) \<leftarrow> parse_members pv fuel [] (step_back pb) h;
            (case r of None \<Rightarrow> Some (None, h) | Some (cs, pb) \<Rightarrow> close_with cJSON_Object item cs pb h) })"

fun parse_value :: "nat \<Rightarrow> value_parser" where
  "parse_value 0 item pb h = None"
| "parse_value (Suc fuel) item pb h =
     (if looking_at ''null'' pb then Some (Some (set_type cJSON_NULL item, move 4 pb), h)
      else if looking_at ''false'' pb then Some (Some (set_type cJSON_False item, move 5 pb), h)
      else if looking_at ''true'' pb then Some (Some (set_true item, move 4 pb), h)
      else if at_char (CHR 0x22) pb then parse_string item pb h
      else if can_access pb 0 \<and> (at_char (CHR ''-'') pb \<or> is_digit (pa_content pb ! pa_offset pb)) then parse_number item pb h
      else if at_char (CHR ''['') pb then parse_array (parse_value fuel) fuel item pb h
      else if at_char (CHR ''{'') pb then parse_object (parse_value fuel) fuel item pb h
      else Some (None, h))"

section \<open>Entry point\<close>

text \<open>
  \<open>cJSON_Parse\<close> reads the memory at its argument up to the terminator; memory without one is
  undefined. \<open>require_null_terminated\<close> and \<open>return_parse_end\<close> are 0.
\<close>

definition cJSON_ParseWithOpts :: "string option \<Rightarrow> heap \<Rightarrow> (cjson option \<times> heap) option" where
  "cJSON_ParseWithOpts v h = (case v of
       None \<Rightarrow> Some (None, h)
     | Some m \<Rightarrow>
         if NUL \<notin> set m then None
         else let content = takeWhile (\<lambda>c. c \<noteq> NUL) m @ [NUL];
                  pb = \<lparr>pa_content = content, pa_offset = 0, pa_depth = 0\<rparr> in
           (case cJSON_New_Item h of
              (None, h) \<Rightarrow> Some (None, h)
            | (Some item, h) \<Rightarrow> do {
                (r, h) \<leftarrow> parse_value (length content + 1) item (buffer_skip_whitespace (skip_utf8_bom pb)) h;
                (case r of
                   None \<Rightarrow> do { h \<leftarrow> cJSON_Delete [item] h; Some (None, h) }
                 | Some (item, pb) \<Rightarrow> Some (Some item, h)) }))"

definition cJSON_Parse :: "string option \<Rightarrow> heap \<Rightarrow> (cjson option \<times> heap) option" where
  "cJSON_Parse v h = cJSON_ParseWithOpts v h"

section \<open>Strings stay within their memory\<close>

text \<open>
  The first pass as marks on the characters before the closing quote: the backslashes it takes for
  the start of an escape. No two marks are adjacent and the last character has none.
\<close>

fun marks_ok :: "string \<Rightarrow> bool list \<Rightarrow> bool" where
  "marks_ok inp [] = True"
| "marks_ok inp (m # ms) \<longleftrightarrow>
     inp \<noteq> [] \<and> (m \<longrightarrow> hd inp = CHR 0x5C \<and> ms \<noteq> [] \<and> \<not> hd ms) \<and> marks_ok (tl inp) ms"

definition marked :: "bool list \<Rightarrow> nat" where
  "marked ms = length (filter (\<lambda>m. m) ms)"

lemma string_end_marks:
  "string_end inp = Some (n, k) \<Longrightarrow> \<exists>ms. length ms = n \<and> marked ms = k \<and> marks_ok inp ms
     \<and> n < length inp \<and> inp ! n = CHR 0x22"
proof (induction inp arbitrary: n k rule: string_end.induct)
  case (2 c cs)
  show ?case
  proof (cases "c = CHR 0x22 \<or> c \<noteq> CHR 0x5C")
    case True
    then show ?thesis
    proof
      assume "c = CHR 0x22"
      with "2.prems" show ?thesis by (auto simp: marked_def)
    next
      assume c: "c \<noteq> CHR 0x5C"
      show ?thesis
      proof (cases "c = CHR 0x22")
        case False
        then obtain n' where n: "string_end cs = Some (n', k)" "n = n' + 1"
          using "2.prems" c by (auto split: bind_splits)
        from "2.IH"(2) [OF False c n(1)] obtain ms where "length ms = n'" "marked ms = k" "marks_ok cs ms"
          "n' < length cs" "cs ! n' = CHR 0x22" by auto
        then show ?thesis using n(2) by (intro exI [of _ "False # ms"]) (simp add: marked_def)
      qed (use "2.prems" in \<open>auto simp: marked_def\<close>)
    qed
  next
    case False
    then have c: "c \<noteq> CHR 0x22" "c = CHR 0x5C" by auto
    from "2.prems" c obtain d ds n' k' where n: "cs = d # ds" "string_end ds = Some (n', k')" "n = n' + 2" "k = k' + 1"
      by (auto split: bind_splits list.splits)
    from "2.IH"(1) [OF c n(1,2)] obtain ms where "length ms = n'" "marked ms = k'" "marks_ok ds ms"
      "n' < length ds" "ds ! n' = CHR 0x22" by auto
    then show ?thesis using n c by (intro exI [of _ "True # False # ms"]) (simp add: marked_def)
  qed
qed simp

lemma marks_ok_drop: "marks_ok inp ms \<Longrightarrow> marks_ok (drop j inp) (drop j ms)"
proof (induction j arbitrary: inp ms)
  case (Suc j)
  then show ?case by (cases ms) (auto simp: drop_Suc)
qed simp

lemma marked_Cons: "marked (m # ms) = (if m then Suc (marked ms) else marked ms)"
  by (simp add: marked_def)

lemma marked_window: "marks_ok inp ms \<Longrightarrow> 2 * marked (take m ms) \<le> Suc m"
proof (induction m arbitrary: inp ms rule: less_induct)
  case (less m)
  show ?case
  proof (cases ms)
    case (Cons a ms')
    show ?thesis
    proof (cases m)
      case (Suc m')
      show ?thesis
      proof (cases a)
        case True
        then obtain ms'' where ms'': "ms' = False # ms''" using less.prems Cons by (cases ms') auto
        have "marks_ok (tl (tl inp)) ms''" using less.prems Cons ms'' by auto
        from less.IH [of "m' - 1", OF _ this] show ?thesis
          using Suc Cons ms'' True by (cases m') (auto simp: marked_Cons marked_def [of "[]"])
      next
        case False
        with less.IH [of m' "tl inp" ms'] less.prems Suc Cons show ?thesis by (auto simp: marked_Cons)
      qed
    qed (simp add: marked_def)
  qed (simp add: marked_def)
qed

lemma marked_split: "marked ms = marked (take m ms) + marked (drop m ms)"
  unfolding marked_def by (metis append_take_drop_id filter_append length_append)

lemma marked_le: "marked ms \<le> length ms"
  by (simp add: marked_def)

lemma utf8_encode_length: "length (utf8_encode cp) \<le> 4" "cp < 0x10000 \<Longrightarrow> length (utf8_encode cp) \<le> 3"
  by (simp_all add: utf8_encode_def)

lemma hex_val_less: "hex_val c = Some d \<Longrightarrow> d < 16"
  by (auto simp: hex_val_def Let_def split: if_splits)

lemma hex4_loop_less: "cs \<noteq> [] \<Longrightarrow> hex4_loop cs h < (h + 16) * 16 ^ (length cs - 1)"
proof (induction cs arbitrary: h)
  case (Cons c cs)
  show ?case
  proof (cases "hex_val c")
    case (Some d)
    have d: "d < 16" using Some by (rule hex_val_less)
    show ?thesis
    proof (cases cs)
      case Nil
      then show ?thesis using Some d by simp
    next
      case (Cons a as)
      have "hex4_loop cs ((h + d) * 16) < ((h + d) * 16 + 16) * 16 ^ (length cs - 1)"
        using Cons by (intro Cons.IH) simp
      also have "\<dots> = (h + d + 1) * 16 ^ length cs" using Cons by (simp add: algebra_simps)
      also have "\<dots> \<le> (h + 16) * 16 ^ length cs" using d by (intro mult_right_mono) simp_all
      finally show ?thesis using Some Cons by simp
    qed
  qed simp
qed simp

lemma parse_hex4_less: "parse_hex4 s < 0x10000"
proof (cases "take 4 s = []")
  case False
  have l: "length (take 4 s) - 1 \<le> 3" by simp
  have "parse_hex4 s < (0 + 16) * 16 ^ (length (take 4 s) - 1)"
    unfolding parse_hex4_def using False by (rule hex4_loop_less)
  also have "\<dots> \<le> 16 * 16 ^ 3" using power_increasing [OF l, of "16 :: nat"] by simp
  finally show ?thesis by simp
qed (simp add: parse_hex4_def)

lemma utf16_length:
  assumes "utf16_literal_to_utf8 inp = Some (len, bs)"
  shows "len \<le> length inp" "len = 6 \<and> length bs \<le> 3 \<or> len = 12 \<and> length bs \<le> 4"
  using assms utf8_encode_length parse_hex4_less [of "drop 2 inp"]
  by (auto simp: utf16_literal_to_utf8_def Let_def split: if_splits)

text \<open>The second pass never writes behind the allocated memory, whatever the escapes are.\<close>

lemma unescape_safe:
  assumes "marks_ok inp ms" "length ms = left" "left = 0 \<or> left < length inp" "left < room + marked ms"
  shows "unescape inp left room \<noteq> None"
  using assms
proof (induction inp left room arbitrary: ms rule: unescape.induct)
  case (1 inp left room)
  show ?case
  proof (cases "left = 0")
    case True
    then show ?thesis using "1.prems" by (auto simp: unescape.simps marked_def)
  next
    case left: False
    obtain m ms' where ms: "ms = m # ms'" using "1.prems"(2) left by (cases ms) simp_all
    obtain c cs where inp0: "inp = c # cs" using "1.prems"(3) left by (cases inp) simp_all
    obtain d ds where cs: "cs = d # ds" using "1.prems"(3) left inp0 by (cases cs) simp_all
    note inp = inp0 ms
    have room: "0 < room" using "1.prems" marked_le [of ms] by simp
    show ?thesis
    proof (cases "c = CHR 0x5C")
      case False
      then have m: "\<not> m" using "1.prems"(1) inp by auto
      have "unescape cs (left - 1) (room - 1) \<noteq> None"
        using "1.prems" inp m room left False
        by (intro "1.IH"(1) [where ms = ms']) (auto simp: marked_Cons)
      then show ?thesis
        using left inp False room by (subst unescape.simps) auto
    next
      case c: True
      have w: "2 * marked (take j ms) \<le> Suc j" for j using marked_window [OF "1.prems"(1)] .
      show ?thesis
      proof (cases "d = CHR ''u''")
        case u: True
        show ?thesis
        proof (cases "utf16_literal_to_utf8 (take left inp)")
          case None
          then show ?thesis using left inp c cs u by (subst unescape.simps) auto
        next
          case (Some p)
          obtain len bs where p: "p = (len, bs)" by fastforce
          note len = utf16_length [OF Some [unfolded p]]
          have sp: "marked ms = marked (take len ms) + marked (drop len ms)" by (rule marked_split)
          have "length bs + marked (take len ms) \<le> len" using len(2) w [of len] by auto
          then have r: "left - len < room - length bs + marked (drop len ms)" "length bs \<le> room"
            using "1.prems"(2,4) len(1) sp marked_le [of "drop len ms"] by auto
          have l: "left - len = 0 \<or> left - len < length (drop len inp)" "length (drop len ms) = left - len"
            using len(1) "1.prems"(2,3) by auto
          have "unescape (drop len inp) (left - len) (room - length bs) \<noteq> None"
            by (rule "1.IH"(2) [OF left inp0 _ cs u Some p [symmetric] _ marks_ok_drop [OF "1.prems"(1)] l(2,1) r(1)])
              (use c r(2) len(2) in auto)
          then show ?thesis
            using left inp c cs u Some p r len(2) by (subst unescape.simps) auto
        qed
      next
        case u: False
        show ?thesis
        proof (cases "unesc_letter d")
          case None
          then show ?thesis using left inp c cs u by (subst unescape.simps) auto
        next
          case (Some e)
          have sp: "marked ms = marked (take 2 ms) + marked (drop 2 ms)" by (rule marked_split)
          have t2: "marked (take 2 ms) \<le> 1" using w [of 2] by simp
          have r: "left - 2 < room - 1 + marked (drop 2 ms)"
          proof (cases "left = 1")
            case True
            then have "ms = [False]" using "1.prems"(1,2) ms by (cases m) simp_all
            then show ?thesis using "1.prems"(4) True by (simp add: marked_def)
          next
            case False
            then show ?thesis using "1.prems"(4) sp t2 room left by linarith
          qed
          have l: "marks_ok ds (drop 2 ms)" "length (drop 2 ms) = left - 2" "left - 2 = 0 \<or> left - 2 < length ds"
            using marks_ok_drop [OF "1.prems"(1), of 2] "1.prems"(2,3) inp0 cs left by auto
          have "unescape ds (left - 2) (room - 1) \<noteq> None"
            by (rule "1.IH"(3) [OF left inp0 _ cs u Some _ l r]) (use c room in auto)
          then show ?thesis
            using left inp c cs u Some room by (subst unescape.simps) auto
        qed
      qed
    qed
  qed
qed

section \<open>Safety\<close>

definition pa_ok :: "parse_buffer \<Rightarrow> bool" where
  "pa_ok pb \<longleftrightarrow> pa_offset pb < length (pa_content pb) \<and> last (pa_content pb) = NUL"

text \<open>The same text at a later position.\<close>

definition ahead :: "parse_buffer \<Rightarrow> parse_buffer \<Rightarrow> bool" where
  "ahead pb pb' \<longleftrightarrow> pa_ok pb' \<and> pa_content pb' = pa_content pb \<and> pa_offset pb \<le> pa_offset pb'
     \<and> pa_depth pb' = pa_depth pb"

definition remaining :: "parse_buffer \<Rightarrow> nat" where
  "remaining pb = length (pa_content pb) - pa_offset pb"

lemma ahead_refl: "pa_ok pb \<Longrightarrow> ahead pb pb"
  by (simp add: ahead_def)

lemma ahead_trans: "ahead p q \<Longrightarrow> ahead q r \<Longrightarrow> ahead p r"
  by (auto simp: ahead_def)

lemma skip_ahead:
  assumes "pa_ok pb"
  shows "ahead pb (buffer_skip_whitespace pb)"
proof -
  have "length (takeWhile is_blank (rest_of pb)) \<le> length (pa_content pb) - pa_offset pb"
    using length_takeWhile_le [of is_blank "rest_of pb"] by (simp add: rest_of_def)
  then show ?thesis
    using assms by (auto simp: ahead_def pa_ok_def buffer_skip_whitespace_def Let_def move_def step_back_def)
qed

text \<open>A character other than the terminator can be passed.\<close>

lemma move_ahead:
  assumes ok: "pa_ok pb" and n: "pa_offset pb + n < length (pa_content pb)"
  shows "ahead pb (move n pb)"
  using assms by (simp add: ahead_def pa_ok_def move_def)

lemma not_last:
  assumes "pa_ok pb" "pa_offset pb + n < length (pa_content pb)" "pa_content pb ! (pa_offset pb + n) \<noteq> NUL"
  shows "pa_offset pb + n + 1 < length (pa_content pb)"
proof (rule ccontr)
  assume "\<not> ?thesis"
  then have "pa_offset pb + n = length (pa_content pb) - 1" using assms(2) by linarith
  moreover have "pa_content pb \<noteq> []" using assms(2) by auto
  ultimately show False using assms(1,3) by (simp add: pa_ok_def last_conv_nth)
qed

lemma at_char_move:
  assumes "pa_ok pb" "at_char c pb" "c \<noteq> NUL"
  shows "ahead pb (move 1 pb)" "pa_offset (move 1 pb) = Suc (pa_offset pb)"
  using move_ahead [OF assms(1), of 1] not_last [OF assms(1), of 0] assms(2,3)
  by (auto simp: at_char_def can_access_def move_def)

lemma prefix_move:
  assumes "pa_ok pb" "looking_at s pb" "NUL \<notin> set s" "s \<noteq> []"
  shows "ahead pb (move (length s) pb)" "pa_offset pb < pa_offset (move (length s) pb)"
proof -
  have l: "length s \<le> length (rest_of pb)" using assms(2) by (metis length_take looking_at_def min.absorb_iff2 min.commute)
  let ?n = "length s - 1"
  have n: "pa_offset pb + ?n < length (pa_content pb)" using l assms(4) by (cases s) (auto simp: rest_of_def)
  have "rest_of pb ! ?n = s ! ?n"
    using assms(2,4) unfolding looking_at_def by (metis diff_less length_greater_0_conv nth_take zero_less_one)
  moreover have "s ! ?n \<in> set s" using assms(4) by (intro nth_mem) simp
  moreover have "rest_of pb ! ?n = pa_content pb ! (pa_offset pb + ?n)"
    using n by (simp add: rest_of_def)
  ultimately have "pa_content pb ! (pa_offset pb + ?n) \<noteq> NUL" using assms(3) by metis
  from not_last [OF assms(1) n this] have "pa_offset pb + length s < length (pa_content pb)"
    using assms(4) by (cases s) auto
  then show "ahead pb (move (length s) pb)" using move_ahead [OF assms(1)] by blast
  show "pa_offset pb < pa_offset (move (length s) pb)" using assms(4) by (simp add: move_def)
qed

text \<open>
  The types of items: a string has text, only arrays and objects have children, the members of an
  object have names, and the integer of a number is its value.
\<close>

fun jtyped :: "cjson \<Rightarrow> bool" where
  "jtyped (Item b t k vs vi vd ch) \<longleftrightarrow> t \<noteq> cJSON_Invalid \<and> t \<noteq> cJSON_Raw
     \<and> (t = cJSON_String \<longleftrightarrow> vs \<noteq> None)
     \<and> (t = cJSON_Number \<longrightarrow> sat_int vd = Some vi \<and> vd \<noteq> NaN)
     \<and> (ch \<noteq> [] \<longrightarrow> t = cJSON_Array \<or> t = cJSON_Object)
     \<and> (t = cJSON_Object \<longrightarrow> (\<forall>c\<in>set ch. i_string c \<noteq> NoKey))
     \<and> (\<forall>c\<in>set ch. jtyped c)"

definition fresh :: "cjson \<Rightarrow> bool" where
  "fresh i \<longleftrightarrow> i_valuestring i = None \<and> i_child i = []"

text \<open>
  What a parser of a value guarantees for an item: it returns, the memory of a failed attempt is
  that of the item alone, and a success has moved on and produced a typed item.
\<close>

definition value_post :: "cjson \<Rightarrow> parse_buffer \<Rightarrow> heap \<Rightarrow> block multiset \<Rightarrow> cjson parse_result \<Rightarrow> bool" where
  "value_post item pb h B r = (case r of None \<Rightarrow> False
     | Some (None, h') \<Rightarrow> h_ok h' = h_ok h \<and> howns h' (jblocks item + B)
     | Some (Some (i, pb'), h') \<Rightarrow> h_ok h' = h_ok h \<and> howns h' (jblocks i + B) \<and> jtyped i \<and> i_string i = i_string item
         \<and> ahead pb pb' \<and> pa_offset pb < pa_offset pb')"

definition value_safe :: "value_parser \<Rightarrow> nat \<Rightarrow> bool" where
  "value_safe pv n \<longleftrightarrow> (\<forall>item pb h B. fresh item \<longrightarrow> pa_ok pb \<longrightarrow> remaining pb \<le> n
     \<longrightarrow> howns h (jblocks item + B) \<longrightarrow> value_post item pb h B (pv item pb h))"

lemma fresh_set:
  assumes "fresh item"
  shows "jtyped (set_type cJSON_NULL item)" "jtyped (set_type cJSON_False item)" "jtyped (set_true item)"
    "i_string (set_type t item) = i_string item" "i_string (set_true item) = i_string item"
    "jblocks (set_true item) = jblocks item"
  using assms by (cases item; simp add: fresh_def set_type_def set_true_def)+

lemma parse_number_safe:
  assumes "fresh item" "pa_ok pb" "howns h (jblocks item + B)"
  shows "value_post item pb h B (parse_number item pb h)"
proof -
  let ?s = "takeWhile num_char (take 63 (rest_of pb))"
  obtain d n where st: "strtod ?s = (d, n)" by fastforce
  have n: "n \<le> length ?s" using strtod_le [of ?s] st by simp
  have d: "d \<noteq> NaN" using strtod_not_nan [of ?s] st by simp
  then obtain v where v: "sat_int d = Some v" by (cases d) (auto simp: Let_def)
  show ?thesis
  proof (cases "n = 0")
    case True
    then show ?thesis using st assms by (simp add: parse_number_def value_post_def)
  next
    case False
    let ?p = "take n ?s"
    have p: "?p = take n (rest_of pb)"
    proof -
      obtain t where "take 63 (rest_of pb) = ?s @ t" by (metis takeWhile_dropWhile_id)
      moreover obtain u where "rest_of pb = take 63 (rest_of pb) @ u" by (metis append_take_drop_id)
      ultimately have "rest_of pb = ?s @ t @ u" by (metis append_assoc)
      then show ?thesis using n by (metis append_take_drop_id take_append take_take append_Nil2 diff_is_0_eq take_eq_Nil)
    qed
    have l: "length ?p = n" using n by simp
    have "looking_at ?p pb" unfolding looking_at_def l by (rule p [symmetric])
    moreover have "NUL \<notin> set ?p"
      using num_char_not_nul set_takeWhileD in_set_takeD by fast
    moreover have "?p \<noteq> []" using False l by fastforce
    ultimately have m: "ahead pb (move n pb)" "pa_offset pb < pa_offset (move n pb)"
      using prefix_move [OF assms(2)] l by metis+
    show ?thesis
      using st v False assms d m
      by (cases item) (simp add: parse_number_def value_post_def set_number_def fresh_def)
  qed
qed

lemma peek_some: "pa_ok pb \<Longrightarrow> peek pb = Some (pa_content pb ! pa_offset pb)"
  by (simp add: peek_def can_access_def pa_ok_def)

lemma parse_string_safe:
  assumes "fresh item" "pa_ok pb" "howns h (jblocks item + B)"
  shows "value_post item pb h B (parse_string item pb h)"
    "\<And>i pb' h'. parse_string item pb h = Some (Some (i, pb'), h')
      \<Longrightarrow> \<exists>b s. i = set_vstr cJSON_String (Some (b, s)) item"
proof -
  show "\<And>i pb' h'. parse_string item pb h = Some (Some (i, pb'), h')
      \<Longrightarrow> \<exists>b s. i = set_vstr cJSON_String (Some (b, s)) item"
    by (auto simp: parse_string_def Let_def split: if_splits option.splits prod.splits bind_splits)
  let ?inp = "drop 1 (rest_of pb)"
  note pk = peek_some [OF assms(2)]
  show "value_post item pb h B (parse_string item pb h)"
  proof (cases "pa_content pb ! pa_offset pb = CHR 0x22 \<and> string_end ?inp \<noteq> None")
    case False
    then have "parse_string item pb h = Some (None, h)" using pk by (cases "string_end ?inp") (auto simp: parse_string_def)
    then show ?thesis using assms by (simp add: value_post_def)
  next
    case True
    then obtain n k where nk: "string_end ?inp = Some (n, k)" by fastforce
    obtain ms where ms: "length ms = n" "marked ms = k" "marks_ok ?inp ms" "n < length ?inp" "?inp ! n = CHR 0x22"
      using string_end_marks [OF nk] by blast
    obtain p h1 where p: "h_alloc h = (p, h1)" by fastforce
    note al = howns_alloc [OF assms(3) p]
    show ?thesis
    proof (cases p)
      case None
      then show ?thesis using True nk p al pk by (auto simp: parse_string_def value_post_def)
    next
      case (Some b)
      have "unescape ?inp n (n + 1 - k + 1) \<noteq> None"
        by (rule unescape_safe [OF ms(3,1)]) (use ms marked_le [of ms] in auto)
      then obtain r where r: "unescape ?inp n (n + 1 - k + 1) = Some r" by blast
      show ?thesis
      proof (cases r)
        case None
        have "howns h1 (add_mset b (jblocks item + B))" using al(1) Some by simp
        then obtain h2 where "h_free b h1 = Some h2" "howns h2 (jblocks item + B)" "h_ok h2 = h_ok h1"
          by (rule howns_free)
        then show ?thesis
          using True nk p al pk r None Some by (auto simp: parse_string_def value_post_def)
      next
        case (Some s)
        have i: "i_valuestring item = None" "i_child item = []" using assms(1) by (simp_all add: fresh_def)
        let ?i = "set_vstr cJSON_String (Some (b, takeWhile (\<lambda>c. c \<noteq> NUL) s)) item"
        have own: "howns h1 (jblocks ?i + B)" using al(1) \<open>p = Some b\<close> i by (simp add: ac_simps)
        have q: "pa_offset pb + (n + 1) < length (pa_content pb)" "pa_content pb ! (pa_offset pb + (n + 1)) = CHR 0x22"
          using ms(4,5) by (auto simp: rest_of_def)
        have "pa_offset pb + (n + 1) + 1 < length (pa_content pb)" using not_last [OF assms(2) q(1)] q(2) by simp
        then have m: "ahead pb (move (n + 2) pb)" using move_ahead [OF assms(2), of "n + 2"] by simp
        have t: "jtyped ?i" "i_string ?i = i_string item" using i by (cases item; simp add: set_vstr_def)+
        have "parse_string item pb h = Some (Some (?i, move (n + 2) pb), h1)"
          using True nk p pk r Some \<open>p = Some b\<close> by (simp add: parse_string_def)
        then show ?thesis
          using al(2) own m t by (simp add: value_post_def move_def)
      qed
    qed
  qed
qed

text \<open>The loops: on failure the items attached so far are gone too.\<close>

definition list_post ::
  "bool \<Rightarrow> char \<Rightarrow> parse_buffer \<Rightarrow> heap \<Rightarrow> block multiset \<Rightarrow> cjson list parse_result \<Rightarrow> bool" where
  "list_post named cl pb h B r = (case r of None \<Rightarrow> False
     | Some (None, h') \<Rightarrow> h_ok h' = h_ok h \<and> howns h' B
     | Some (Some (cs, pb'), h') \<Rightarrow> h_ok h' = h_ok h \<and> howns h' (sum_list (map jblocks cs) + B)
         \<and> (\<forall>c\<in>set cs. jtyped c \<and> (named \<longrightarrow> i_string c \<noteq> NoKey)) \<and> ahead pb pb' \<and> at_char cl pb')"

lemma fail_with_owns:
  assumes "howns h (sum_list (map jblocks cs) + B)"
  shows "\<exists>h'. fail_with cs h = Some (None, h') \<and> howns h' B \<and> h_ok h' = h_ok h"
  using cJSON_Delete_owns [OF assms] by (auto simp: fail_with_def)

lemma fail_list_post:
  assumes "howns h1 (sum_list (map jblocks cs) + B)" "h_ok h1 = h_ok h"
  shows "list_post named cl pb h B (fail_with cs h1)"
proof -
  obtain h' where "(fail_with cs h1 :: cjson list parse_result) = Some (None, h')" "howns h' B" "h_ok h' = h_ok h1"
    using fail_with_owns [OF assms(1)] by blast
  then show ?thesis using assms(2) by (simp add: list_post_def)
qed

lemma list_post_later:
  assumes "list_post named cl pb' h' B r" "ahead pb pb'" "h_ok h' = h_ok h"
  shows "list_post named cl pb h B r"
  using assms ahead_trans by (auto simp: list_post_def split: option.splits)

lemma new_item_fresh:
  assumes "howns h B" "cJSON_New_Item h = (Some i, h')"
  shows "howns h' (jblocks i + B)" "h_ok h' = h_ok h" "fresh i" "i_string i = NoKey"
  using howns_new_item [OF assms] by (auto simp: fresh_def)

lemma value_postD:
  assumes "value_safe pv n" "fresh item" "pa_ok pb" "remaining pb \<le> n" "howns h (jblocks item + B)"
  obtains h' where "pv item pb h = Some (None, h')" "h_ok h' = h_ok h" "howns h' (jblocks item + B)"
  | i pb' h' where "pv item pb h = Some (Some (i, pb'), h')" "h_ok h' = h_ok h" "howns h' (jblocks i + B)" "jtyped i"
    "i_string i = i_string item" "ahead pb pb'" "pa_offset pb < pa_offset pb'"
proof -
  have v: "value_post item pb h B (pv item pb h)" using assms by (auto simp: value_safe_def)
  then obtain r h' where r: "pv item pb h = Some (r, h')" by (auto simp: value_post_def split: option.splits)
  show thesis
  proof (cases r)
    case None
    with v r that(1) show thesis by (simp add: value_post_def)
  next
    case (Some q)
    obtain i pb' where "q = (i, pb')" by fastforce
    with Some v r that(2) show thesis by (simp add: value_post_def)
  qed
qed

lemma step_in:
  assumes "pa_ok pb" "pa_offset pb + 1 < length (pa_content pb)"
  defines "pb1 \<equiv> buffer_skip_whitespace (move 1 pb)"
  shows "ahead pb pb1" "pa_offset pb < pa_offset pb1" "pa_ok pb1" "Suc (remaining pb1) \<le> remaining pb"
proof -
  have m: "ahead pb (move 1 pb)" using move_ahead [OF assms(1,2)] .
  then have s: "ahead (move 1 pb) pb1" unfolding pb1_def by (intro skip_ahead) (simp add: ahead_def)
  then show a: "ahead pb pb1" using ahead_trans m by blast
  show o: "pa_offset pb < pa_offset pb1" using s by (simp add: ahead_def move_def)
  show "pa_ok pb1" using a by (simp add: ahead_def)
  show "Suc (remaining pb1) \<le> remaining pb" using a o by (auto simp: remaining_def ahead_def pa_ok_def)
qed

lemma skip_after:
  assumes "ahead pb pb'" "pa_offset pb < pa_offset pb'"
  shows "ahead pb (buffer_skip_whitespace pb')" "pa_offset pb < pa_offset (buffer_skip_whitespace pb')"
    "pa_ok (buffer_skip_whitespace pb')" "remaining (buffer_skip_whitespace pb') < remaining pb"
proof -
  have s: "ahead pb' (buffer_skip_whitespace pb')" using assms(1) by (intro skip_ahead) (simp add: ahead_def)
  show a: "ahead pb (buffer_skip_whitespace pb')" using ahead_trans [OF assms(1) s] .
  show o: "pa_offset pb < pa_offset (buffer_skip_whitespace pb')" using s assms(2) by (simp add: ahead_def)
  show "pa_ok (buffer_skip_whitespace pb')" using a by (simp add: ahead_def)
  show "remaining (buffer_skip_whitespace pb') < remaining pb"
    using a o by (auto simp: remaining_def ahead_def pa_ok_def)
qed

lemma at_char_inner: "pa_ok pb \<Longrightarrow> at_char c pb \<Longrightarrow> c \<noteq> NUL \<Longrightarrow> pa_offset pb + 1 < length (pa_content pb)"
  using not_last [of pb 0] by (auto simp: at_char_def can_access_def)

lemma parse_elements_safe:
  assumes pv: "value_safe pv n"
  shows "\<lbrakk>pa_ok pb; pa_offset pb + 1 < length (pa_content pb); remaining pb \<le> Suc n; remaining pb \<le> fuel;
      \<forall>c\<in>set acc. jtyped c; howns h (sum_list (map jblocks acc) + B)\<rbrakk>
    \<Longrightarrow> list_post False (CHR '']'') pb h B (parse_elements pv fuel acc pb h)"
proof (induction fuel arbitrary: acc pb h)
  case 0
  then show ?case by (simp add: remaining_def)
next
  case (Suc fuel)
  define pb1 where "pb1 = buffer_skip_whitespace (move 1 pb)"
  note pb1 = step_in [OF Suc.prems(1,2), folded pb1_def]
  obtain p h1 where p: "cJSON_New_Item h = (p, h1)" by fastforce
  show ?case
  proof (cases p)
    case None
    have "howns h1 (sum_list (map jblocks acc) + B)" "h_ok h1 = h_ok h"
      using howns_new_item [OF Suc.prems(6) p] None by auto
    from fail_list_post [OF this] show ?thesis using None p by simp
  next
    case (Some item)
    note new = new_item_fresh [OF Suc.prems(6) p [unfolded Some]]
    have own: "howns h1 (jblocks item + (sum_list (map jblocks acc) + B))" using new(1) .
    have rem: "remaining pb1 \<le> n" using pb1(4) Suc.prems(3) by simp
    show ?thesis
    proof (rule value_postD [OF pv new(3) pb1(3) rem own])
      fix h2
      assume h2: "pv item pb1 h1 = Some (None, h2)" "h_ok h2 = h_ok h1" "howns h2 (jblocks item + (sum_list (map jblocks acc) + B))"
      have "howns h2 (sum_list (map jblocks (acc @ [item])) + B)" using h2(3) by (simp add: ac_simps)
      from fail_list_post [OF this] show ?thesis
        using h2(1,2) new(2) Some p by (simp add: pb1_def)
    next
      fix i pb2 h2
      assume h2: "pv item pb1 h1 = Some (Some (i, pb2), h2)" "h_ok h2 = h_ok h1"
        "howns h2 (jblocks i + (sum_list (map jblocks acc) + B))" "jtyped i" "i_string i = i_string item"
        "ahead pb1 pb2" "pa_offset pb1 < pa_offset pb2"
      define pb3 where "pb3 = buffer_skip_whitespace pb2"
      note pb3 = skip_after [OF ahead_trans [OF pb1(1) h2(6)] less_trans [OF pb1(2) h2(7)], folded pb3_def]
      have own3: "howns h2 (sum_list (map jblocks (acc @ [i])) + B)" using h2(3) by (simp add: ac_simps)
      have al: "h_ok h2 = h_ok h" using h2(2) new(2) by simp
      consider "at_char (CHR '','') pb3" | "\<not> at_char (CHR '','') pb3" "at_char (CHR '']'') pb3"
        | "\<not> at_char (CHR '','') pb3" "\<not> at_char (CHR '']'') pb3" by blast
      then show ?thesis
      proof cases
        case 1
        have "list_post False (CHR '']'') pb3 h2 B (parse_elements pv fuel (acc @ [i]) pb3 h2)"
          using Suc.prems pb3 own3 h2(4) at_char_inner [OF pb3(3) 1] by (intro Suc.IH) auto
        then have "list_post False (CHR '']'') pb h B (parse_elements pv fuel (acc @ [i]) pb3 h2)"
          using pb3(1) al by (rule list_post_later)
        then show ?thesis using h2(1) Some p 1 by (simp add: Let_def del: One_nat_def flip: pb1_def pb3_def)
      next
        case 2
        then show ?thesis
          using h2(1,4) Some p own3 al pb3(1) Suc.prems(5)
          by (auto simp: Let_def list_post_def simp del: One_nat_def simp flip: pb1_def pb3_def)
      next
        case 3
        from fail_list_post [OF own3 al] show ?thesis
          using h2(1) Some p 3 by (simp add: Let_def del: One_nat_def flip: pb1_def pb3_def)
      qed
    qed
  qed
qed

lemma string_value_safe: "value_safe parse_string n"
  using parse_string_safe(1) by (simp add: value_safe_def)

lemma swap_name_spec:
  assumes "i = set_vstr cJSON_String (Some (b, s)) item" "fresh item" "i_string item = NoKey"
  shows "jblocks (swap_name i) = jblocks i" "fresh (swap_name i)" "i_string (swap_name i) \<noteq> NoKey"
  using assms by (cases item; simp add: swap_name_def set_vstr_def fresh_def)+

lemma parse_members_safe:
  assumes pv: "value_safe pv n"
  shows "\<lbrakk>pa_ok pb; pa_offset pb + 1 < length (pa_content pb); remaining pb \<le> Suc n; remaining pb \<le> fuel;
      \<forall>c\<in>set acc. jtyped c \<and> i_string c \<noteq> NoKey; howns h (sum_list (map jblocks acc) + B)\<rbrakk>
    \<Longrightarrow> list_post True (CHR ''}'') pb h B (parse_members pv fuel acc pb h)"
proof (induction fuel arbitrary: acc pb h)
  case 0
  then show ?case by (simp add: remaining_def)
next
  case (Suc fuel)
  define pb1 where "pb1 = buffer_skip_whitespace (move 1 pb)"
  note pb1 = step_in [OF Suc.prems(1,2), folded pb1_def]
  obtain p h1 where p: "cJSON_New_Item h = (p, h1)" by fastforce
  show ?case
  proof (cases p)
    case None
    have "howns h1 (sum_list (map jblocks acc) + B)" "h_ok h1 = h_ok h"
      using howns_new_item [OF Suc.prems(6) p] None by auto
    from fail_list_post [OF this] show ?thesis using None p by simp
  next
    case (Some item)
    note new = new_item_fresh [OF Suc.prems(6) p [unfolded Some]]
    show ?thesis
    proof (rule value_postD [OF string_value_safe new(3) pb1(3) order_refl new(1)])
      fix h2
      assume h2: "parse_string item pb1 h1 = Some (None, h2)" "h_ok h2 = h_ok h1"
        "howns h2 (jblocks item + (sum_list (map jblocks acc) + B))"
      have "howns h2 (sum_list (map jblocks (acc @ [item])) + B)" using h2(3) by (simp add: ac_simps)
      from fail_list_post [OF this] show ?thesis
        using h2(1,2) new(2) Some p by (simp add: pb1_def)
    next
      fix i pb2 h2
      assume h2: "parse_string item pb1 h1 = Some (Some (i, pb2), h2)" "h_ok h2 = h_ok h1"
        "howns h2 (jblocks i + (sum_list (map jblocks acc) + B))" "jtyped i" "i_string i = i_string item"
        "ahead pb1 pb2" "pa_offset pb1 < pa_offset pb2"
      obtain b s where "i = set_vstr cJSON_String (Some (b, s)) item"
        using parse_string_safe(2) [OF new(3) pb1(3) new(1) h2(1)] by blast
      note nm = swap_name_spec [OF this new(3,4)]
      define pb3 where "pb3 = buffer_skip_whitespace pb2"
      note pb3 = skip_after [OF ahead_trans [OF pb1(1) h2(6)] less_trans [OF pb1(2) h2(7)], folded pb3_def]
      have own3: "howns h2 (jblocks (swap_name i) + (sum_list (map jblocks acc) + B))" using h2(3) nm(1) by simp
      have fail3: "howns h2 (sum_list (map jblocks (acc @ [swap_name i])) + B)" using own3 by (simp add: ac_simps)
      have al: "h_ok h2 = h_ok h" using h2(2) new(2) by simp
      show ?thesis
      proof (cases "at_char (CHR '':'') pb3")
        case False
        from fail_list_post [OF fail3 al] show ?thesis
          using h2(1) Some p False by (simp add: Let_def del: One_nat_def flip: pb1_def pb3_def)
      next
        case colon: True
        define pb4 where "pb4 = buffer_skip_whitespace (move 1 pb3)"
        note pb4 = step_in [OF pb3(3) at_char_inner [OF pb3(3) colon], folded pb4_def, simplified]
        have a4: "ahead pb pb4" using ahead_trans [OF pb3(1) pb4(1)] .
        have rem: "remaining pb4 \<le> n" using pb4(4) pb3(4) Suc.prems(3) by simp
        show ?thesis
        proof (rule value_postD [OF pv nm(2) pb4(3) rem own3])
          fix h4
          assume h4: "pv (swap_name i) pb4 h2 = Some (None, h4)" "h_ok h4 = h_ok h2"
            "howns h4 (jblocks (swap_name i) + (sum_list (map jblocks acc) + B))"
          have "howns h4 (sum_list (map jblocks (acc @ [swap_name i])) + B)" "h_ok h4 = h_ok h"
            using h4(2,3) al by (simp_all add: ac_simps)
          from fail_list_post [OF this] show ?thesis
            using h2(1) h4(1) Some p colon by (simp add: Let_def del: One_nat_def flip: pb1_def pb3_def pb4_def)
        next
          fix j pb5 h4
          assume h4: "pv (swap_name i) pb4 h2 = Some (Some (j, pb5), h4)" "h_ok h4 = h_ok h2"
            "howns h4 (jblocks j + (sum_list (map jblocks acc) + B))" "jtyped j" "i_string j = i_string (swap_name i)"
            "ahead pb4 pb5" "pa_offset pb4 < pa_offset pb5"
          define pb6 where "pb6 = buffer_skip_whitespace pb5"
          have "pa_offset pb < pa_offset pb5" using pb3(2) pb4(2) h4(7) by simp
          note pb6 = skip_after [OF ahead_trans [OF a4 h4(6)] this, folded pb6_def]
          have own6: "howns h4 (sum_list (map jblocks (acc @ [j])) + B)" using h4(3) by (simp add: ac_simps)
          have al4: "h_ok h4 = h_ok h" using h4(2) al by simp
          have eq: "parse_members pv (Suc fuel) acc pb h =
            (if at_char (CHR '','') pb6 then parse_members pv fuel (acc @ [j]) pb6 h4
             else if at_char (CHR ''}'') pb6 then Some (Some (acc @ [j], pb6), h4)
             else fail_with (acc @ [j]) h4)"
            using h2(1) h4(1) Some p colon
            by (simp add: Let_def del: One_nat_def flip: pb1_def pb3_def pb4_def pb6_def)
          consider "at_char (CHR '','') pb6" | "\<not> at_char (CHR '','') pb6" "at_char (CHR ''}'') pb6"
            | "\<not> at_char (CHR '','') pb6" "\<not> at_char (CHR ''}'') pb6" by blast
          then show ?thesis
          proof cases
            case 1
            have "list_post True (CHR ''}'') pb6 h4 B (parse_members pv fuel (acc @ [j]) pb6 h4)"
              using Suc.prems pb6 own6 h4(4,5) nm(3) at_char_inner [OF pb6(3) 1] by (intro Suc.IH) auto
            from list_post_later [OF this pb6(1) al4] show ?thesis unfolding eq if_P [OF 1] .
          next
            case 2
            then show ?thesis
              unfolding eq using h4(4,5) nm(3) own6 al4 pb6(1) Suc.prems(5) by (auto simp: list_post_def)
          next
            case 3
            then show ?thesis unfolding eq using fail_list_post [OF own6 al4] by simp
          qed
        qed
      qed
    qed
  qed
qed

text \<open>Arrays and objects, and by induction on the bound every value.\<close>

lemma jblocks_children:
  assumes "fresh item"
  shows "jblocks (set_children t cs item) = sum_list (map jblocks cs) + jblocks item"
    "i_string (set_children t cs item) = i_string item"
    "t = cJSON_Array \<and> (\<forall>c\<in>set cs. jtyped c)
      \<or> t = cJSON_Object \<and> (\<forall>c\<in>set cs. jtyped c \<and> i_string c \<noteq> NoKey) \<Longrightarrow> jtyped (set_children t cs item)"
  using assms by (cases item; auto simp: set_children_def set_type_def set_child_def fresh_def ac_simps)+

lemma close_post:
  assumes "fresh item" "howns h1 (sum_list (map jblocks cs) + (jblocks item + B))" "h_ok h1 = h_ok h"
    and t: "t = cJSON_Array \<and> (\<forall>c\<in>set cs. jtyped c)
      \<or> t = cJSON_Object \<and> (\<forall>c\<in>set cs. jtyped c \<and> i_string c \<noteq> NoKey)"
    and pb': "ahead (pb\<lparr>pa_depth := Suc (pa_depth pb)\<rparr>) pb'" "at_char c pb'" "c \<noteq> NUL"
  shows "value_post item pb h B (close_with t item cs pb' h1)"
proof -
  have ok: "pa_ok pb'" using pb'(1) by (simp add: ahead_def)
  have "ahead pb (move 1 (pb'\<lparr>pa_depth := pa_depth pb' - 1\<rparr>))"
    using at_char_move(1) [OF ok pb'(2,3)] pb'(1) by (simp add: ahead_def pa_ok_def move_def)
  moreover have "pa_offset pb < pa_offset (move 1 (pb'\<lparr>pa_depth := pa_depth pb' - 1\<rparr>))"
    using pb'(1) by (simp add: ahead_def move_def)
  ultimately show ?thesis
    using jblocks_children(1,2) [OF assms(1)] jblocks_children(3) [OF assms(1) t] assms(2,3)
    by (simp add: close_with_def value_post_def ac_simps)
qed

lemma open_bracket:
  assumes "pa_ok pb" "at_char c pb" "c \<noteq> NUL"
  defines "pb1 \<equiv> buffer_skip_whitespace (move 1 (pb\<lparr>pa_depth := Suc (pa_depth pb)\<rparr>))"
  shows "ahead (pb\<lparr>pa_depth := Suc (pa_depth pb)\<rparr>) pb1" "can_access pb1 0" "pa_ok (step_back pb1)"
    "ahead (pb\<lparr>pa_depth := Suc (pa_depth pb)\<rparr>) (step_back pb1)"
    "pa_offset (step_back pb1) + 1 < length (pa_content (step_back pb1))" "remaining (step_back pb1) \<le> remaining pb"
proof -
  let ?pb = "pb\<lparr>pa_depth := Suc (pa_depth pb)\<rparr>"
  have ok: "pa_ok ?pb" "at_char c ?pb" using assms(1,2) by (simp_all add: pa_ok_def at_char_def can_access_def)
  note s = step_in [OF ok(1) at_char_inner [OF ok assms(3)], folded pb1_def]
  from s show "ahead ?pb pb1" "can_access pb1 0" by (simp_all add: can_access_def pa_ok_def)
  from s show "pa_ok (step_back pb1)" "ahead ?pb (step_back pb1)"
    "pa_offset (step_back pb1) + 1 < length (pa_content (step_back pb1))" "remaining (step_back pb1) \<le> remaining pb"
    by (auto simp: ahead_def pa_ok_def step_back_def remaining_def)
qed

lemma list_postD:
  assumes "list_post named cl pb h B r"
  obtains h' where "r = Some (None, h')" "h_ok h' = h_ok h" "howns h' B"
  | cs pb' h' where "r = Some (Some (cs, pb'), h')" "h_ok h' = h_ok h" "howns h' (sum_list (map jblocks cs) + B)"
    "\<forall>c\<in>set cs. jtyped c \<and> (named \<longrightarrow> i_string c \<noteq> NoKey)" "ahead pb pb'" "at_char cl pb'"
proof -
  obtain q h' where r: "r = Some (q, h')" using assms by (auto simp: list_post_def split: option.splits)
  show thesis
  proof (cases q)
    case None
    with assms r that(1) show thesis by (simp add: list_post_def)
  next
    case (Some p)
    obtain cs pb' where "p = (cs, pb')" by fastforce
    with Some assms r that(2) show thesis by (simp add: list_post_def)
  qed
qed

lemma parse_array_safe:
  assumes pv: "value_safe pv n" and "fresh item" "pa_ok pb" "remaining pb \<le> Suc n" "remaining pb \<le> fuel"
    "howns h (jblocks item + B)" and c: "at_char (CHR ''['') pb"
  shows "value_post item pb h B (parse_array pv fuel item pb h)"
proof (cases "pa_depth pb \<ge> CJSON_NESTING_LIMIT")
  case True
  then show ?thesis using assms by (simp add: parse_array_def value_post_def)
next
  case False
  define pb1 where "pb1 = buffer_skip_whitespace (move 1 (pb\<lparr>pa_depth := Suc (pa_depth pb)\<rparr>))"
  have nn: "CHR ''['' \<noteq> NUL" "CHR '']'' \<noteq> NUL" by simp_all
  have sc: "pa_depth pb + 1 = Suc (pa_depth pb)" by simp
  note ob = open_bracket [OF assms(3) c nn(1), folded pb1_def]
  have pk: "peek (pb\<lparr>pa_depth := Suc (pa_depth pb)\<rparr>) = Some (CHR ''['')"
    using c by (simp add: peek_def at_char_def can_access_def)
  show ?thesis
  proof (cases "at_char (CHR '']'') pb1")
    case True
    have "value_post item pb h B (close_with cJSON_Array item [] pb1 h)"
      by (rule close_post [OF assms(2) _ refl _ ob(1) True nn(2)]) (use assms(6) in auto)
    then show ?thesis using False True pk by (simp add: parse_array_def Let_def sc del: One_nat_def flip: pb1_def)
  next
    case opn: False
    have eq: "parse_array pv fuel item pb h = do {
        (r, h) \<leftarrow> parse_elements pv fuel [] (step_back pb1) h;
        (case r of None \<Rightarrow> Some (None, h) | Some (cs, pb) \<Rightarrow> close_with cJSON_Array item cs pb h) }"
      using False opn pk ob(2) by (simp add: parse_array_def Let_def sc del: One_nat_def flip: pb1_def)
    have "list_post False (CHR '']'') (step_back pb1) h (jblocks item + B) (parse_elements pv fuel [] (step_back pb1) h)"
      by (rule parse_elements_safe [OF pv ob(3)]) (use ob assms in auto)
    then show ?thesis
    proof (cases rule: list_postD)
      case (1 h')
      then show ?thesis unfolding eq by (simp add: value_post_def)
    next
      case (2 cs pb' h')
      have "value_post item pb h B (close_with cJSON_Array item cs pb' h')"
        by (rule close_post [OF assms(2) 2(3,2) _ ahead_trans [OF ob(4) 2(5)] 2(6) nn(2)]) (use 2(4) in auto)
      then show ?thesis unfolding eq using 2(1) by simp
    qed
  qed
qed

lemma parse_object_safe:
  assumes pv: "value_safe pv n" and "fresh item" "pa_ok pb" "remaining pb \<le> Suc n" "remaining pb \<le> fuel"
    "howns h (jblocks item + B)" and c: "at_char (CHR ''{'') pb"
  shows "value_post item pb h B (parse_object pv fuel item pb h)"
proof (cases "pa_depth pb \<ge> CJSON_NESTING_LIMIT")
  case True
  then show ?thesis using assms by (simp add: parse_object_def value_post_def)
next
  case False
  define pb1 where "pb1 = buffer_skip_whitespace (move 1 (pb\<lparr>pa_depth := Suc (pa_depth pb)\<rparr>))"
  have nn: "CHR ''{'' \<noteq> NUL" "CHR ''}'' \<noteq> NUL" by simp_all
  have sc: "pa_depth pb + 1 = Suc (pa_depth pb)" by simp
  note ob = open_bracket [OF assms(3) c nn(1), folded pb1_def]
  have pk: "at_char (CHR ''{'') (pb\<lparr>pa_depth := Suc (pa_depth pb)\<rparr>)"
    using c by (simp add: at_char_def can_access_def)
  show ?thesis
  proof (cases "at_char (CHR ''}'') pb1")
    case True
    have "value_post item pb h B (close_with cJSON_Object item [] pb1 h)"
      by (rule close_post [OF assms(2) _ refl _ ob(1) True nn(2)]) (use assms(6) in auto)
    then show ?thesis using False True pk by (simp add: parse_object_def Let_def sc del: One_nat_def flip: pb1_def)
  next
    case opn: False
    have eq: "parse_object pv fuel item pb h = do {
        (r, h) \<leftarrow> parse_members pv fuel [] (step_back pb1) h;
        (case r of None \<Rightarrow> Some (None, h) | Some (cs, pb) \<Rightarrow> close_with cJSON_Object item cs pb h) }"
      using False opn pk ob(2) by (simp add: parse_object_def Let_def sc del: One_nat_def flip: pb1_def)
    have "list_post True (CHR ''}'') (step_back pb1) h (jblocks item + B) (parse_members pv fuel [] (step_back pb1) h)"
      by (rule parse_members_safe [OF pv ob(3)]) (use ob assms in auto)
    then show ?thesis
    proof (cases rule: list_postD)
      case (1 h')
      then show ?thesis unfolding eq by (simp add: value_post_def)
    next
      case (2 cs pb' h')
      have "value_post item pb h B (close_with cJSON_Object item cs pb' h')"
        by (rule close_post [OF assms(2) 2(3,2) _ ahead_trans [OF ob(4) 2(5)] 2(6) nn(2)]) (use 2(4) in auto)
      then show ?thesis unfolding eq using 2(1) by simp
    qed
  qed
qed

lemma parse_value_safe: "value_safe (parse_value (Suc n)) n"
proof (induction n)
  case 0
  show ?case unfolding value_safe_def by (auto simp: remaining_def pa_ok_def)
next
  case (Suc n)
  show ?case
    unfolding value_safe_def
  proof (intro allI impI)
    fix item pb h B
    assume a: "fresh item" "pa_ok pb" "remaining pb \<le> Suc n" "howns h (jblocks item + B)"
    have lit: "value_post item pb h B (Some (Some (i, move (length s) pb), h))"
      if "looking_at s pb" "NUL \<notin> set s" "s \<noteq> []" "jtyped i" "i_string i = i_string item" "jblocks i = jblocks item" for s i
      using prefix_move [OF a(2) that(1-3)] that(4-6) a(4) by (simp add: value_post_def)
    note f = fresh_set [OF a(1)]
    have "value_post item pb h B (Some (Some (set_type cJSON_NULL item, move 4 pb), h))" if "looking_at ''null'' pb"
      using lit [OF that, of "set_type cJSON_NULL item"] f by (simp add: eval_nat_numeral)
    moreover have "value_post item pb h B (Some (Some (set_type cJSON_False item, move 5 pb), h))" if "looking_at ''false'' pb"
      using lit [OF that, of "set_type cJSON_False item"] f by (simp add: eval_nat_numeral)
    moreover have "value_post item pb h B (Some (Some (set_true item, move 4 pb), h))" if "looking_at ''true'' pb"
      using lit [OF that, of "set_true item"] f by (simp add: eval_nat_numeral)
    moreover note parse_string_safe(1) [OF a(1,2,4)] parse_number_safe [OF a(1,2,4)]
    moreover have "value_post item pb h B (parse_array (parse_value (Suc n)) (Suc n) item pb h)" if "at_char (CHR ''['') pb"
      by (rule parse_array_safe [OF Suc.IH a(1,2,3,3,4) that])
    moreover have "value_post item pb h B (parse_object (parse_value (Suc n)) (Suc n) item pb h)" if "at_char (CHR ''{'') pb"
      by (rule parse_object_safe [OF Suc.IH a(1,2,3,3,4) that])
    moreover have "value_post item pb h B (Some (None, h))" using a(4) by (simp add: value_post_def)
    ultimately show "value_post item pb h B (parse_value (Suc (Suc n)) item pb h)"
      by (subst parse_value.simps(2)) (simp only: split: if_split, blast)
  qed
qed

text \<open>The text as the parser sees it, up to and with the terminator, positioned after an optional byte order mark and blanks.\<close>

definition parse_start :: "string \<Rightarrow> parse_buffer" where
  "parse_start m = buffer_skip_whitespace (skip_utf8_bom \<lparr>pa_content = takeWhile (\<lambda>c. c \<noteq> NUL) m @ [NUL], pa_offset = 0, pa_depth = 0\<rparr>)"

lemma parse_start_ok: "pa_ok (parse_start m)" "remaining (parse_start m) \<le> length (takeWhile (\<lambda>c. c \<noteq> NUL) m @ [NUL])"
proof -
  define pb where "pb = \<lparr>pa_content = takeWhile (\<lambda>c. c \<noteq> NUL) m @ [NUL], pa_offset = 0, pa_depth = 0\<rparr>"
  have ok: "pa_ok pb" by (simp add: pb_def pa_ok_def)
  have b: "ahead pb (skip_utf8_bom pb)"
  proof (cases "looking_at [CHR 0xEF, CHR 0xBB, CHR 0xBF] pb")
    case True
    have "ahead pb (move 3 pb)"
      using prefix_move(1) [OF ok True] by (simp add: eval_nat_numeral)
    then show ?thesis using ok by (simp add: skip_utf8_bom_def ahead_def)
  next
    case False
    then have "skip_utf8_bom pb = pb" by (auto simp: skip_utf8_bom_def looking_at_def eval_nat_numeral)
    then show ?thesis using ok by (simp add: ahead_def)
  qed
  then have "ahead pb (parse_start m)"
    unfolding parse_start_def pb_def [symmetric] by (intro ahead_trans [OF b] skip_ahead) (simp add: ahead_def)
  then show "pa_ok (parse_start m)" "remaining (parse_start m) \<le> length (takeWhile (\<lambda>c. c \<noteq> NUL) m @ [NUL])"
    by (auto simp: ahead_def remaining_def pb_def)
qed

lemma cJSON_Parse_eq:
  assumes "NUL \<in> set m"
  shows "cJSON_Parse (Some m) h = (case cJSON_New_Item h of
       (None, h) \<Rightarrow> Some (None, h)
     | (Some item, h) \<Rightarrow> do {
         (r, h) \<leftarrow> parse_value (length (takeWhile (\<lambda>c. c \<noteq> NUL) m) + 2) item (parse_start m) h;
         (case r of
            None \<Rightarrow> do { h \<leftarrow> cJSON_Delete [item] h; Some (None, h) }
          | Some (item, pb) \<Rightarrow> Some (Some item, h)) })"
  using assms
  by (auto simp: cJSON_Parse_def cJSON_ParseWithOpts_def parse_start_def Let_def eval_nat_numeral split: option.split prod.split)

lemma parse_top:
  assumes "NUL \<in> set m" "howns h B"
  shows "\<exists>r h'. cJSON_Parse (Some m) h = Some (r, h') \<and> h_ok h' = h_ok h \<and> howns h' (jblks r + B) \<and> (\<forall>i. r = Some i \<longrightarrow> jtyped i)"
proof -
  obtain q h1 where n: "cJSON_New_Item h = (q, h1)" by fastforce
  show ?thesis
  proof (cases q)
    case None
    then show ?thesis using assms n howns_new_item [OF assms(2) n] by (simp add: cJSON_Parse_eq)
  next
    case (Some item)
    note f = new_item_fresh [OF assms(2) n [unfolded Some]]
    define k where "k = length (takeWhile (\<lambda>c. c \<noteq> NUL) m)"
    have pv: "value_safe (parse_value (k + 2)) (Suc k)" using parse_value_safe [of "Suc k"] by (simp add: eval_nat_numeral)
    have le: "remaining (parse_start m) \<le> Suc k" using parse_start_ok(2) [of m] by (simp add: k_def)
    show ?thesis
    proof (cases rule: value_postD [OF pv f(3) parse_start_ok(1) le f(1)])
      case (1 h')
      obtain h2 where "cJSON_Delete [item] h' = Some h2" "howns h2 B" "h_ok h2 = h_ok h'"
        using cJSON_Delete_owns [of h' "[item]" B] 1(3) by auto
      then show ?thesis using 1 f(2) n Some assms(1) by (simp add: cJSON_Parse_eq flip: k_def)
    next
      case (2 i pb' h')
      then show ?thesis using f(2) n Some assms(1) by (simp add: cJSON_Parse_eq flip: k_def)
    qed
  qed
qed

section \<open>Parsing is safe\<close>

text \<open>
  C36. \<open>cJSON_Parse\<close> on any text with a terminator, well-formed JSON or not, and whatever the
  allocator does: it reads inside the text, writes inside the strings it allocates, frees nothing
  twice and returns; afterwards exactly the blocks of the returned tree are new (none when it is
  NULL: a failed parse leaks nothing).
\<close>

theorem cJSON_Parse_safe:
  assumes "NUL \<in> set m" "howns h B"
  shows "\<exists>r h'. cJSON_Parse (Some m) h = Some (r, h') \<and> howns h' (jblks r + B)"
  using parse_top [OF assms] by blast

theorem cJSON_Parse_safe_witness:
  "\<exists>r h'. cJSON_Parse (Some (''{'' @ [CHR 0x22, CHR 0x5C, CHR ''u'', NUL])) (heap0 (\<lambda>n. n < 1)) = Some (r, h')
     \<and> howns h' (jblks r)"
  using cJSON_Parse_safe [of "''{'' @ [CHR 0x22, CHR 0x5C, CHR ''u'', NUL]" "heap0 (\<lambda>n. n < 1)" "{#}"] by simp

text \<open>
  C37. A tree that \<open>cJSON_Parse\<close> returns is well typed: every item has one of the JSON types, string
  items and only those have text, numbers hold a value and its saturated integer, only arrays and
  objects have children and every member of an object has a name.
\<close>

theorem cJSON_Parse_typed:
  assumes "howns h B" "cJSON_Parse (Some m) h = Some (Some i, h')"
  shows "jtyped i"
proof -
  have "NUL \<in> set m" using assms(2) by (auto simp: cJSON_Parse_def cJSON_ParseWithOpts_def split: if_splits)
  then show ?thesis using parse_top [of m h B] assms by auto
qed

theorem cJSON_Parse_typed_witness:
  "\<exists>i h'. cJSON_Parse (Some (''[true]'' @ [NUL])) (heap0 (\<lambda>_. True)) = Some (Some i, h') \<and> jtyped i"
proof -
  have "\<exists>i h'. cJSON_Parse (Some (''[true]'' @ [NUL])) (heap0 (\<lambda>_. True)) = Some (Some i, h')"
    by (simp add: cJSON_Parse_def cJSON_ParseWithOpts_def Let_def cJSON_New_Item_def h_alloc_def am_alloc_def heap0_def
      am_empty_def skip_utf8_bom_def can_access_def buffer_skip_whitespace_def rest_of_def is_blank_def move_def
      looking_at_def at_char_def is_digit_def parse_array_def CJSON_NESTING_LIMIT_def peek_def step_back_def close_with_def eval_nat_numeral)
  then show ?thesis using cJSON_Parse_typed [OF howns_heap0] by blast
qed

end
