(* ===== verification/Cjson_Round.thy ===== *)
theory Cjson_Round
  imports Cjson_Parse
begin

text \<open>
  Printing and reading back (\<^verbatim>\<open>contrib/cJSON/cJSON.c\<close>): the text that \<open>cJSON_PrintUnformatted\<close> produces for
  a tree is read by \<open>cJSON_Parse\<close> as a tree of the same value.
\<close>

section \<open>Positions in the text\<close>

lemma rest_of_move [simp]: "rest_of (move n pb) = drop n (rest_of pb)"
  by (simp add: rest_of_def move_def add.commute)

lemma rest_of_depth [simp]: "rest_of (pb\<lparr>pa_depth := d\<rparr>) = rest_of pb"
  by (simp add: rest_of_def)

lemma move_move [simp]: "move n (move k pb) = move (k + n) pb"
  by (simp add: move_def add.assoc)

lemma move_0 [simp]: "move 0 pb = pb"
  by (simp add: move_def)

lemma pa_depth_move [simp]: "pa_depth (move n pb) = pa_depth pb"
  by (simp add: move_def)

lemma step_back_move [simp]: "step_back (move (Suc n) pb) = move n pb"
  by (simp add: move_def step_back_def)

lemma access_cons:
  assumes "rest_of pb = c # s"
  shows "can_access pb 0" "pa_content pb ! pa_offset pb = c"
proof -
  show "can_access pb 0" using assms by (cases "pa_offset pb < length (pa_content pb)") (auto simp: rest_of_def can_access_def)
  then show "pa_content pb ! pa_offset pb = c"
    using assms by (metis Cons_nth_drop_Suc add.right_neutral can_access_def list.inject rest_of_def)
qed

lemma at_char_cons: "rest_of pb = c # s \<Longrightarrow> at_char d pb \<longleftrightarrow> c = d"
  using access_cons [of pb c s] by (auto simp: at_char_def)

lemma peek_cons: "rest_of pb = c # s \<Longrightarrow> peek pb = Some c"
  using access_cons [of pb c s] by (simp add: peek_def)

lemma skip_cons:
  assumes "rest_of pb = c # s" "\<not> is_blank c"
  shows "buffer_skip_whitespace pb = pb"
  using assms access_cons(1) [OF assms(1)] by (simp add: buffer_skip_whitespace_def can_access_def)

lemma looking_at_cons: "rest_of pb = c # s \<Longrightarrow> c \<noteq> d \<Longrightarrow> \<not> looking_at (d # ds) pb"
  by (simp add: looking_at_def)

lemma looking_at_append: "rest_of pb = t @ s \<Longrightarrow> looking_at t pb"
  by (simp add: looking_at_def)

section \<open>Strings\<close>

lemma esc_cases:
  obtains "esc c = [c]" "c \<noteq> CHR 0x5C" "c \<noteq> CHR 0x22"
  | e where "esc c = [CHR 0x5C, e]" "e \<noteq> CHR ''u''" "unesc_letter e = Some c"
  | "esc c = CHR 0x5C # CHR ''u'' # hex4 (of_char c)" "(of_char c :: nat) < 32"
proof (cases "esc_letter c")
  case None
  then have n: "c \<noteq> CHR 0x5C" "c \<noteq> CHR 0x22" by (auto simp: esc_letter_def)
  show thesis using that(1,3) n None by (cases "ctl_char c") (simp_all add: esc_def ctl_char_def)
next
  case (Some e)
  have "e \<noteq> CHR ''u'' \<and> unesc_letter e = Some c"
    using Some by (auto simp: esc_letter_def unesc_letter_def split: if_splits)
  then show thesis using that(2) Some by (simp add: esc_def)
qed

lemma hex_digit_read:
  assumes "d < 16"
  shows "hex_val (hex_digit d) = Some d" "hex_digit d \<noteq> CHR 0x22" "hex_digit d \<noteq> CHR 0x5C"
proof -
  show h: "hex_val (hex_digit d) = Some d" using assms by (simp add: hex_val_def hex_digit_def Let_def)
  have "hex_val (CHR 0x22) = None" "hex_val (CHR 0x5C) = None" by (simp_all add: hex_val_def)
  with h show "hex_digit d \<noteq> CHR 0x22" "hex_digit d \<noteq> CHR 0x5C" by auto
qed

lemma hex4_read:
  assumes "n < 32"
  shows "parse_hex4 (hex4 n @ s) = n" "CHR 0x22 \<notin> set (hex4 n)" "CHR 0x5C \<notin> set (hex4 n)" "length (hex4 n) = 4"
proof -
  have d: "n div 4096 = 0" "n div 256 = 0" "n div 16 mod 16 = n div 16" "n div 16 < 16" using assms by auto
  have "n = n div 16 * 16 + n mod 16" by simp
  then show "parse_hex4 (hex4 n @ s) = n"
    using hex_digit_read(1) [OF d(4)] hex_digit_read(1) [of "n mod 16"] hex_digit_read(1) [of 0]
    by (simp add: parse_hex4_def hex4_def d)
  show "CHR 0x22 \<notin> set (hex4 n)" "CHR 0x5C \<notin> set (hex4 n)"
    using hex_digit_read(2,3) by (metis hex4_def insertE empty_iff empty_set list.simps(15) mod_less_divisor zero_less_numeral)+
  show "length (hex4 n) = 4" by (simp add: hex4_def)
qed

lemma string_end_plain:
  "CHR 0x22 \<notin> set p \<Longrightarrow> CHR 0x5C \<notin> set p \<Longrightarrow> string_end q = Some (n, k)
     \<Longrightarrow> string_end (p @ q) = Some (length p + n, k)"
  by (induction p) auto

lemma string_end_esc: "\<exists>k. string_end (esc_string s @ CHR 0x22 # rest) = Some (length (esc_string s), k)"
proof (induction s)
  case Nil
  then show ?case by (simp add: esc_string_def)
next
  case (Cons c s)
  let ?q = "esc_string s @ CHR 0x22 # rest"
  obtain k where k: "string_end ?q = Some (length (esc_string s), k)" using Cons.IH by blast
  have e: "esc_string (c # s) = esc c @ esc_string s" by (simp add: esc_string_def)
  show ?case
  proof (cases c rule: esc_cases)
    case 1
    then show ?thesis using k by (auto simp: e)
  next
    case (2 x)
    then show ?thesis using k by (auto simp: e)
  next
    case 3
    have "string_end (hex4 (of_char c) @ ?q) = Some (4 + length (esc_string s), k)"
      using string_end_plain [OF hex4_read(2,3) k, OF 3(2) 3(2)] hex4_read(4) [OF 3(2)] by simp
    then show ?thesis using 3 hex4_read(4) [OF 3(2)] by (auto simp: e)
  qed
qed

lemma unescape_esc:
  "unescape (esc_string s @ q) (length (esc_string s)) room = Some r \<Longrightarrow> r = Some s"
proof (induction s arbitrary: room r)
  case Nil
  then show ?case by (subst (asm) unescape.simps) (simp add: esc_string_def split: if_splits)
next
  case (Cons c s)
  have e: "esc_string (c # s) = esc c @ esc_string s" by (simp add: esc_string_def)
  show ?case
  proof (cases c rule: esc_cases)
    case 1
    then have "room \<noteq> 0" "unescape (esc_string s @ q) (length (esc_string s)) (room - 1) \<bind> (\<lambda>r. Some (map_option (\<lambda>s. c # s) r)) = Some r"
      using Cons.prems by (subst (asm) unescape.simps, simp add: e split: if_splits)+
    then show ?thesis using Cons.IH by (auto simp: bind_eq_Some_conv)
  next
    case (2 x)
    then have "unescape (esc_string s @ q) (length (esc_string s)) (room - 1) \<bind> (\<lambda>r. Some (map_option (\<lambda>s. c # s) r)) = Some r"
      using Cons.prems by (subst (asm) unescape.simps, simp add: e split: if_splits)
    then show ?thesis using Cons.IH by (auto simp: bind_eq_Some_conv)
  next
    case 3
    define inp where "inp = esc_string (c # s) @ q"
    have l4: "length (hex4 (of_char c)) = 4" using hex4_read(4) [OF 3(2)] .
    have i: "inp = CHR 0x5C # CHR ''u'' # (hex4 (of_char c) @ esc_string s @ q)" by (simp add: inp_def e 3)
    have le: "length (esc_string (c # s)) = 6 + length (esc_string s)" using l4 by (simp add: e 3)
    have tk: "take (length (esc_string (c # s))) inp = esc_string (c # s)" by (simp add: inp_def)
    have "utf16_literal_to_utf8 (esc_string (c # s)) = Some (6, [c])"
      using 3(2) le hex4_read(1) [OF 3(2)]
      by (simp add: utf16_literal_to_utf8_def Let_def e 3(1) utf8_encode_def)
    then have u: "utf16_literal_to_utf8 (take (length (esc_string (c # s))) inp) = Some (6, [c])" by (simp add: tk)
    have d: "drop 6 inp = esc_string s @ q" using l4 by (simp add: i eval_nat_numeral)
    have "unescape inp (length (esc_string (c # s))) room = Some r" using Cons.prems by (simp add: inp_def)
    then have "unescape (esc_string s @ q) (length (esc_string s)) (room - 1) \<bind> (\<lambda>r. Some (map_option ((@) [c]) r)) = Some r"
      using u d le by (subst (asm) unescape.simps) (simp add: i split: if_splits)
    then show ?thesis using Cons.IH by (auto simp: bind_eq_Some_conv)
  qed
qed

lemma parse_string_quote:
  assumes "rest_of pb = quoted (Some s) @ rest" "NUL \<notin> set s" "\<forall>n. h_ok h n"
  shows "\<exists>b h'. parse_string item pb h
      = Some (Some (set_vstr cJSON_String (Some (b, s)) item, move (length (quoted (Some s))) pb), h') \<and> h_ok h' = h_ok h"
proof -
  let ?E = "esc_string s @ CHR 0x22 # rest"
  have r: "rest_of pb = CHR 0x22 # ?E" using assms(1) by (simp add: quoted_def)
  obtain k where k: "string_end ?E = Some (length (esc_string s), k)" using string_end_esc by blast
  obtain b h' where a: "h_alloc h = (Some b, h')" "h_ok h' = h_ok h"
    using assms(3) by (auto simp: h_alloc_def am_alloc_def Let_def split: prod.splits)
  have "\<exists>u. unescape ?E (length (esc_string s)) (length (esc_string s) + 1 - k + 1) = Some u"
  proof -
    from string_end_marks [OF k] obtain ms where m: "length ms = length (esc_string s)" "marked ms = k" "marks_ok ?E ms" by blast
    have "marked ms \<le> length ms" by (simp add: marked_def)
    then show ?thesis using unescape_safe [OF m(3,1), of "length (esc_string s) + 1 - k + 1"] m by auto
  qed
  then have u: "unescape ?E (length (esc_string s)) (length (esc_string s) + 1 - k + 1) = Some (Some s)"
    using unescape_esc by blast
  have tw: "takeWhile (\<lambda>c. c \<noteq> NUL) s = s" using assms(2) by auto
  have "length (quoted (Some s)) = length (esc_string s) + 2" by (simp add: quoted_def)
  moreover have "drop 1 (rest_of pb) = ?E" by (simp add: r)
  ultimately have "parse_string item pb h
      = Some (Some (set_vstr cJSON_String (Some (b, s)) item, move (length (quoted (Some s))) pb), h')"
    unfolding parse_string_def by (simp only: peek_cons [OF r] k a u Let_def) (simp add: u [simplified] tw)
  with a(2) show ?thesis by blast
qed

section \<open>Numbers\<close>

text \<open>A number that reading the printed text gives back.\<close>

definition num_readable :: "dbl \<Rightarrow> bool" where
  "num_readable d \<longleftrightarrow> finite_dbl d \<and> strtod (num_text d) = (d, length (num_text d))"

lemma num_readable_ok: "num_readable d \<Longrightarrow> dbl_ok d"
  using strtod_ok [of "num_text d"] by (simp add: num_readable_def)

lemma num_text_fin: "num_text (Fin s q) = fmt_g 15 (Fin s q) \<or> num_text (Fin s q) = fmt_g 17 (Fin s q)"
  by (auto simp: num_text_def Let_def split: prod.splits)

lemma show_nat_hd: "\<exists>c s. show_nat n = c # s \<and> is_digit c"
proof -
  have "show_nat n \<noteq> []" by (subst show_nat.simps) auto
  then show ?thesis using show_nat_digits [of n] by (cases "show_nat n") auto
qed

lemma fmt_mag_hd: "\<exists>c s. fmt_mag p q = c # s \<and> is_digit c"
proof -
  obtain d x where d: "dec_digits p q = (d, x)" by fastforce
  obtain c s where "show_nat d = c # s" "is_digit c" using show_nat_hd by blast
  moreover have "is_digit (CHR ''0'')" by (simp add: is_digit_def)
  ultimately show ?thesis by (simp add: fmt_mag_def d Let_def)
qed

lemma num_text_hd:
  assumes "num_readable d"
  obtains c s where "num_text d = c # s" "c = CHR ''-'' \<or> is_digit c"
proof -
  obtain s q where d: "d = Fin s q" using assms by (cases d) (auto simp: num_readable_def)
  obtain p where "num_text d = fmt_sign s @ fmt_mag p q" using num_text_fin [of s q] by (auto simp: d)
  moreover obtain c t where "fmt_mag p q = c # t" "is_digit c" using fmt_mag_hd by blast
  ultimately show thesis using that by (cases s) (auto simp: fmt_sign_def)
qed

lemma num_text_chars:
  assumes "num_readable d"
  shows "\<forall>c\<in>set (num_text d). num_char c" "length (num_text d) \<le> 24"
proof -
  obtain s q where d: "d = Fin s q" using assms by (cases d) (auto simp: num_readable_def)
  show "\<forall>c\<in>set (num_text d). num_char c" using num_text_fin [of s q] fmt_g_chars d by metis
  show "length (num_text d) \<le> 24"
    using num_text_fin [of s q] length_fmt_g [of s q 15] length_fmt_g [of s q 17] num_readable_ok [OF assms] d by auto
qed

lemma parse_number_text:
  assumes "rest_of pb = num_text d @ c # rest" "\<not> num_char c" "num_readable d"
  shows "\<exists>v. parse_number item pb h = Some (Some (set_number d v item, move (length (num_text d)) pb), h)"
proof -
  note nc = num_text_chars [OF assms(3)]
  have "takeWhile num_char (take 63 (num_text d @ c # rest)) = num_text d"
  proof -
    have "take 63 (num_text d @ c # rest) = num_text d @ c # take (62 - length (num_text d)) rest"
      using nc(2) by (simp add: take_Cons' Suc_diff_le) 
    then show ?thesis using nc(1) assms(2) by (simp add: takeWhile_append)
  qed
  moreover have "strtod (num_text d) = (d, length (num_text d))" using assms(3) by (simp add: num_readable_def)
  moreover have "num_text d \<noteq> []" by (rule num_text_hd [OF assms(3)]) simp
  moreover have "\<exists>v. sat_int d = Some v" using assms(3) by (cases d) (simp_all add: num_readable_def Let_def)
  ultimately show ?thesis by (auto simp: parse_number_def assms(1))
qed

section \<open>Values\<close>

text \<open>
  What can be read back at depth \<open>n\<close>: finite numbers that survive printing, strings and names without
  terminator, no raw text, and at most \<open>CJSON_NESTING_LIMIT\<close> nested arrays and objects.
\<close>

definition str_readable :: "string option \<Rightarrow> bool" where
  "str_readable s = (case s of None \<Rightarrow> False | Some s \<Rightarrow> NUL \<notin> set s)"

fun readable :: "nat \<Rightarrow> json \<Rightarrow> bool" where
  "readable n JInvalid = False"
| "readable n JNull = True"
| "readable n (JBool v) = True"
| "readable n (JNum d) = num_readable d"
| "readable n (JStr s) = str_readable s"
| "readable n (JRaw s) = False"
| "readable n (JArr js) = (n < CJSON_NESTING_LIMIT \<and> (\<forall>j\<in>set js. readable (Suc n) j))"
| "readable n (JObj ms) = (n < CJSON_NESTING_LIMIT \<and> (\<forall>m\<in>set ms. str_readable (fst m) \<and> readable (Suc n) (snd m)))"

lemma readable_printable: "readable n j \<Longrightarrow> printable j"
  by (induction n j rule: readable.induct) (auto simp: num_readable_ok str_readable_def c_str_ok_def split: option.splits)

lemma json_text_hd:
  assumes "readable n j"
  obtains c s where "json_text j = c # s" "\<not> is_blank c" "c \<noteq> CHR '']''" "c \<noteq> CHR 0xEF"
proof (cases j)
  case (JNum d)
  then obtain c s where c: "num_text d = c # s" "c = CHR ''-'' \<or> is_digit c" using assms num_text_hd by auto
  then have "c \<noteq> CHR '']''" "c \<noteq> CHR 0xEF" by (auto simp: is_digit_def)
  with c show thesis using that JNum by (auto simp: is_blank_def is_digit_def)
next
  case (JBool v)
  then show thesis using that by (cases v) (simp_all add: is_blank_def)
qed (use assms that in \<open>auto simp: is_blank_def quoted_def split: if_splits\<close>)

definition delim :: "char \<Rightarrow> bool" where
  "delim c \<longleftrightarrow> c \<in> {CHR '','', CHR '']'', CHR ''}'', NUL}"

lemma delim_not_num: "delim c \<Longrightarrow> \<not> num_char c"
  by (auto simp: delim_def num_char_def is_digit_def)

definition reads :: "value_parser \<Rightarrow> json \<Rightarrow> bool" where
  "reads pv j \<longleftrightarrow> (\<forall>item pb h c rest. readable (pa_depth pb) j \<longrightarrow> rest_of pb = json_text j @ c # rest \<longrightarrow> delim c
     \<longrightarrow> (\<forall>n. h_ok h n)
     \<longrightarrow> (\<exists>i h'. pv item pb h = Some (Some (i, move (length (json_text j)) pb), h')
        \<and> jval i = j \<and> i_string i = i_string item \<and> h_ok h' = h_ok h))"

lemma readsD:
  assumes "reads pv j" "readable (pa_depth pb) j" "rest_of pb = json_text j @ c # rest" "delim c" "\<forall>n. h_ok h n"
  obtains i h' where "pv item pb h = Some (Some (i, move (length (json_text j)) pb), h')"
    "jval i = j" "i_string i = i_string item" "h_ok h' = h_ok h"
  using assms unfolding reads_def by metis

lemma new_item_some:
  assumes "\<forall>n. h_ok h n"
  obtains b h' where "cJSON_New_Item h = (Some (Item b cJSON_Invalid NoKey None 0 (Fin False 0) []), h')" "h_ok h' = h_ok h"
  using assms that by (auto simp: cJSON_New_Item_def h_alloc_def am_alloc_def Let_def split: prod.splits)

text \<open>The loops; \<open>pb\<close> stands on the opening bracket or a comma.\<close>

lemma parse_elements_step:
  assumes "reads pv j" "readable (pa_depth pb) j" "rest_of (move 1 pb) = json_text j @ c # rest"
    "delim c" "\<not> is_blank c" "\<forall>n. h_ok h n" and p: "p = move (length (json_text j)) (move 1 pb)"
  obtains i h' where "jval i = j" "h_ok h' = h_ok h" "rest_of p = c # rest"
    "parse_elements pv (Suc n) acc pb h = (
       if c = CHR '','' then parse_elements pv n (acc @ [i]) p h'
       else if c = CHR '']'' then Some (Some (acc @ [i], p), h') else fail_with (acc @ [i]) h')"
proof -
  obtain b h1 where n: "cJSON_New_Item h = (Some (Item b cJSON_Invalid NoKey None 0 (Fin False 0) []), h1)" "h_ok h1 = h_ok h"
    using new_item_some [OF assms(6)] .
  define q where "q = move 1 pb"
  have r: "readable (pa_depth q) j" using assms(2) by (simp add: q_def)
  have rq: "rest_of q = json_text j @ c # rest" using assms(3) by (simp only: q_def)
  obtain d s where ds: "json_text j = d # s" "\<not> is_blank d" using json_text_hd [OF r] .
  have sk: "buffer_skip_whitespace q = q" by (rule skip_cons [of _ d]) (use rq ds in auto)
  have p': "p = move (length (json_text j)) q" by (simp only: p q_def)
  have al: "\<forall>n. h_ok h1 n" using assms(6) n(2) by simp
  obtain i h2 where i: "pv (Item b cJSON_Invalid NoKey None 0 (Fin False 0) []) q h1 = Some (Some (i, p), h2)"
    "jval i = j" "h_ok h2 = h_ok h1"
    unfolding p' using readsD [OF assms(1) r rq assms(4) al] by metis
  have rp: "rest_of p = c # rest" by (simp add: p' rq)
  have "buffer_skip_whitespace p = p" by (rule skip_cons [OF rp assms(5)])
  then have "parse_elements pv (Suc n) acc pb h = (
       if c = CHR '','' then parse_elements pv n (acc @ [i]) p h2
       else if c = CHR '']'' then Some (Some (acc @ [i], p), h2) else fail_with (acc @ [i]) h2)"
    using n i at_char_cons [OF rp] by (simp add: sk del: One_nat_def flip: q_def)
  then show thesis using that i n(2) rp by simp
qed

lemma parse_elements_reads:
  assumes "\<forall>j\<in>set js. reads pv j \<and> readable (pa_depth pb) j" "js \<noteq> []" "length js \<le> fuel"
    "rest_of (move 1 pb) = comma_list (map json_text js) @ CHR '']'' # rest" "\<forall>n. h_ok h n"
  shows "\<exists>cs h'. parse_elements pv fuel acc pb h
      = Some (Some (acc @ cs, move (1 + length (comma_list (map json_text js))) pb), h')
      \<and> map jval cs = js \<and> h_ok h' = h_ok h"
  using assms
proof (induction js arbitrary: fuel acc pb h rule: induct_list012)
  case (2 j)
  obtain n where f: "fuel = Suc n" using "2.prems" by (cases fuel) auto
  have r: "rest_of (move 1 pb) = json_text j @ CHR '']'' # rest" using "2.prems"(4) by simp
  show ?case
    by (rule parse_elements_step [OF _ _ r _ _ "2.prems"(5) refl, of pv n acc])
      (use "2.prems"(1) in \<open>auto simp: f delim_def is_blank_def\<close>)
next
  case (3 j k js)
  obtain n where f: "fuel = Suc n" "Suc (length js) \<le> n" using "3.prems" by (cases fuel) auto
  let ?L = "comma_list (map json_text (k # js))"
  have r: "rest_of (move 1 pb) = json_text j @ CHR '','' # ?L @ CHR '']'' # rest" using "3.prems"(4) by simp
  define p where "p = move (length (json_text j)) (move 1 pb)"
  obtain i h2 where i: "jval i = j" "h_ok h2 = h_ok h" "rest_of p = CHR '','' # ?L @ CHR '']'' # rest"
    "parse_elements pv fuel acc pb h = parse_elements pv n (acc @ [i]) p h2"
    by (rule parse_elements_step [OF _ _ r _ _ "3.prems"(5) p_def, of pv n acc])
      (use "3.prems"(1) in \<open>auto simp: f delim_def is_blank_def\<close>)
  have rp: "rest_of (move 1 p) = ?L @ CHR '']'' # rest" using i(3) by simp
  have dp: "pa_depth p = pa_depth pb" by (simp add: p_def)
  have "\<exists>cs h'. parse_elements pv n (acc @ [i]) p h2 = Some (Some ((acc @ [i]) @ cs, move (1 + length ?L) p), h')
      \<and> map jval cs = k # js \<and> h_ok h' = h_ok h2"
    by (rule "3.IH"(2) [OF _ _ _ rp]) (use "3.prems"(1,5) f(2) i(2) dp in auto)
  then obtain cs h' where "parse_elements pv n (acc @ [i]) p h2 = Some (Some ((acc @ [i]) @ cs, move (1 + length ?L) p), h')"
      "map jval cs = k # js" "h_ok h' = h_ok h2" by (elim exE conjE) (rule that)
  then show ?case using i by (intro exI [of _ "i # cs"] exI [of _ h']) (simp add: p_def add.assoc)
qed simp

definition mem_text :: "string option \<times> json \<Rightarrow> string" where
  "mem_text m = quoted (fst m) @ '':'' @ json_text (snd m)"

lemma json_text_obj: "json_text (JObj ms) = ''{'' @ comma_list (map mem_text ms) @ ''}''"
  by (auto simp: mem_text_def case_prod_unfold intro!: arg_cong [where f = comma_list])

definition jmember :: "cjson \<Rightarrow> string option \<times> json" where
  "jmember c = (key_string (i_string c), jval c)"

lemma parse_members_step:
  assumes "reads pv (snd m)" "str_readable (fst m)" "readable (pa_depth pb) (snd m)"
    "rest_of (move 1 pb) = mem_text m @ c # rest"
    "delim c" "\<not> is_blank c" "\<forall>n. h_ok h n" and p: "p = move (length (mem_text m)) (move 1 pb)"
  obtains i h' where "jmember i = m" "h_ok h' = h_ok h" "rest_of p = c # rest"
    "parse_members pv (Suc n) acc pb h = (
       if c = CHR '','' then parse_members pv n (acc @ [i]) p h'
       else if c = CHR ''}'' then Some (Some (acc @ [i], p), h') else fail_with (acc @ [i]) h')"
proof -
  obtain k where k: "fst m = Some k" "NUL \<notin> set k" using assms(2) by (auto simp: str_readable_def split: option.splits)
  define item where "item b = Item b cJSON_Invalid NoKey None 0 (Fin False 0) []" for b
  obtain b h1 where n: "cJSON_New_Item h = (Some (item b), h1)" "h_ok h1 = h_ok h"
    using new_item_some [OF assms(7)] unfolding item_def .
  define q where "q = move 1 pb"
  have rq: "rest_of q = quoted (Some k) @ CHR '':'' # json_text (snd m) @ c # rest"
    using assms(4) k(1) by (simp add: mem_text_def del: One_nat_def flip: q_def)
  have sk: "buffer_skip_whitespace q = q" by (rule skip_cons [of _ "CHR 0x22"]) (use rq in \<open>auto simp: quoted_def is_blank_def\<close>)
  have "\<forall>n. h_ok h1 n" using assms(7) n(2) by simp
  from parse_string_quote [OF rq k(2) this] obtain b2 h2 where
    st: "parse_string (item b) q h1 = Some (Some (set_vstr cJSON_String (Some (b2, k)) (item b), move (length (quoted (Some k))) q), h2)"
    "h_ok h2 = h_ok h1" by blast
  define i1 where "i1 = swap_name (set_vstr cJSON_String (Some (b2, k)) (item b))"
  have k1: "i_string i1 = HeapKey b2 k" by (simp add: i1_def swap_name_def set_vstr_def)
  define q1 where "q1 = move (length (quoted (Some k))) q"
  have rq1: "rest_of q1 = CHR '':'' # json_text (snd m) @ c # rest" by (simp add: q1_def rq)
  have sk1: "buffer_skip_whitespace q1 = q1" by (rule skip_cons [OF rq1]) (simp add: is_blank_def)
  define q2 where "q2 = move 1 q1"
  have rq2: "rest_of q2 = json_text (snd m) @ c # rest" by (simp add: q2_def rq1)
  have r: "readable (pa_depth q2) (snd m)" using assms(3) by (simp add: q_def q1_def q2_def)
  obtain d s where ds: "json_text (snd m) = d # s" "\<not> is_blank d" using json_text_hd [OF r] .
  have sk2: "buffer_skip_whitespace q2 = q2" by (rule skip_cons [of _ d]) (use rq2 ds in auto)
  have p': "p = move (length (json_text (snd m))) q2" by (simp add: p q_def q1_def q2_def mem_text_def k(1))
  have al: "\<forall>n. h_ok h2 n" using assms(7) n(2) st(2) by simp
  obtain i h3 where i: "pv i1 q2 h2 = Some (Some (i, p), h3)" "jval i = snd m" "h_ok h3 = h_ok h2" "i_string i = i_string i1"
    unfolding p' using readsD [OF assms(1) r rq2 assms(5) al] by metis
  have rp: "rest_of p = c # rest" by (simp add: p' rq2)
  have skp: "buffer_skip_whitespace p = p" by (rule skip_cons [OF rp assms(6)])
  have eq: "parse_members pv (Suc n) acc pb h = (
       if c = CHR '','' then parse_members pv n (acc @ [i]) p h3
       else if c = CHR ''}'' then Some (Some (acc @ [i], p), h3) else fail_with (acc @ [i]) h3)"
    using n st i at_char_cons [OF rp] at_char_cons [OF rq1]
    by (simp add: sk sk1 sk2 skp del: One_nat_def flip: q_def q1_def q2_def i1_def)
  have "jmember i = m" using i(2,4) k(1) k1 by (cases m) (simp add: jmember_def)
  then show thesis using that eq i(3) st(2) n(2) rp by simp
qed

lemma parse_members_reads:
  assumes "\<forall>m\<in>set ms. reads pv (snd m) \<and> str_readable (fst m) \<and> readable (pa_depth pb) (snd m)" "ms \<noteq> []"
    "length ms \<le> fuel" "rest_of (move 1 pb) = comma_list (map mem_text ms) @ CHR ''}'' # rest" "\<forall>n. h_ok h n"
  shows "\<exists>cs h'. parse_members pv fuel acc pb h
      = Some (Some (acc @ cs, move (1 + length (comma_list (map mem_text ms))) pb), h')
      \<and> map jmember cs = ms \<and> h_ok h' = h_ok h"
  using assms
proof (induction ms arbitrary: fuel acc pb h rule: induct_list012)
  case (2 j)
  obtain n where f: "fuel = Suc n" using "2.prems" by (cases fuel) auto
  have r: "rest_of (move 1 pb) = mem_text j @ CHR ''}'' # rest" using "2.prems"(4) by simp
  show ?case
    by (rule parse_members_step [OF _ _ _ r _ _ "2.prems"(5) refl, of pv n acc])
      (use "2.prems"(1) in \<open>auto simp: f delim_def is_blank_def\<close>)
next
  case (3 j k js)
  obtain n where f: "fuel = Suc n" "Suc (length js) \<le> n" using "3.prems" by (cases fuel) auto
  let ?L = "comma_list (map mem_text (k # js))"
  have r: "rest_of (move 1 pb) = mem_text j @ CHR '','' # ?L @ CHR ''}'' # rest" using "3.prems"(4) by simp
  define p where "p = move (length (mem_text j)) (move 1 pb)"
  obtain i h2 where i: "jmember i = j" "h_ok h2 = h_ok h" "rest_of p = CHR '','' # ?L @ CHR ''}'' # rest"
    "parse_members pv fuel acc pb h = parse_members pv n (acc @ [i]) p h2"
    by (rule parse_members_step [OF _ _ _ r _ _ "3.prems"(5) p_def, of pv n acc])
      (use "3.prems"(1) in \<open>auto simp: f delim_def is_blank_def\<close>)
  have rp: "rest_of (move 1 p) = ?L @ CHR ''}'' # rest" using i(3) by simp
  have dp: "pa_depth p = pa_depth pb" by (simp add: p_def)
  have "\<exists>cs h'. parse_members pv n (acc @ [i]) p h2 = Some (Some ((acc @ [i]) @ cs, move (1 + length ?L) p), h')
      \<and> map jmember cs = k # js \<and> h_ok h' = h_ok h2"
    by (rule "3.IH"(2) [OF _ _ _ rp]) (use "3.prems"(1,5) f(2) i(2) dp in auto)
  then obtain cs h' where "parse_members pv n (acc @ [i]) p h2 = Some (Some ((acc @ [i]) @ cs, move (1 + length ?L) p), h')"
      "map jmember cs = k # js" "h_ok h' = h_ok h2" by (elim exE conjE) (rule that)
  then show ?case using i by (intro exI [of _ "i # cs"] exI [of _ h']) (simp add: p_def add.assoc)
qed simp

lemma comma_list_length: "(\<And>s. s \<in> set ss \<Longrightarrow> s \<noteq> []) \<Longrightarrow> length ss \<le> length (comma_list ss)"
proof (induction ss rule: comma_list.induct)
  case (3 s t ts)
  have "length (t # ts) \<le> length (comma_list (t # ts))" by (rule "3.IH") (use "3.prems" in auto)
  moreover have "length s \<noteq> 0" using "3.prems" by simp
  ultimately show ?case by simp
qed (auto simp: Suc_le_eq)

lemma comma_list_sub: "s \<in> set ss \<Longrightarrow> length s \<le> length (comma_list ss)"
  by (induction ss rule: comma_list.induct) auto

lemma close_with_reads:
  "close_with t item cs (move n (pb\<lparr>pa_depth := Suc (pa_depth pb)\<rparr>)) h = Some (Some (set_children t cs item, move (Suc n) pb), h)"
  by (cases pb) (simp add: close_with_def move_def)

lemma parse_array_reads:
  assumes pv: "\<forall>j\<in>set js. reads pv j" and fuel: "length js \<le> fuel"
  shows "reads (parse_array pv fuel) (JArr js)"
  unfolding reads_def
proof (intro allI impI)
  fix item pb c rest and h :: heap
  assume a: "readable (pa_depth pb) (JArr js)" "rest_of pb = json_text (JArr js) @ c # rest" "\<forall>n. h_ok h n"
  define q where "q = pb\<lparr>pa_depth := Suc (pa_depth pb)\<rparr>"
  let ?L = "comma_list (map json_text js)"
  have rq: "rest_of q = CHR ''['' # ?L @ CHR '']'' # c # rest" using a(2) by (simp add: q_def)
  have sc: "pa_depth pb + 1 = Suc (pa_depth pb)" by simp
  have rq1: "rest_of (move 1 q) = ?L @ CHR '']'' # c # rest" by (simp add: rq)
  have res: "\<exists>i h'. Some (Some (set_children cJSON_Array cs item, move (length (json_text (JArr js))) pb), h1) = Some (Some (i, move (length (json_text (JArr js))) pb), h')
      \<and> jval i = JArr js \<and> i_string i = i_string item \<and> h_ok h' = h_ok h" if "map jval cs = js" "h_ok h1 = h_ok h" for cs and h1 :: heap
    using that by (simp add: set_children_def set_type_def set_child_def)
  show "\<exists>i h'. parse_array pv fuel item pb h = Some (Some (i, move (length (json_text (JArr js))) pb), h')
      \<and> jval i = JArr js \<and> i_string i = i_string item \<and> h_ok h' = h_ok h"
  proof (cases "js = []")
    case True
    have "buffer_skip_whitespace (move 1 q) = move 1 q" by (rule skip_cons [of _ "CHR '']''"]) (use rq1 True in \<open>auto simp: is_blank_def\<close>)
    moreover have "at_char (CHR '']'') (move 1 q)" using at_char_cons rq1 True by force
    ultimately have "parse_array pv fuel item pb h = close_with cJSON_Array item [] (move 1 q) h"
      using a(1) peek_cons [OF rq] by (simp add: parse_array_def sc Let_def del: One_nat_def flip: q_def)
    then show ?thesis using res [of "[]" h] True by (simp add: q_def close_with_reads)
  next
    case False
    have rj: "\<forall>j\<in>set js. reads pv j \<and> readable (pa_depth q) j" using a(1) pv by (simp add: q_def)
    obtain j t where jt: "js = j # t" using False by (cases js) auto
    then have "readable (pa_depth q) j" using rj by simp
    then obtain d s where "json_text j = d # s" and d: "\<not> is_blank d" "d \<noteq> CHR '']''" by (rule json_text_hd)
    then obtain s where ds: "?L = d # s" using jt by (cases t) auto
    have "buffer_skip_whitespace (move 1 q) = move 1 q" by (rule skip_cons [of _ d]) (use rq1 ds d in auto)
    moreover have "\<not> at_char (CHR '']'') (move 1 q)" "can_access (move 1 q) 0"
      using at_char_cons access_cons(1) rq1 ds d by force+
    ultimately have e: "parse_array pv fuel item pb h = parse_elements pv fuel [] q h \<bind>
       (\<lambda>(r, h). case r of None \<Rightarrow> Some (None, h) | Some (cs, pb) \<Rightarrow> close_with cJSON_Array item cs pb h)"
      using a(1) peek_cons [OF rq] by (simp add: parse_array_def sc Let_def del: One_nat_def flip: q_def) simp
    obtain cs h' where c: "parse_elements pv fuel [] q h = Some (Some (cs, move (1 + length ?L) q), h')"
      "map jval cs = js" "h_ok h' = h_ok h"
      using parse_elements_reads [OF rj False fuel rq1 a(3), of "[]"] by (elim exE conjE) (simp add: that)
    have "parse_array pv fuel item pb h = Some (Some (set_children cJSON_Array cs item, move (length (json_text (JArr js))) pb), h')"
      unfolding e c(1) by (simp add: q_def close_with_reads)
    then show ?thesis using res [OF c(2,3)] by metis
  qed
qed

lemma parse_object_reads:
  assumes pv: "\<forall>m\<in>set ms. reads pv (snd m)" and fuel: "length ms \<le> fuel"
  shows "reads (parse_object pv fuel) (JObj ms)"
  unfolding reads_def
proof (intro allI impI)
  fix item pb c rest and h :: heap
  let ?j = "JObj ms" and ?L = "comma_list (map mem_text ms)"
  assume a: "readable (pa_depth pb) ?j" "rest_of pb = json_text ?j @ c # rest" "\<forall>n. h_ok h n"
  define q where "q = pb\<lparr>pa_depth := Suc (pa_depth pb)\<rparr>"
  have l: "length (json_text ?j) = length ?L + 2" by (simp add: json_text_obj del: json_text.simps)
  have rq: "rest_of q = CHR ''{'' # ?L @ CHR ''}'' # c # rest" using a(2) by (simp add: q_def json_text_obj del: json_text.simps)
  have sc: "pa_depth pb + 1 = Suc (pa_depth pb)" by simp
  have rq1: "rest_of (move 1 q) = ?L @ CHR ''}'' # c # rest" by (simp add: rq)
  have res: "\<exists>i h'. Some (Some (set_children cJSON_Object cs item, move (length ?L + 2) pb), h1) = Some (Some (i, move (length ?L + 2) pb), h')
      \<and> jval i = ?j \<and> i_string i = i_string item \<and> h_ok h' = h_ok h" if "map jmember cs = ms" "h_ok h1 = h_ok h" for cs and h1 :: heap
    using that by (auto simp add: set_children_def set_type_def set_child_def jmember_def [abs_def])
  show "\<exists>i h'. parse_object pv fuel item pb h = Some (Some (i, move (length (json_text ?j)) pb), h')
      \<and> jval i = ?j \<and> i_string i = i_string item \<and> h_ok h' = h_ok h"
    unfolding l
  proof (cases "ms = []")
    case True
    have "buffer_skip_whitespace (move 1 q) = move 1 q" by (rule skip_cons [of _ "CHR ''}''"]) (use rq1 True in \<open>auto simp: is_blank_def\<close>)
    moreover have "at_char (CHR ''}'') (move 1 q)" using at_char_cons rq1 True by force
    ultimately have "parse_object pv fuel item pb h = close_with cJSON_Object item [] (move 1 q) h"
      using a(1) at_char_cons [OF rq] by (simp add: parse_object_def sc Let_def del: One_nat_def flip: q_def)
    then show "\<exists>i h'. parse_object pv fuel item pb h = Some (Some (i, move (length ?L + 2) pb), h')
      \<and> jval i = ?j \<and> i_string i = i_string item \<and> h_ok h' = h_ok h"
      using res [of "[]" h] True by (simp add: q_def close_with_reads eval_nat_numeral)
  next
    case False
    have rj: "\<forall>m\<in>set ms. reads pv (snd m) \<and> str_readable (fst m) \<and> readable (pa_depth q) (snd m)"
      using a(1) pv by (simp add: q_def)
    obtain s where ds: "?L = CHR 0x22 # s" using False by (cases "map mem_text ms" rule: comma_list.cases) (auto simp: mem_text_def quoted_def)
    have "buffer_skip_whitespace (move 1 q) = move 1 q"
      by (rule skip_cons [of _ "CHR 0x22"]) (use rq1 ds in \<open>auto simp: is_blank_def\<close>)
    moreover have "\<not> at_char (CHR ''}'') (move 1 q)" "can_access (move 1 q) 0"
      using at_char_cons access_cons(1) rq1 ds by force+
    ultimately have e: "parse_object pv fuel item pb h = parse_members pv fuel [] q h \<bind>
       (\<lambda>(r, h). case r of None \<Rightarrow> Some (None, h) | Some (cs, pb) \<Rightarrow> close_with cJSON_Object item cs pb h)"
      using a(1) at_char_cons [OF rq] by (simp add: parse_object_def sc Let_def del: One_nat_def flip: q_def) simp
    obtain cs h' where c: "parse_members pv fuel [] q h = Some (Some (cs, move (1 + length ?L) q), h')"
      "map jmember cs = ms" "h_ok h' = h_ok h"
      using parse_members_reads [OF rj False fuel rq1 a(3), of "[]"] by (elim exE conjE) (simp add: that)
    have "parse_object pv fuel item pb h = Some (Some (set_children cJSON_Object cs item, move (length ?L + 2) pb), h')"
      unfolding e c(1) by (simp add: q_def close_with_reads)
    then show "\<exists>i h'. parse_object pv fuel item pb h = Some (Some (i, move (length ?L + 2) pb), h')
      \<and> jval i = ?j \<and> i_string i = i_string item \<and> h_ok h' = h_ok h"
      using res [OF c(2,3)] by metis
  qed
qed

lemma parse_value_dispatch:
  assumes "rest_of pb = c # s"
  shows "c = CHR 0x22 \<Longrightarrow> parse_value (Suc n) item pb h = parse_string item pb h"
    "c = CHR ''-'' \<or> is_digit c \<Longrightarrow> parse_value (Suc n) item pb h = parse_number item pb h"
    "c = CHR ''['' \<Longrightarrow> parse_value (Suc n) item pb h = parse_array (parse_value n) n item pb h"
    "c = CHR ''{'' \<Longrightarrow> parse_value (Suc n) item pb h = parse_object (parse_value n) n item pb h"
proof -
  note l = looking_at_cons [OF assms] at_char_cons [OF assms] access_cons [OF assms]
  show "c = CHR 0x22 \<Longrightarrow> parse_value (Suc n) item pb h = parse_string item pb h"
    "c = CHR ''['' \<Longrightarrow> parse_value (Suc n) item pb h = parse_array (parse_value n) n item pb h"
    "c = CHR ''{'' \<Longrightarrow> parse_value (Suc n) item pb h = parse_object (parse_value n) n item pb h"
    using l by (simp_all add: is_digit_def)
  assume c: "c = CHR ''-'' \<or> is_digit c"
  then have "c \<noteq> CHR ''n''" "c \<noteq> CHR ''f''" "c \<noteq> CHR ''t''" "c \<noteq> CHR 0x22" by (auto simp: is_digit_def)
  then show "parse_value (Suc n) item pb h = parse_number item pb h" using l c by simp
qed

lemma parse_value_literal:
  assumes "rest_of pb = json_text j @ s" "j = JNull \<or> j = JBool v"
  shows "\<exists>i. parse_value (Suc n) item pb h = Some (Some (i, move (length (json_text j)) pb), h) \<and> jval i = j \<and> i_string i = i_string item"
proof -
  have "j = JNull \<or> j = JBool True \<or> j = JBool False" using assms(2) by (cases v) auto
  then show ?thesis
  proof (elim disjE)
    assume j: "j = JNull"
    then have "looking_at ''null'' pb" using assms(1) by (simp add: looking_at_def)
    then show ?thesis by (simp add: j set_type_def eval_nat_numeral)
  next
    assume j: "j = JBool True"
    then have r: "rest_of pb = CHR ''t'' # ''rue'' @ s" using assms(1) by simp
    then have "looking_at ''true'' pb" by (simp add: looking_at_def)
    then show ?thesis using looking_at_cons [OF r] by (simp add: j set_true_def eval_nat_numeral)
  next
    assume j: "j = JBool False"
    then have r: "rest_of pb = CHR ''f'' # ''alse'' @ s" using assms(1) by simp
    then have "looking_at ''false'' pb" by (simp add: looking_at_def)
    then show ?thesis using looking_at_cons [OF r] by (simp add: j set_type_def eval_nat_numeral)
  qed
qed

lemma readable_length:
  "\<forall>j\<in>set js. readable d j \<Longrightarrow> length js \<le> length (comma_list (map json_text js))"
  "\<forall>m\<in>set ms. readable d (snd m) \<Longrightarrow> length ms \<le> length (comma_list (map mem_text ms))"
proof -
  assume a: "\<forall>j\<in>set js. readable d j"
  have "length (map json_text js) \<le> length (comma_list (map json_text js))"
  proof (rule comma_list_length)
    fix s assume "s \<in> set (map json_text js)"
    then obtain j where "readable d j" "s = json_text j" using a by auto
    then show "s \<noteq> []" using json_text_hd by (metis list.distinct(1))
  qed
  then show "length js \<le> length (comma_list (map json_text js))" by simp
next
  have "length (map mem_text ms) \<le> length (comma_list (map mem_text ms))"
    by (rule comma_list_length) (auto simp: mem_text_def)
  then show "length ms \<le> length (comma_list (map mem_text ms))" by simp
qed

lemma parse_value_reads: "length (json_text j) \<le> n \<Longrightarrow> reads (parse_value n) j"
proof (induction n arbitrary: j)
  case 0
  show ?case unfolding reads_def using 0 json_text_hd by (metis le_zero_eq length_0_conv list.distinct(1))
next
  case (Suc n)
  show ?case
    unfolding reads_def
  proof (intro allI impI)
    fix item pb c rest and h :: heap
    assume a: "readable (pa_depth pb) j" "rest_of pb = json_text j @ c # rest" "delim c" "\<forall>n. h_ok h n"
    show "\<exists>i h'. parse_value (Suc n) item pb h = Some (Some (i, move (length (json_text j)) pb), h')
      \<and> jval i = j \<and> i_string i = i_string item \<and> h_ok h' = h_ok h"
    proof (cases j)
      case JNull
      then show ?thesis using parse_value_literal [OF a(2)] by metis
    next
      case (JBool v)
      then show ?thesis using parse_value_literal [OF a(2)] by metis
    next
      case (JNum d)
      then have d: "num_readable d" "rest_of pb = num_text d @ c # rest" using a by auto
      obtain e s where e: "num_text d = e # s" "e = CHR ''-'' \<or> is_digit e" using num_text_hd [OF d(1)] .
      have "parse_value (Suc n) item pb h = parse_number item pb h"
        by (rule parse_value_dispatch(2) [OF _ e(2)]) (use d(2) e(1) in simp)
      then show ?thesis using parse_number_text [OF d(2) delim_not_num [OF a(3)] d(1), of item h] JNum
        by (auto simp: set_number_def)
    next
      case (JStr t)
      then obtain s where s: "j = JStr (Some s)" "NUL \<notin> set s" using a(1) by (auto simp: str_readable_def split: option.splits)
      then have r: "rest_of pb = quoted (Some s) @ c # rest" using a(2) by simp
      have "parse_value (Suc n) item pb h = parse_string item pb h"
        by (rule parse_value_dispatch(1) [OF _ refl]) (use r in \<open>simp add: quoted_def\<close>)
      then show ?thesis using parse_string_quote [OF r s(2) a(4), of item] by (auto simp: s(1) set_vstr_def)
    next
      case (JArr js)
      have "length js \<le> length (comma_list (map json_text js))" by (rule readable_length(1)) (use a(1) JArr in auto)
      then have l: "length js \<le> n" using Suc.prems JArr by simp
      have "\<forall>k\<in>set js. reads (parse_value n) k"
      proof
        fix k assume "k \<in> set js"
        then have "length (json_text k) \<le> length (comma_list (map json_text js))" by (intro comma_list_sub) simp
        then show "reads (parse_value n) k" using Suc.prems JArr by (intro Suc.IH) simp
      qed
      from parse_array_reads [OF this l] have "reads (parse_array (parse_value n) n) j" by (simp add: JArr)
      moreover have "parse_value (Suc n) item pb h = parse_array (parse_value n) n item pb h"
        by (rule parse_value_dispatch(3) [OF _ refl]) (use a(2) JArr in simp)
      ultimately show ?thesis using readsD [OF _ a] by metis
    next
      case (JObj ms)
      have j: "length (json_text j) = length (comma_list (map mem_text ms)) + 2" by (simp add: JObj json_text_obj del: json_text.simps)
      have "length ms \<le> length (comma_list (map mem_text ms))" by (rule readable_length(2)) (use a(1) JObj in auto)
      then have l: "length ms \<le> n" using Suc.prems j by simp
      have "\<forall>m\<in>set ms. reads (parse_value n) (snd m)"
      proof
        fix m assume "m \<in> set ms"
        then have "length (mem_text m) \<le> length (comma_list (map mem_text ms))" by (intro comma_list_sub) simp
        then show "reads (parse_value n) (snd m)" using Suc.prems j by (intro Suc.IH) (simp add: mem_text_def)
      qed
      from parse_object_reads [OF this l] have "reads (parse_object (parse_value n) n) j" by (simp add: JObj)
      moreover have "parse_value (Suc n) item pb h = parse_object (parse_value n) n item pb h"
        by (rule parse_value_dispatch(4) [OF _ refl]) (use a(2) JObj in simp)
      ultimately show ?thesis using readsD [OF _ a] by metis
    qed (use a(1) in simp_all)
  qed
qed

section \<open>The round trip\<close>

lemma parse_text:
  assumes "readable 0 j" "\<forall>n. h_ok h n"
  shows "\<exists>i h'. cJSON_Parse (Some (json_text j @ [NUL])) h = Some (Some i, h') \<and> jval i = j \<and> h_ok h' = h_ok h"
proof -
  let ?m = "json_text j @ [NUL]"
  have nn: "NUL \<notin> set (json_text j)" using json_text_no_nul readable_printable [OF assms(1)] by blast
  then have tw: "takeWhile (\<lambda>c. c \<noteq> NUL) ?m = json_text j" by (auto simp: takeWhile_append)
  define pb where "pb = \<lparr>pa_content = json_text j @ [NUL], pa_offset = 0, pa_depth = 0\<rparr>"
  obtain c s where c: "json_text j = c # s" "\<not> is_blank c" "c \<noteq> CHR 0xEF" using json_text_hd [OF assms(1)] by metis
  have rp: "rest_of pb = c # s @ [NUL]" by (simp add: pb_def rest_of_def c(1))
  have "skip_utf8_bom pb = pb" using c(3) by (simp add: skip_utf8_bom_def rp)
  then have st: "parse_start ?m = pb" using skip_cons [OF rp c(2)] unfolding parse_start_def tw by (simp flip: pb_def)
  obtain b h1 where n: "cJSON_New_Item h = (Some (Item b cJSON_Invalid NoKey None 0 (Fin False 0) []), h1)" "h_ok h1 = h_ok h"
    using new_item_some [OF assms(2)] .
  have "reads (parse_value (length (json_text j) + 2)) j" by (rule parse_value_reads) simp
  note rd = this
  have ps: "readable (pa_depth pb) j" "rest_of pb = json_text j @ NUL # []" "delim NUL" "\<forall>n. h_ok h1 n"
    using assms n(2) by (simp_all add: pb_def rest_of_def delim_def)
  obtain i h2 where "parse_value (length (json_text j) + 2) (Item b cJSON_Invalid NoKey None 0 (Fin False 0) []) pb h1
      = Some (Some (i, move (length (json_text j)) pb), h2)" "jval i = j" "h_ok h2 = h_ok h1"
    using readsD [OF rd ps] by metis
  then show ?thesis using n by (subst cJSON_Parse_eq) (simp_all only: tw st, simp_all)
qed

lemma num_readable_int:
  assumes "\<bar>i\<bar> < 10 ^ 15"
  shows "num_readable (dbl_of_int i)" "num_text (dbl_of_int i) = show_int i"
proof -
  have e: "\<bar>i\<bar> < 2 ^ 53" using assms by simp
  have d: "dbl_of_int i = Fin (i < 0) (of_int \<bar>i\<bar>)" by (rule dbl_of_int_exact [OF e])
  have "show_int i \<noteq> []" using show_nat_hd [of "nat \<bar>i\<bar>"] by (auto simp: show_int_def)
  then show n: "num_text (dbl_of_int i) = show_int i"
    using fmt_g_int [OF assms] strtod_show_int [OF e] d by (simp add: num_text_def)
  then show "num_readable (dbl_of_int i)"
    using strtod_show_int [OF e] d by (simp add: num_readable_def)
qed

text \<open>
  C35. Printing and reading back: when the allocations succeed, the text that
  \<open>cJSON_PrintUnformatted\<close> returns for a tree (finite numbers that their decimal text determines,
  strings without terminator, at most 1000 levels) is accepted by \<open>cJSON_Parse\<close>, and the tree it
  returns has the same value: the same structure, member names in the same order, the same
  strings whatever escapes they need, and the same doubles.
\<close>

theorem cJSON_print_parse:
  assumes "readable 0 (jval t)" "length (json_text (jval t)) + 3 \<le> INT_MAXn" "\<forall>n. al n" "\<forall>n. h_ok h n"
  shows "\<exists>s i h'. cJSON_PrintUnformatted al fill (Some t) = Some (Some s)
    \<and> cJSON_Parse (Some (s @ [NUL])) h = Some (Some i, h') \<and> jval i = jval t"
  using print_unformatted_ok [OF readable_printable [OF assms(1)] assms(3,2)] parse_text [OF assms(1,4)] by auto

definition number_tree :: cjson where
  "number_tree = Item 0 cJSON_Object NoKey None 0 (Fin False 0)
     [Item 1 cJSON_Number (HeapKey 2 ''n'') None 42 (dbl_of_int (- 42)) [],
      Item 3 cJSON_String (ConstKey ''s'') (Some (4, [CHR 0x22, CHR 0x01])) 0 (Fin False 0) [],
      Item 5 cJSON_Array (ConstKey ''l'') None 0 (Fin False 0) []]"

theorem cJSON_print_parse_witness:
  "\<exists>s i h'. cJSON_PrintUnformatted (\<lambda>_. True) (CHR ''?'') (Some number_tree) = Some (Some s)
    \<and> cJSON_Parse (Some (s @ [NUL])) (heap0 (\<lambda>_. True)) = Some (Some i, h') \<and> jval i = jval number_tree"
proof (rule cJSON_print_parse)
  have n: "num_readable (dbl_of_int (- 42))" by (rule num_readable_int(1)) simp
  show "readable 0 (jval number_tree)"
    using n by (simp add: number_tree_def str_readable_def CJSON_NESTING_LIMIT_def)
  show "length (json_text (jval number_tree)) + 3 \<le> INT_MAXn"
    using num_text_chars(2) [OF n]
    by (simp add: number_tree_def quoted_def esc_string_def esc_def esc_letter_def ctl_char_def hex4_def INT_MAXn_def)
qed (simp_all add: heap0_def)

end
