(* ===== verification/Metriccapture.thy ===== *)
theory Metriccapture
  imports Circbuf Heap
begin

text \<open>
  Capture of statsd metrics from intercepted payloads (\<^verbatim>\<open>src/metriccapture.c\<close>): a payload that matches one
  of the two statsd patterns becomes a metric whose address is put on a ring; the reporting thread
  empties the ring, reports every metric and frees it.

  The ring holds 64-bit addresses; the object at an address is found in \<open>mc_objs\<close>. Blocks are
  numbered and the address of a block is its number. The regular expression matcher is a parameter:
  it gives the return code of the match and the text of the groups, \<open>None\<close> for a group that is not
  set. The matcher's results and their substrings are heap blocks. What \<open>reportCapturedMetric\<close>
  (\<^verbatim>\<open>src/report.c\<close>) is called with is the list of metrics that the loop returns.
\<close>

section \<open>Data\<close>

record captured_metric_t =
  cm_name :: "hstr option"
  cm_value :: "hstr option"
  cm_type :: "hstr option"
  cm_dims :: "hstr option"

datatype statsd_re = STATSD | STATSD_EXT

type_synonym matcher = "statsd_re \<Rightarrow> string \<Rightarrow> int \<times> (nat \<Rightarrow> string option)"

definition STATSD_CAPTURE_GROUPS :: int where "STATSD_CAPTURE_GROUPS = 4"
definition STATSD_EXT_CAPTURE_GROUPS :: int where "STATSD_EXT_CAPTURE_GROUPS = 5"
definition DEFAULT_CBUF_SIZE :: u64 where "DEFAULT_CBUF_SIZE = 10000 * 10"

text \<open>
  The module's globals, with the heap and the drop counter of the ring. \<open>mc_freed\<close> tells that
  \<open>g_metric_buf\<close> points to a freed ring.
\<close>

record mcap =
  g_statsd_regex :: bool
  g_statsd_ext_regex :: bool
  g_metric_buf :: "cbuf_t option"
  mc_freed :: bool
  mc_objs :: "block \<Rightarrow> captured_metric_t option"
  mc_heap :: heap
  mc_drops :: u64

section \<open>Operations\<close>

text \<open>
  \<open>re_ok\<close> and \<open>ext_ok\<close> tell whether the patterns compile, \<open>ok1\<close> and \<open>ok2\<close> whether the ring's
  allocations succeed. \<open>qlen_str\<close> is the environment variable and \<open>strtoul\<close> gives its value and
  whether it set \<open>errno\<close>.
\<close>

definition queue_length :: "(string \<Rightarrow> u64 \<times> bool) \<Rightarrow> string option \<Rightarrow> u64" where
  "queue_length strtoul qlen_str = (case qlen_str of
       None \<Rightarrow> DEFAULT_CBUF_SIZE
     | Some s \<Rightarrow> (let (qlen, err) = strtoul s in if \<not> err \<and> qlen \<noteq> 0 then qlen else DEFAULT_CBUF_SIZE))"

definition initMetricCapture ::
  "bool \<Rightarrow> bool \<Rightarrow> bool \<Rightarrow> bool \<Rightarrow> (string \<Rightarrow> u64 \<times> bool) \<Rightarrow> string option \<Rightarrow> mcap \<Rightarrow> mcap" where
  "initMetricCapture re_ok ext_ok ok1 ok2 strtoul qlen_str st =
     (let st = (if \<not> g_statsd_regex st then st\<lparr>g_statsd_regex := re_ok\<rparr> else st);
          st = (if \<not> g_statsd_ext_regex st then st\<lparr>g_statsd_ext_regex := ext_ok\<rparr> else st);
          buf_size = queue_length strtoul qlen_str
      in st\<lparr>g_metric_buf := cbufInit ok1 ok2 buf_size, mc_freed := False\<rparr>)"

definition destroyMetricCapture :: "mcap \<Rightarrow> mcap option" where
  "destroyMetricCapture st =
     (if mc_freed st then None
      else Some (st\<lparr>mc_freed := g_metric_buf st \<noteq> None, g_statsd_ext_regex := False, g_statsd_regex := False\<rparr>))"

text \<open>\<open>if (p) pcre2_substring_free(p)\<close>\<close>

definition substring_free :: "hstr option \<Rightarrow> heap \<Rightarrow> heap option" where
  "substring_free s h = h_free_opt (map_option fst s) h"

definition free_fields :: "captured_metric_t \<Rightarrow> heap \<Rightarrow> heap option" where
  "free_fields m h = do {
     h \<leftarrow> substring_free (cm_name m) h;
     h \<leftarrow> substring_free (cm_value m) h;
     h \<leftarrow> substring_free (cm_type m) h;
     substring_free (cm_dims m) h }"

definition createCapturedMetric ::
  "hstr option \<Rightarrow> hstr option \<Rightarrow> hstr option \<Rightarrow> hstr option \<Rightarrow> heap
     \<Rightarrow> ((block \<times> captured_metric_t) option \<times> heap) option" where
  "createCapturedMetric name value type dims h =
     (let m = \<lparr>cm_name = name, cm_value = value, cm_type = type, cm_dims = dims\<rparr> in
      if name = None \<or> value = None \<or> type = None then do { h \<leftarrow> free_fields m h; Some (None, h) }
      else (case h_alloc h of
          (None, h) \<Rightarrow> do { h \<leftarrow> free_fields m h; Some (None, h) }
        | (Some base, h) \<Rightarrow> Some (Some (base, m), h)))"

text \<open>The metric at block \<open>b\<close>; \<open>None\<close> when there is none.\<close>

definition destroyCapturedMetric :: "block \<Rightarrow> mcap \<Rightarrow> mcap option" where
  "destroyCapturedMetric b st = do {
     tmp \<leftarrow> mc_objs st b;
     h \<leftarrow> free_fields tmp (mc_heap st);
     h \<leftarrow> h_free b h;
     Some (st\<lparr>mc_heap := h, mc_objs := (mc_objs st)(b := None)\<rparr>) }"

text \<open>The loop; \<open>data\<close> is the value the variable has before the call of \<open>cbufGet\<close>.\<close>

partial_function (option) report_captured :: "u64 \<Rightarrow> mcap \<Rightarrow> (captured_metric_t list \<times> mcap) option" where
  "report_captured data st = do {
     (rc, buf, d) \<leftarrow> cbufGet (g_metric_buf st) (Some data);
     let st = st\<lparr>g_metric_buf := buf\<rparr>;
     (if rc \<noteq> 0 then Some ([], st)
      else do {
        data \<leftarrow> d;
        if data = 0 then report_captured data st
        else do {
          metric \<leftarrow> mc_objs st (unat data);
          st \<leftarrow> destroyCapturedMetric (unat data) st;
          (ms, st) \<leftarrow> report_captured data st;
          Some (metric # ms, st) } }) }"

definition reportAllCapturedMetrics :: "u64 \<Rightarrow> mcap \<Rightarrow> (captured_metric_t list \<times> mcap) option" where
  "reportAllCapturedMetrics data st =
     (if g_metric_buf st = None then Some ([], st)
      else if mc_freed st then None
      else report_captured data st)"

definition pcre2_substring_get_bynumber :: "(nat \<Rightarrow> string option) \<Rightarrow> nat \<Rightarrow> heap \<Rightarrow> hstr option \<times> heap" where
  "pcre2_substring_get_bynumber groups n h = (case groups n of
       None \<Rightarrow> (None, h)
     | Some s \<Rightarrow> (let (p, h) = h_alloc h in (map_option (\<lambda>b. (b, s)) p, h)))"

text \<open>The match: the match data, the return code and the groups; \<open>None\<close> for \<open>goto out\<close>.\<close>

definition match_statsd ::
  "matcher \<Rightarrow> string \<Rightarrow> heap \<Rightarrow> ((block \<times> int \<times> (nat \<Rightarrow> string option)) option \<times> heap) option" where
  "match_statsd mt buf h = (case h_alloc h of
       (None, h) \<Rightarrow> Some (None, h)
     | (Some matches, h) \<Rightarrow>
         let (rc, groups) = mt STATSD_EXT buf in
         if rc = STATSD_EXT_CAPTURE_GROUPS then Some (Some (matches, rc, groups), h)
         else do {
           h \<leftarrow> h_free matches h;
           (case h_alloc h of
              (None, h) \<Rightarrow> Some (None, h)
            | (Some matches, h) \<Rightarrow>
                let (rc, groups) = mt STATSD buf in
                if rc = STATSD_CAPTURE_GROUPS then Some (Some (matches, rc, groups), h)
                else do { h \<leftarrow> h_free matches h; Some (None, h) }) })"

text \<open>The metric object for a match is created and put on the ring.\<close>

definition capture_match :: "block \<Rightarrow> int \<Rightarrow> (nat \<Rightarrow> string option) \<Rightarrow> mcap \<Rightarrow> (bool \<times> mcap) option" where
  "capture_match matches rc groups st =
     (let (name, h) = pcre2_substring_get_bynumber groups 1 (mc_heap st);
          (val, h) = pcre2_substring_get_bynumber groups 2 h;
          (type, h) = pcre2_substring_get_bynumber groups 3 h;
          (dims, h) = (if rc = STATSD_EXT_CAPTURE_GROUPS then pcre2_substring_get_bynumber groups 4 h else (None, h))
      in do {
        (metric, h) \<leftarrow> createCapturedMetric name val type dims h;
        (case metric of
           None \<Rightarrow> do { h \<leftarrow> h_free matches h; Some (False, st\<lparr>mc_heap := h\<rparr>) }
         | Some (b, m) \<Rightarrow> do {
             let st = st\<lparr>mc_heap := h, mc_objs := (mc_objs st)(b \<mapsto> m)\<rparr>;
             (rc, cb, drops) \<leftarrow> cbufPut (g_metric_buf st) (word_of_nat b) (mc_drops st);
             let st = st\<lparr>g_metric_buf := cb, mc_drops := drops\<rparr>;
             st \<leftarrow> (if rc = - 1 then destroyCapturedMetric b st else Some st);
             h \<leftarrow> h_free matches (mc_heap st);
             Some (rc \<noteq> - 1, st\<lparr>mc_heap := h\<rparr>) }) })"

definition doMetricBuffer :: "matcher \<Rightarrow> string \<Rightarrow> mcap \<Rightarrow> (bool \<times> mcap) option" where
  "doMetricBuffer mt buf st =
     (if \<not> g_statsd_regex st \<or> \<not> g_statsd_ext_regex st \<or> g_metric_buf st = None then Some (False, st)
      else if mc_freed st then None
      else do {
        (r, h) \<leftarrow> match_statsd mt buf (mc_heap st);
        (case r of
           None \<Rightarrow> Some (False, st\<lparr>mc_heap := h\<rparr>)
         | Some (matches, rc, groups) \<Rightarrow> capture_match matches rc groups (st\<lparr>mc_heap := h\<rparr>)) })"

text \<open>
  The vectors of \<open>sendmsg\<close> and \<open>writev\<close>: \<open>None\<close> is a NULL base and \<open>Some []\<close> an empty vector.
  \<open>ret || doMetricBuffer(...)\<close> calls it only while nothing was captured.
\<close>

fun capture_vectors :: "matcher \<Rightarrow> string option list \<Rightarrow> bool \<Rightarrow> mcap \<Rightarrow> (bool \<times> mcap) option" where
  "capture_vectors mt [] ret st = Some (ret, st)"
| "capture_vectors mt (iov # iovs) ret st = (case iov of
       None \<Rightarrow> capture_vectors mt iovs ret st
     | Some base \<Rightarrow>
         if base = [] \<or> ret then capture_vectors mt iovs ret st
         else do { (ret, st) \<leftarrow> doMetricBuffer mt base st; capture_vectors mt iovs ret st })"

datatype capture_data = BUF string | MSG "string option list" | IOV "string option list" | NONE

definition doMetricCapture :: "matcher \<Rightarrow> capture_data \<Rightarrow> mcap \<Rightarrow> (bool \<times> mcap) option" where
  "doMetricCapture mt d st = (case d of
       BUF buf \<Rightarrow> doMetricBuffer mt buf st
     | MSG iovs \<Rightarrow> capture_vectors mt iovs False st
     | IOV iovs \<Rightarrow> capture_vectors mt iovs False st
     | NONE \<Rightarrow> Some (False, st))"

section \<open>What a payload contains\<close>

type_synonym metric_text = "string \<times> string \<times> string \<times> string option"

definition metric_text :: "captured_metric_t \<Rightarrow> metric_text" where
  "metric_text m = (the (str_of (cm_name m)), the (str_of (cm_value m)), the (str_of (cm_type m)), str_of (cm_dims m))"

definition statsd_text :: "matcher \<Rightarrow> string \<Rightarrow> metric_text option" where
  "statsd_text mt buf = (let (rc, g) = mt STATSD_EXT buf; (rc', g') = mt STATSD buf in
     if rc = STATSD_EXT_CAPTURE_GROUPS then do { n \<leftarrow> g 1; v \<leftarrow> g 2; t \<leftarrow> g 3; Some (n, v, t, g 4) }
     else if rc' = STATSD_CAPTURE_GROUPS then do { n \<leftarrow> g' 1; v \<leftarrow> g' 2; t \<leftarrow> g' 3; Some (n, v, t, None) }
     else None)"

section \<open>Ownership\<close>

definition field_blocks :: "captured_metric_t \<Rightarrow> block multiset" where
  "field_blocks m = sblk (cm_name m) + sblk (cm_value m) + sblk (cm_type m) + sblk (cm_dims m)"

fun metric_blocks :: "block \<times> captured_metric_t \<Rightarrow> block multiset" where
  "metric_blocks (b, m) = add_mset b (field_blocks m)"

definition h_next :: "heap \<Rightarrow> nat" where
  "h_next h = am_next (h_mem h)"

lemma alloc_spec:
  assumes "howns h B" "h_alloc h = (p, h')"
  shows "howns h' (blk p + B)" "h_ok h' = h_ok h" "h_next h' \<le> Suc (h_next h)" "(\<forall>n. h_ok h n) \<Longrightarrow> p \<noteq> None"
    "p = Some b \<Longrightarrow> b = h_next h \<and> b \<notin># B" "h_next h \<le> h_next h'"
proof -
  note a = howns_alloc [OF assms]
  show "howns h' (blk p + B)" "h_ok h' = h_ok h" by (fact a(1), fact a(2))
  show "(\<forall>n. h_ok h n) \<Longrightarrow> p \<noteq> None" using a(3) by auto
  show "h_next h' \<le> Suc (h_next h)" "h_next h \<le> h_next h'"
    using assms(2) by (auto simp: h_alloc_def am_alloc_def h_next_def Let_def split: if_splits)
  assume "p = Some b"
  then have b: "b = h_next h" using assms(2) by (auto simp: h_alloc_def am_alloc_def h_next_def Let_def split: if_splits)
  moreover have "am_ok (h_mem h)" "set (am_live (h_mem h)) = set_mset B"
    using assms(1) by (auto simp: howns_def owns_def)
  ultimately show "b = h_next h \<and> b \<notin># B" using am_ok_next [of "h_mem h"] by (auto simp: h_next_def)
qed

lemma howns_less: "howns h B \<Longrightarrow> b \<in># B \<Longrightarrow> b < h_next h"
  by (auto simp: howns_def owns_def am_ok_def h_next_def)

lemma free_next: "h_free b h = Some h' \<Longrightarrow> h_next h' = h_next h"
  by (auto simp: h_free_def am_free_def h_next_def split: option.splits if_splits)

lemma free_spec:
  assumes "howns h (add_mset b B)"
  obtains h' where "h_free b h = Some h'" "howns h' B" "h_ok h' = h_ok h" "h_next h' = h_next h"
  using howns_free [OF assms] free_next by metis

lemma substring_free_spec:
  assumes "howns h (sblk s + B)"
  obtains h' where "substring_free s h = Some h'" "howns h' B" "h_ok h' = h_ok h" "h_next h' = h_next h"
  using assms free_spec [of h _ B] by (cases s) (auto simp: substring_free_def h_free_opt_def sblk_def)

lemma free_fields_spec:
  assumes "howns h (field_blocks m + B)"
  obtains h' where "free_fields m h = Some h'" "howns h' B" "h_ok h' = h_ok h" "h_next h' = h_next h"
proof -
  have "howns h (sblk (cm_name m) + (sblk (cm_value m) + (sblk (cm_type m) + (sblk (cm_dims m) + B))))"
    using assms by (simp add: field_blocks_def ac_simps)
  then obtain h1 where h1: "substring_free (cm_name m) h = Some h1" "h_ok h1 = h_ok h" "h_next h1 = h_next h"
    "howns h1 (sblk (cm_value m) + (sblk (cm_type m) + (sblk (cm_dims m) + B)))" by (rule substring_free_spec)
  from h1(4) obtain h2 where h2: "substring_free (cm_value m) h1 = Some h2" "h_ok h2 = h_ok h1" "h_next h2 = h_next h1"
    "howns h2 (sblk (cm_type m) + (sblk (cm_dims m) + B))" by (rule substring_free_spec)
  from h2(4) obtain h3 where h3: "substring_free (cm_type m) h2 = Some h3" "h_ok h3 = h_ok h2" "h_next h3 = h_next h2"
    "howns h3 (sblk (cm_dims m) + B)" by (rule substring_free_spec)
  from h3(4) obtain h4 where h4: "substring_free (cm_dims m) h3 = Some h4" "h_ok h4 = h_ok h3" "h_next h4 = h_next h3"
    "howns h4 B" by (rule substring_free_spec)
  show thesis using that [of h4] h1 h2 h3 h4 by (simp add: free_fields_def)
qed

lemma get_substring_spec:
  assumes "howns h B" "pcre2_substring_get_bynumber g n h = (s, h')"
  shows "howns h' (sblk s + B)" "h_ok h' = h_ok h" "h_next h' \<le> Suc (h_next h)" "s = None \<or> str_of s = g n"
    "(\<forall>k. h_ok h k) \<Longrightarrow> str_of s = g n" "h_next h \<le> h_next h'"
proof -
  obtain p h1 where p: "h_alloc h = (p, h1)" by fastforce
  note a = alloc_spec [OF assms(1) p]
  show "howns h' (sblk s + B)" "h_ok h' = h_ok h" "h_next h' \<le> Suc (h_next h)" "s = None \<or> str_of s = g n"
    "(\<forall>k. h_ok h k) \<Longrightarrow> str_of s = g n" "h_next h \<le> h_next h'"
    using assms a(1-4,6) p by (cases p; cases "g n"; auto simp: pcre2_substring_get_bynumber_def sblk_def str_of_def)+
qed

lemma createCapturedMetric_spec:
  assumes "howns h (sblk n + (sblk v + (sblk t + (sblk d + B))))"
  obtains r h' where "createCapturedMetric n v t d h = Some (r, h')" "h_ok h' = h_ok h" "h_next h' \<le> Suc (h_next h)"
    "r = None \<and> howns h' B \<or>
     (\<exists>b. r = Some (b, \<lparr>cm_name = n, cm_value = v, cm_type = t, cm_dims = d\<rparr>) \<and> b = h_next h
        \<and> n \<noteq> None \<and> v \<noteq> None \<and> t \<noteq> None
        \<and> howns h' (metric_blocks (b, \<lparr>cm_name = n, cm_value = v, cm_type = t, cm_dims = d\<rparr>) + B))"
    "(\<forall>k. h_ok h k) \<and> n \<noteq> None \<and> v \<noteq> None \<and> t \<noteq> None \<longrightarrow> r \<noteq> None" "h_next h \<le> h_next h'"
proof -
  define m where "m = \<lparr>cm_name = n, cm_value = v, cm_type = t, cm_dims = d\<rparr>"
  have own: "howns h (field_blocks m + B)" using assms by (simp add: field_blocks_def m_def ac_simps)
  show thesis
  proof (cases "n = None \<or> v = None \<or> t = None")
    case True
    obtain h' where "free_fields m h = Some h'" "howns h' B" "h_ok h' = h_ok h" "h_next h' = h_next h"
      using free_fields_spec [OF own] .
    then show thesis using True that [of None h'] by (auto simp: createCapturedMetric_def Let_def simp flip: m_def)
  next
    case False
    obtain p h1 where p: "h_alloc h = (p, h1)" by fastforce
    note a = alloc_spec [OF own p]
    show thesis
    proof (cases p)
      case None
      then obtain h' where "free_fields m h1 = Some h'" "howns h' B" "h_ok h' = h_ok h1" "h_next h' = h_next h1"
        using free_fields_spec [of h1 m B] a(1) by auto
      moreover have "\<not> (\<forall>k. h_ok h k)" using a(4) None by blast
      ultimately show thesis using False None a(2,3,6) p that [of None h']
        by (auto simp: createCapturedMetric_def Let_def simp flip: m_def)
    next
      case (Some b)
      then show thesis using False a(1,2,3,5,6) p that [of "Some (b, m)" h1]
        by (auto simp: createCapturedMetric_def Let_def ac_simps simp flip: m_def)
    qed
  qed
qed

section \<open>The invariant\<close>

text \<open>
  The metrics \<open>ms\<close> on the ring, oldest first: the ring is well formed and holds their addresses,
  which are not NULL, and the heap has their blocks and the blocks \<open>B\<close> of the rest of the program.
  \<open>lim\<close> bounds the block numbers used so far.
\<close>

definition mc_inv :: "(block \<times> captured_metric_t) list \<Rightarrow> block multiset \<Rightarrow> nat \<Rightarrow> nat \<Rightarrow> mcap \<Rightarrow> bool" where
  "mc_inv ms B cap lim st = (case g_metric_buf st of None \<Rightarrow> False | Some c \<Rightarrow>
     \<not> mc_freed st \<and> cb_inv c \<and> cb_cap c = cap \<and> cb_list c = map (\<lambda>x. word_of_nat (fst x)) ms
     \<and> (\<forall>x\<in>set ms. mc_objs st (fst x) = Some (snd x) \<and> 0 < fst x \<and> fst x < 2 ^ 64) \<and> distinct (map fst ms)
     \<and> howns (mc_heap st) (sum_list (map metric_blocks ms) + B) \<and> 0 < h_next (mc_heap st) \<and> h_next (mc_heap st) \<le> lim)"

lemma mc_invD:
  assumes "mc_inv ms B cap lim st"
  obtains c where "g_metric_buf st = Some c" "\<not> mc_freed st" "cb_inv c" "cb_cap c = cap"
    "cb_list c = map (\<lambda>x. word_of_nat (fst x)) ms"
    "\<forall>x\<in>set ms. mc_objs st (fst x) = Some (snd x) \<and> 0 < fst x \<and> fst x < 2 ^ 64" "distinct (map fst ms)"
    "howns (mc_heap st) (sum_list (map metric_blocks ms) + B)" "0 < h_next (mc_heap st)" "h_next (mc_heap st) \<le> lim"
  using assms that by (auto simp: mc_inv_def split: option.splits)

lemma mc_invI:
  assumes "g_metric_buf st = Some c" "\<not> mc_freed st" "cb_inv c" "cb_cap c = cap"
    "cb_list c = map (\<lambda>x. word_of_nat (fst x)) ms"
    "\<forall>x\<in>set ms. mc_objs st (fst x) = Some (snd x) \<and> 0 < fst x \<and> fst x < 2 ^ 64" "distinct (map fst ms)"
    "howns (mc_heap st) (sum_list (map metric_blocks ms) + B)" "0 < h_next (mc_heap st)" "h_next (mc_heap st) \<le> lim"
  shows "mc_inv ms B cap lim st"
  using assms by (simp add: mc_inv_def)

lemma destroyCapturedMetric_spec:
  assumes "mc_objs st b = Some m" "howns (mc_heap st) (metric_blocks (b, m) + B)"
  obtains h where "destroyCapturedMetric b st = Some (st\<lparr>mc_heap := h, mc_objs := (mc_objs st)(b := None)\<rparr>)"
    "howns h B" "h_ok h = h_ok (mc_heap st)" "h_next h = h_next (mc_heap st)"
proof -
  have "howns (mc_heap st) (field_blocks m + add_mset b B)" using assms(2) by simp
  then obtain h1 where h1: "free_fields m (mc_heap st) = Some h1" "howns h1 (add_mset b B)"
    "h_ok h1 = h_ok (mc_heap st)" "h_next h1 = h_next (mc_heap st)" by (rule free_fields_spec)
  from h1(2) obtain h2 where h2: "h_free b h1 = Some h2" "howns h2 B" "h_ok h2 = h_ok h1" "h_next h2 = h_next h1"
    by (rule free_spec)
  show thesis using that [of h2] h1 h2 assms(1) by (simp add: destroyCapturedMetric_def)
qed

section \<open>Reporting\<close>

text \<open>
  The loop returns, reports every metric on the ring once and in order, and frees them.
\<close>

lemma report_captured_all:
  "mc_inv ms B cap lim st \<Longrightarrow>
     \<exists>st'. report_captured d st = Some (map snd ms, st') \<and> mc_inv [] B cap lim st' \<and> h_ok (mc_heap st') = h_ok (mc_heap st)
       \<and> g_statsd_regex st' = g_statsd_regex st \<and> g_statsd_ext_regex st' = g_statsd_ext_regex st"
proof (induction ms arbitrary: st d)
  case Nil
  obtain c where c: "g_metric_buf st = Some c" "cb_inv c" "cb_list c = []" using Nil by (auto elim: mc_invD)
  have "st\<lparr>g_metric_buf := Some c\<rparr> = st" using c(1) by simp
  then have "report_captured d st = Some ([], st)"
    using ring.get_none [OF c(2,3), of d] c(1) by (subst report_captured.simps) simp
  then show ?case using Nil by simp
next
  case (Cons x ms)
  obtain b m where x: "x = (b, m)" by fastforce
  from Cons.prems obtain c where c: "g_metric_buf st = Some c" "\<not> mc_freed st" "cb_inv c" "cb_cap c = cap"
    "cb_list c = word_of_nat b # map (\<lambda>x. word_of_nat (fst x)) ms"
    "\<forall>x\<in>set ms. mc_objs st (fst x) = Some (snd x) \<and> 0 < fst x \<and> fst x < 2 ^ 64" "mc_objs st b = Some m" "0 < b" "b < 2 ^ 64"
    "distinct (map fst ms)" "b \<notin> fst ` set ms"
    "howns (mc_heap st) (metric_blocks (b, m) + (sum_list (map metric_blocks ms) + B))"
    "0 < h_next (mc_heap st)" "h_next (mc_heap st) \<le> lim"
    by (auto simp: x add.assoc elim!: mc_invD)
  obtain c' where c': "cbufGet (Some c) (Some d) = Some (0, Some c', Some (word_of_nat b))" "cb_inv c'"
    "cb_list c' = map (\<lambda>x. word_of_nat (fst x)) ms" "cb_cap c' = cb_cap c"
    using ring.get_some [OF c(3,5), of d] by blast
  let ?s = "st\<lparr>g_metric_buf := Some c'\<rparr>"
  obtain h where h: "destroyCapturedMetric b ?s = Some (?s\<lparr>mc_heap := h, mc_objs := (mc_objs ?s)(b := None)\<rparr>)"
    "howns h (sum_list (map metric_blocks ms) + B)" "h_ok h = h_ok (mc_heap st)" "h_next h = h_next (mc_heap st)"
    using destroyCapturedMetric_spec [of ?s b m] c by auto
  define s' where "s' = ?s\<lparr>mc_heap := h, mc_objs := (mc_objs ?s)(b := None)\<rparr>"
  have ub: "unat (word_of_nat b :: u64) = b" "(word_of_nat b :: u64) \<noteq> 0"
  proof -
    show u: "unat (word_of_nat b :: u64) = b" using c(9) by (simp add: unat_of_nat take_bit_nat_eq_self)
    show "(word_of_nat b :: u64) \<noteq> 0" using u c(8) by (metis less_irrefl unat_0)
  qed
  have "mc_inv ms B cap lim s'"
    by (rule mc_invI [of _ c']) (use c c' h in \<open>auto simp: s'_def image_iff\<close>)
  from Cons.IH [OF this, of "word_of_nat b"] obtain st' where st': "report_captured (word_of_nat b) s' = Some (map snd ms, st')"
    "mc_inv [] B cap lim st'" "h_ok (mc_heap st') = h_ok (mc_heap s')"
    "g_statsd_regex st' = g_statsd_regex s'" "g_statsd_ext_regex st' = g_statsd_ext_regex s'" by blast
  have "report_captured d st = Some (map snd (x # ms), st')"
    using c(1,7) c'(1) h(1) st'(1) ub x by (subst report_captured.simps) (simp add: s'_def)
  then show ?case using st' h(3) by (auto simp: s'_def)
qed

section \<open>Capturing\<close>

definition match_blk :: "(block \<times> 'a) option \<Rightarrow> block multiset" where
  "match_blk r = (case r of None \<Rightarrow> {#} | Some (k, _) \<Rightarrow> {#k#})"

definition match_ok :: "matcher \<Rightarrow> string \<Rightarrow> (nat \<Rightarrow> bool) \<Rightarrow> (block \<times> int \<times> (nat \<Rightarrow> string option)) option \<Rightarrow> bool" where
  "match_ok mt buf al r = (let e = mt STATSD_EXT buf; s = mt STATSD buf in case r of
     None \<Rightarrow> (\<forall>n. al n) \<longrightarrow> fst e \<noteq> STATSD_EXT_CAPTURE_GROUPS \<and> fst s \<noteq> STATSD_CAPTURE_GROUPS
   | Some (k, x) \<Rightarrow> if fst e = STATSD_EXT_CAPTURE_GROUPS then x = e else x = s \<and> fst s = STATSD_CAPTURE_GROUPS)"

lemma match_statsd_spec:
  assumes "howns h B"
  obtains r h' where "match_statsd mt buf h = Some (r, h')" "h_ok h' = h_ok h" "h_next h' \<le> h_next h + 2" "h_next h \<le> h_next h'"
    "howns h' (match_blk r + B)" "match_ok mt buf (h_ok h) r"
proof -
  obtain re ge rs gs where m: "mt STATSD_EXT buf = (re, ge)" "mt STATSD buf = (rs, gs)" by (metis surj_pair)
  obtain p h1 where p: "h_alloc h = (p, h1)" by fastforce
  note a = alloc_spec [OF assms p]
  consider (none) "p = None" | (ext) k where "p = Some k" "re = STATSD_EXT_CAPTURE_GROUPS"
    | (std) k where "p = Some k" "re \<noteq> STATSD_EXT_CAPTURE_GROUPS" by blast
  then show thesis
  proof cases
    case none
    have "\<not> (\<forall>n. h_ok h n)" using a(4) none by blast
    then show thesis using a(1,2,3,6) none p by (intro that [of None h1]) (auto simp: match_statsd_def match_ok_def match_blk_def Let_def)
  next
    case (ext k)
    then show thesis using a(1,2,3,6) p m
      by (intro that [of "Some (k, re, ge)" h1]) (simp_all add: match_statsd_def match_ok_def match_blk_def Let_def)
  next
    case (std k)
    obtain h2 where h2: "h_free k h1 = Some h2" "howns h2 B" "h_ok h2 = h_ok h1" "h_next h2 = h_next h1"
      using free_spec [of h1 k B] a(1) std(1) by auto
    obtain q h3 where q: "h_alloc h2 = (q, h3)" by fastforce
    note b = alloc_spec [OF h2(2) q]
    have nx: "h_next h3 \<le> h_next h + 2" "h_next h \<le> h_next h3" using a(3,6) b(3,6) h2(4) by auto
    have ok: "h_ok h3 = h_ok h" using a(2) b(2) h2(3) by simp
    note eqs = match_statsd_def match_ok_def match_blk_def Let_def
    consider (none) "q = None" | (std4) j where "q = Some j" "rs = STATSD_CAPTURE_GROUPS"
      | (no) j where "q = Some j" "rs \<noteq> STATSD_CAPTURE_GROUPS" by blast
    then show thesis
    proof cases
      case none
      have "\<not> (\<forall>n. h_ok h n)" using b(4) none a(2) h2(3) by auto
      then show thesis using b(1) none p q std m h2(1) nx ok by (intro that [of None h3]) (auto simp: eqs)
    next
      case (std4 j)
      then show thesis using b(1) p q std m h2(1) nx ok by (intro that [of "Some (j, rs, gs)" h3]) (simp_all add: eqs)
    next
      case (no j)
      obtain h4 where h4: "h_free j h3 = Some h4" "howns h4 B" "h_ok h4 = h_ok h3" "h_next h4 = h_next h3"
        using free_spec [of h3 j B] b(1) no(1) by auto
      then show thesis using no p q std m h2(1) nx ok by (intro that [of None h4]) (simp_all add: eqs)
    qed
  qed
qed

text \<open>The blocks and the counters of a state, as one fact: the metrics on the ring and the other blocks.\<close>

lemma put_metric:
  assumes inv: "mc_inv ms (metric_blocks (b, m) + B) cap lim st" and b: "mc_objs st b = Some m" "0 < b" "b < 2 ^ 64" "b \<notin> fst ` set ms"
  shows "\<exists>rc cb drops. cbufPut (g_metric_buf st) (word_of_nat b) (mc_drops st) = Some (rc, cb, drops) \<and>
    (if length ms < cap then rc = 0 \<and> mc_inv (ms @ [(b, m)]) B cap lim (st\<lparr>g_metric_buf := cb, mc_drops := drops\<rparr>)
     else rc = - 1 \<and> mc_inv ms (metric_blocks (b, m) + B) cap lim (st\<lparr>g_metric_buf := cb, mc_drops := drops\<rparr>))"
proof -
  obtain c where c: "g_metric_buf st = Some c" "\<not> mc_freed st" "cb_inv c" "cb_cap c = cap"
    "cb_list c = map (\<lambda>x. word_of_nat (fst x)) ms"
    "\<forall>x\<in>set ms. mc_objs st (fst x) = Some (snd x) \<and> 0 < fst x \<and> fst x < 2 ^ 64" "distinct (map fst ms)"
    "howns (mc_heap st) (sum_list (map metric_blocks ms) + (metric_blocks (b, m) + B))" "0 < h_next (mc_heap st)" "h_next (mc_heap st) \<le> lim"
    using inv by (rule mc_invD)
  have len: "length (cb_list c) = length ms" by (simp add: c(5))
  show ?thesis
  proof (cases "length ms < cap")
    case True
    then obtain c' where c': "cbufPut (Some c) (word_of_nat b) (mc_drops st) = Some (0, Some c', mc_drops st)" "cb_inv c'"
      "cb_list c' = cb_list c @ [word_of_nat b]" "cb_cap c' = cb_cap c"
      using ring.put_room [OF c(3), of "word_of_nat b" "mc_drops st"] c(4) len by auto
    have "mc_inv (ms @ [(b, m)]) B cap lim (st\<lparr>g_metric_buf := Some c', mc_drops := mc_drops st\<rparr>)"
      by (rule mc_invI [of _ c']) (use c c' b in \<open>auto simp: add.assoc\<close>)
    then show ?thesis using True c(1) c'(1) by simp
  next
    case False
    then have "length (cb_list c) = cb_cap c" using ring.bounded [OF c(3)] c(4) len by simp
    then obtain d where d: "cbufPut (Some c) (word_of_nat b) (mc_drops st) = Some (- 1, Some c, d)"
      using ring.put_full [OF c(3)] by blast
    have "mc_inv ms (metric_blocks (b, m) + B) cap lim (st\<lparr>g_metric_buf := Some c, mc_drops := d\<rparr>)"
      by (rule mc_invI [of _ c]) (use c in auto)
    then show ?thesis using False c(1) d by simp
  qed
qed

lemma mc_inv_heap:
  assumes "mc_inv ms B cap lim st" "howns h (sum_list (map metric_blocks ms) + B')" "h_next (mc_heap st) \<le> h_next h" "h_next h \<le> lim'"
  shows "mc_inv ms B' cap lim' (st\<lparr>mc_heap := h\<rparr>)"
  using assms by (auto simp: mc_inv_def split: option.splits)

lemma substrings_spec:
  assumes "howns h B" "pcre2_substring_get_bynumber g 1 h = (n, h1)" "pcre2_substring_get_bynumber g 2 h1 = (v, h2)"
    "pcre2_substring_get_bynumber g 3 h2 = (t, h3)"
    "(if x then pcre2_substring_get_bynumber g 4 h3 else (None, h3)) = (d, h4)"
  shows "howns h4 (sblk n + (sblk v + (sblk t + (sblk d + B))))" "h_ok h4 = h_ok h" "h_next h4 \<le> h_next h + 4" "h_next h \<le> h_next h4"
    "(\<forall>k. h_ok h k) \<longrightarrow> str_of n = g 1 \<and> str_of v = g 2 \<and> str_of t = g 3 \<and> str_of d = (if x then g 4 else None)"
proof -
  note a1 = get_substring_spec [OF assms(1,2)]
  note a2 = get_substring_spec [OF a1(1) assms(3)]
  note a3 = get_substring_spec [OF a2(1) assms(4)]
  have a4: "howns h4 (sblk d + (sblk t + (sblk v + (sblk n + B))))" "h_ok h4 = h_ok h3" "h_next h4 \<le> Suc (h_next h3)" "h_next h3 \<le> h_next h4"
    "(\<forall>k. h_ok h3 k) \<Longrightarrow> str_of d = (if x then g 4 else None)"
    using get_substring_spec [OF a3(1), of g 4 d h4] a3(1) assms(5) by (cases x; simp)+
  show "howns h4 (sblk n + (sblk v + (sblk t + (sblk d + B))))" using a4(1) by (simp add: ac_simps)
  show ok: "h_ok h4 = h_ok h" using a1(2) a2(2) a3(2) a4(2) by simp
  show "h_next h4 \<le> h_next h + 4" "h_next h \<le> h_next h4" using a1(3,6) a2(3,6) a3(3,6) a4(3,4) by auto
  show "(\<forall>k. h_ok h k) \<longrightarrow> str_of n = g 1 \<and> str_of v = g 2 \<and> str_of t = g 3 \<and> str_of d = (if x then g 4 else None)"
    using a1(2,5) a2(2,5) a3(2,5) a4(5) by simp
qed

lemma metric_fst_block: "x \<in> set ms \<Longrightarrow> fst x \<in># sum_list (map metric_blocks ms)"
  by (induction ms) auto

lemma capture_match_spec:
  assumes inv: "mc_inv ms (add_mset k B) cap lim st" and lim: "lim + 5 < 2 ^ 64"
  shows "\<exists>ok st' ms'. capture_match k rc g st = Some (ok, st') \<and> mc_inv ms' B cap (lim + 5) st'
    \<and> (if ok then \<exists>x. ms' = ms @ [x] else ms' = ms)
    \<and> ((\<forall>n. h_ok (mc_heap st) n) \<longrightarrow> (ok \<longleftrightarrow> g 1 \<noteq> None \<and> g 2 \<noteq> None \<and> g 3 \<noteq> None \<and> length ms < cap)
        \<and> (ok \<longrightarrow> metric_text (snd (last ms')) = (the (g 1), the (g 2), the (g 3), if rc = STATSD_EXT_CAPTURE_GROUPS then g 4 else None)))
    \<and> h_ok (mc_heap st') = h_ok (mc_heap st)
    \<and> g_statsd_regex st' = g_statsd_regex st \<and> g_statsd_ext_regex st' = g_statsd_ext_regex st"
proof -
  let ?M = "sum_list (map metric_blocks ms)"
  have own: "howns (mc_heap st) (?M + add_mset k B)" "0 < h_next (mc_heap st)" "h_next (mc_heap st) \<le> lim"
    using inv by (auto elim!: mc_invD)
  obtain n h1 v h2 t h3 d h4 where q: "pcre2_substring_get_bynumber g 1 (mc_heap st) = (n, h1)"
    "pcre2_substring_get_bynumber g 2 h1 = (v, h2)" "pcre2_substring_get_bynumber g 3 h2 = (t, h3)"
    "(if rc = STATSD_EXT_CAPTURE_GROUPS then pcre2_substring_get_bynumber g 4 h3 else (None, h3)) = (d, h4)"
    by (metis surj_pair)
  note ss = substrings_spec [OF own(1) q]
  define m where "m = \<lparr>cm_name = n, cm_value = v, cm_type = t, cm_dims = d\<rparr>"
  obtain r h5 where r: "createCapturedMetric n v t d h4 = Some (r, h5)" "h_ok h5 = h_ok h4" "h_next h5 \<le> Suc (h_next h4)"
    "r = None \<and> howns h5 (?M + add_mset k B) \<or>
     (\<exists>b. r = Some (b, m) \<and> b = h_next h4 \<and> n \<noteq> None \<and> v \<noteq> None \<and> t \<noteq> None \<and> howns h5 (metric_blocks (b, m) + (?M + add_mset k B)))"
    "(\<forall>k. h_ok h4 k) \<and> n \<noteq> None \<and> v \<noteq> None \<and> t \<noteq> None \<longrightarrow> r \<noteq> None" "h_next h4 \<le> h_next h5"
    using createCapturedMetric_spec [OF ss(1), folded m_def] by blast
  have nx: "h_next (mc_heap st) \<le> h_next h5" "h_next h5 \<le> lim + 5" using ss(3,4) r(3,6) own(3) by auto
  have none: "n = None \<longleftrightarrow> g 1 = None" "v = None \<longleftrightarrow> g 2 = None" "t = None \<longleftrightarrow> g 3 = None" if "\<forall>n. h_ok (mc_heap st) n"
    using ss(5) that by (auto simp: str_of_def)
  have cm: "capture_match k rc g st = (case r of
           None \<Rightarrow> do { h \<leftarrow> h_free k h5; Some (False, st\<lparr>mc_heap := h\<rparr>) }
         | Some (b, m) \<Rightarrow> do {
             let st = st\<lparr>mc_heap := h5, mc_objs := (mc_objs st)(b \<mapsto> m)\<rparr>;
             (rc, cb, drops) \<leftarrow> cbufPut (g_metric_buf st) (word_of_nat b) (mc_drops st);
             let st = st\<lparr>g_metric_buf := cb, mc_drops := drops\<rparr>;
             st \<leftarrow> (if rc = - 1 then destroyCapturedMetric b st else Some st);
             h \<leftarrow> h_free k (mc_heap st);
             Some (rc \<noteq> - 1, st\<lparr>mc_heap := h\<rparr>) })"
    by (simp only: capture_match_def q Let_def prod.case r(1) bind.bind_lunit)
  from r(4) show ?thesis
  proof (elim disjE conjE exE)
    assume rn: "r = None" "howns h5 (?M + add_mset k B)"
    then obtain h6 where h6: "h_free k h5 = Some h6" "howns h6 (?M + B)" "h_ok h6 = h_ok h5" "h_next h6 = h_next h5"
      using free_spec [of h5 k "?M + B"] by auto
    have "capture_match k rc g st = Some (False, st\<lparr>mc_heap := h6\<rparr>)" using cm rn(1) h6(1) by simp
    moreover have "mc_inv ms B cap (lim + 5) (st\<lparr>mc_heap := h6\<rparr>)"
      by (rule mc_inv_heap [OF inv h6(2)]) (use h6 nx in auto)
    moreover have "g 1 = None \<or> g 2 = None \<or> g 3 = None" if "\<forall>n. h_ok (mc_heap st) n"
      using none that r(5) ss(2) rn(1) by auto
    ultimately show ?thesis using h6(3) r(2) ss(2) by auto
  next
    fix b
    assume b: "r = Some (b, m)" "b = h_next h4" "n \<noteq> None" "v \<noteq> None" "t \<noteq> None" "howns h5 (metric_blocks (b, m) + (?M + add_mset k B))"
    have b0: "0 < b" "b < 2 ^ 64" using b(2) ss(3,4) own(2,3) lim by auto
    have bn: "b \<notin> fst ` set ms"
      using howns_less [OF ss(1), of b] metric_fst_block [of _ ms] b(2) by (auto simp: image_iff)
    have own5: "howns h5 (?M + (metric_blocks (b, m) + add_mset k B))" using b(6) by (subst add.left_commute)
    define s1 where "s1 = st\<lparr>mc_heap := h5, mc_objs := (mc_objs st)(b \<mapsto> m)\<rparr>"
    have i1: "mc_inv ms (metric_blocks (b, m) + add_mset k B) cap (lim + 5) s1"
      using inv own5 nx bn own(2) by (auto simp: mc_inv_def s1_def image_iff split: option.splits simp del: metric_blocks.simps)
    have mb: "mc_objs s1 b = Some m" by (simp add: s1_def)
    obtain rc' cb dr where p: "cbufPut (g_metric_buf s1) (word_of_nat b) (mc_drops s1) = Some (rc', cb, dr)"
      "if length ms < cap then rc' = 0 \<and> mc_inv (ms @ [(b, m)]) (add_mset k B) cap (lim + 5) (s1\<lparr>g_metric_buf := cb, mc_drops := dr\<rparr>)
       else rc' = - 1 \<and> mc_inv ms (metric_blocks (b, m) + add_mset k B) cap (lim + 5) (s1\<lparr>g_metric_buf := cb, mc_drops := dr\<rparr>)"
      using put_metric [OF i1 mb b0 bn] by blast
    define s2 where "s2 = s1\<lparr>g_metric_buf := cb, mc_drops := dr\<rparr>"
    have keep: "mc_heap s2 = h5" "g_statsd_regex s2 = g_statsd_regex st" "g_statsd_ext_regex s2 = g_statsd_ext_regex st"
      "mc_objs s2 b = Some m" by (simp_all add: s2_def s1_def)
    have tx: "metric_text m = (the (g 1), the (g 2), the (g 3), if rc = STATSD_EXT_CAPTURE_GROUPS then g 4 else None)"
      if "\<forall>n. h_ok (mc_heap st) n" using ss(5) that by (simp add: metric_text_def m_def)
    have cm2: "capture_match k rc g st = do {
             st \<leftarrow> (if rc' = - 1 then destroyCapturedMetric b s2 else Some s2);
             h \<leftarrow> h_free k (mc_heap st);
             Some (rc' \<noteq> - 1, st\<lparr>mc_heap := h\<rparr>) }"
      unfolding cm b(1) using p(1) by (simp add: Let_def s2_def s1_def)
    show ?thesis
    proof (cases "length ms < cap")
      case True
      then have p2: "rc' = 0" "mc_inv (ms @ [(b, m)]) (add_mset k B) cap (lim + 5) s2" using p(2) by (simp_all add: s2_def)
      have "howns h5 (add_mset k (sum_list (map metric_blocks (ms @ [(b, m)])) + B))"
        using p2(2) keep(1) by (auto elim!: mc_invD)
      then obtain h6 where h6: "h_free k h5 = Some h6" "howns h6 (sum_list (map metric_blocks (ms @ [(b, m)])) + B)"
        "h_ok h6 = h_ok h5" "h_next h6 = h_next h5" by (rule free_spec)
      have "capture_match k rc g st = Some (True, s2\<lparr>mc_heap := h6\<rparr>)" using cm2 p2(1) h6(1) keep(1) by simp
      moreover have "mc_inv (ms @ [(b, m)]) B cap (lim + 5) (s2\<lparr>mc_heap := h6\<rparr>)"
        by (rule mc_inv_heap [OF p2(2) h6(2)]) (use h6 nx keep in auto)
      moreover have "g 1 \<noteq> None" "g 2 \<noteq> None" "g 3 \<noteq> None" if "\<forall>n. h_ok (mc_heap st) n" using none that b(3-5) by auto
      ultimately show ?thesis
        using tx keep(2,3) h6(3) r(2) ss(2) True
        by (intro exI [of _ True] exI [of _ "s2\<lparr>mc_heap := h6\<rparr>"] exI [of _ "ms @ [(b, m)]"]) simp
    next
      case False
      then have p2: "rc' = - 1" "mc_inv ms (metric_blocks (b, m) + add_mset k B) cap (lim + 5) s2" using p(2) by (simp_all add: s2_def)
      have "howns (mc_heap s2) (metric_blocks (b, m) + (?M + add_mset k B))" using b(6) keep(1) by simp
      then obtain h6 where h6: "destroyCapturedMetric b s2 = Some (s2\<lparr>mc_heap := h6, mc_objs := (mc_objs s2)(b := None)\<rparr>)"
        "howns h6 (?M + add_mset k B)" "h_ok h6 = h_ok h5" "h_next h6 = h_next h5"
        using destroyCapturedMetric_spec [OF keep(4)] keep(1) by metis
      from h6(2) obtain h7 where h7: "h_free k h6 = Some h7" "howns h7 (?M + B)" "h_ok h7 = h_ok h6" "h_next h7 = h_next h6"
        using free_spec [of h6 k "?M + B"] by auto
      define s3 where "s3 = s2\<lparr>mc_heap := h7, mc_objs := (mc_objs s2)(b := None)\<rparr>"
      have "capture_match k rc g st = Some (False, s3)" using cm2 p2(1) h6(1) h7(1) by (simp add: s3_def)
      moreover have "mc_inv ms B cap (lim + 5) s3"
        using p2(2) h7(2,4) h6(4) nx keep(1) bn by (auto simp: mc_inv_def s3_def image_iff split: option.splits)
      ultimately show ?thesis
        using keep(2,3) h6(3) h7(3) r(2) ss(2) False
        by (intro exI [of _ False] exI [of _ s3] exI [of _ ms]) (simp add: s3_def)
    qed
  qed
qed

text \<open>
  One payload: the call returns; the metrics on the ring are as before, or one is added whose name,
  value and type are those of the payload. When no allocation fails the payload is captured if and
  only if it contains a metric and the ring has room, with its dimensions.
\<close>

definition captured ::
  "matcher \<Rightarrow> string \<Rightarrow> (block \<times> captured_metric_t) list \<Rightarrow> nat \<Rightarrow> (nat \<Rightarrow> bool) \<Rightarrow> bool \<Rightarrow> (block \<times> captured_metric_t) list \<Rightarrow> bool" where
  "captured mt buf ms cap al ok ms' \<longleftrightarrow>
     (if ok then \<exists>x. ms' = ms @ [x] else ms' = ms)
     \<and> ((\<forall>n. al n) \<longrightarrow> (ok \<longleftrightarrow> statsd_text mt buf \<noteq> None \<and> length ms < cap)
          \<and> (ok \<longrightarrow> statsd_text mt buf = Some (metric_text (snd (last ms')))))"

lemma doMetricBuffer_spec:
  assumes inv: "mc_inv ms B cap lim st" and re: "g_statsd_regex st" "g_statsd_ext_regex st" and lim: "lim + 7 < 2 ^ 64"
  shows "\<exists>ok st' ms'. doMetricBuffer mt buf st = Some (ok, st') \<and> mc_inv ms' B cap (lim + 7) st'
    \<and> captured mt buf ms cap (h_ok (mc_heap st)) ok ms' \<and> h_ok (mc_heap st') = h_ok (mc_heap st)
    \<and> g_statsd_regex st' \<and> g_statsd_ext_regex st'"
proof -
  let ?al = "h_ok (mc_heap st)" and ?M = "sum_list (map metric_blocks ms)"
  have c: "g_metric_buf st \<noteq> None" "\<not> mc_freed st" "howns (mc_heap st) (?M + B)" "h_next (mc_heap st) \<le> lim"
    using inv by (auto elim!: mc_invD)
  obtain r h1 where r: "match_statsd mt buf (mc_heap st) = Some (r, h1)" "h_ok h1 = ?al" "h_next h1 \<le> h_next (mc_heap st) + 2"
    "h_next (mc_heap st) \<le> h_next h1" "howns h1 (match_blk r + (?M + B))" "match_ok mt buf ?al r"
    using match_statsd_spec [OF c(3)] .
  have dmb: "doMetricBuffer mt buf st = (case r of
           None \<Rightarrow> Some (False, st\<lparr>mc_heap := h1\<rparr>)
         | Some (matches, rc, groups) \<Rightarrow> capture_match matches rc groups (st\<lparr>mc_heap := h1\<rparr>))"
    using re c(1,2) r(1) by (auto simp: doMetricBuffer_def)
  obtain re ge rs gs where m: "mt STATSD_EXT buf = (re, ge)" "mt STATSD buf = (rs, gs)" by (metis surj_pair)
  show ?thesis
  proof (cases r)
    case None
    have "mc_inv ms B cap (lim + 7) (st\<lparr>mc_heap := h1\<rparr>)"
      by (rule mc_inv_heap [OF inv]) (use r c(4) None in \<open>auto simp: match_blk_def\<close>)
    moreover have "(\<forall>n. ?al n) \<longrightarrow> statsd_text mt buf = None"
      using r(6) None m by (auto simp: match_ok_def statsd_text_def)
    ultimately show ?thesis using dmb None re r(2) by (auto simp: captured_def)
  next
    case (Some x)
    obtain k rc g where x: "x = (k, rc, g)" by (metis surj_pair)
    have i2: "mc_inv ms (add_mset k B) cap (lim + 2) (st\<lparr>mc_heap := h1\<rparr>)"
      by (rule mc_inv_heap [OF inv]) (use r c(4) Some x in \<open>auto simp: match_blk_def\<close>)
    have l7: "lim + 2 + 5 = lim + 7" by simp
    have "lim + 2 + 5 < 2 ^ 64" using lim by simp
    note cs = capture_match_spec [OF i2 this, of rc g, unfolded l7]
    have e: "h_ok (mc_heap (st\<lparr>mc_heap := h1\<rparr>)) = ?al" "g_statsd_regex (st\<lparr>mc_heap := h1\<rparr>) = True"
      "g_statsd_ext_regex (st\<lparr>mc_heap := h1\<rparr>) = True" using r(2) re by simp_all
    obtain ok st' ms' where s:
      "capture_match k rc g (st\<lparr>mc_heap := h1\<rparr>) = Some (ok, st')" "mc_inv ms' B cap (lim + 7) st'"
      "if ok then \<exists>x. ms' = ms @ [x] else ms' = ms"
      "(\<forall>n. ?al n) \<longrightarrow> (ok \<longleftrightarrow> g 1 \<noteq> None \<and> g 2 \<noteq> None \<and> g 3 \<noteq> None \<and> length ms < cap)
        \<and> (ok \<longrightarrow> metric_text (snd (last ms')) = (the (g 1), the (g 2), the (g 3), if rc = STATSD_EXT_CAPTURE_GROUPS then g 4 else None))"
      "h_ok (mc_heap st') = ?al" "g_statsd_regex st'" "g_statsd_ext_regex st'"
      using cs unfolding e by blast
    have t: "statsd_text mt buf = do { n \<leftarrow> g 1; v \<leftarrow> g 2; t \<leftarrow> g 3; Some (n, v, t, if rc = STATSD_EXT_CAPTURE_GROUPS then g 4 else None) }"
      using r(6) Some x m by (auto simp: match_ok_def statsd_text_def STATSD_EXT_CAPTURE_GROUPS_def STATSD_CAPTURE_GROUPS_def split: if_splits)
    have "captured mt buf ms cap ?al ok ms'"
      using s(3,4) by (auto simp: captured_def t)
    then show ?thesis using dmb Some x s by auto
  qed
qed

section \<open>From payloads to reports\<close>

text \<open>A sequence of intercepted calls.\<close>

fun capture_all :: "matcher \<Rightarrow> capture_data list \<Rightarrow> mcap \<Rightarrow> mcap option" where
  "capture_all mt [] st = Some st"
| "capture_all mt (d # ds) st = do { (_, st) \<leftarrow> doMetricCapture mt d st; capture_all mt ds st }"

text \<open>The metric a call contributes: that of its first vector with one.\<close>

fun first_text :: "matcher \<Rightarrow> string option list \<Rightarrow> metric_text option" where
  "first_text mt [] = None"
| "first_text mt (v # vs) = (case v of
       None \<Rightarrow> first_text mt vs
     | Some b \<Rightarrow> if b = [] \<or> statsd_text mt b = None then first_text mt vs else statsd_text mt b)"

definition data_text :: "matcher \<Rightarrow> capture_data \<Rightarrow> metric_text option" where
  "data_text mt d = (case d of BUF b \<Rightarrow> statsd_text mt b | MSG vs \<Rightarrow> first_text mt vs | IOV vs \<Rightarrow> first_text mt vs | NONE \<Rightarrow> None)"

definition vectors :: "capture_data \<Rightarrow> nat" where
  "vectors d = (case d of BUF b \<Rightarrow> 1 | MSG vs \<Rightarrow> length vs | IOV vs \<Rightarrow> length vs | NONE \<Rightarrow> 0)"

text \<open>The texts of the metrics on the ring after a step that offers \<open>v\<close>.\<close>

definition offered :: "nat \<Rightarrow> metric_text list \<Rightarrow> metric_text option \<Rightarrow> metric_text list" where
  "offered cap ts v = (case v of None \<Rightarrow> ts | Some t \<Rightarrow> if length ts < cap then ts @ [t] else ts)"

definition texts :: "(block \<times> captured_metric_t) list \<Rightarrow> metric_text list" where
  "texts ms = map (\<lambda>x. metric_text (snd x)) ms"

definition mc_step :: "nat \<Rightarrow> nat \<Rightarrow> block multiset \<Rightarrow> nat \<Rightarrow> metric_text option \<Rightarrow> (block \<times> captured_metric_t) list \<Rightarrow> mcap
    \<Rightarrow> (block \<times> captured_metric_t) list \<Rightarrow> mcap \<Rightarrow> bool" where
  "mc_step cap lim B n v ms st ms' st' \<longleftrightarrow> mc_inv ms' B cap (lim + 7 * n) st' \<and> h_ok (mc_heap st') = h_ok (mc_heap st)
     \<and> g_statsd_regex st' \<and> g_statsd_ext_regex st'
     \<and> ((\<forall>n. h_ok (mc_heap st) n) \<longrightarrow> texts ms' = offered cap (texts ms) v)"

lemma doMetricBuffer_step:
  assumes "mc_inv ms B cap lim st" "g_statsd_regex st" "g_statsd_ext_regex st" "lim + 7 < 2 ^ 64"
  shows "\<exists>ok st' ms'. doMetricBuffer mt buf st = Some (ok, st') \<and> mc_step cap lim B 1 (statsd_text mt buf) ms st ms' st'
    \<and> ((\<forall>n. h_ok (mc_heap st) n) \<longrightarrow> (ok \<longleftrightarrow> statsd_text mt buf \<noteq> None \<and> length ms < cap))"
proof -
  obtain ok st' ms' where d: "doMetricBuffer mt buf st = Some (ok, st')" "mc_inv ms' B cap (lim + 7) st'"
    "captured mt buf ms cap (h_ok (mc_heap st)) ok ms'" "h_ok (mc_heap st') = h_ok (mc_heap st)"
    "g_statsd_regex st'" "g_statsd_ext_regex st'"
    using doMetricBuffer_spec [OF assms] by blast
  have "texts ms' = offered cap (texts ms) (statsd_text mt buf)" if al: "\<forall>n. h_ok (mc_heap st) n"
  proof (cases ok)
    case True
    then obtain x where x: "ms' = ms @ [x]" using d(3) by (auto simp: captured_def)
    have "statsd_text mt buf = Some (metric_text (snd x))" "length ms < cap"
      using d(3) True al by (simp_all add: captured_def x)
    then show ?thesis by (simp add: x texts_def offered_def)
  next
    case False
    then show ?thesis using d(3) al by (auto simp: captured_def texts_def offered_def split: option.splits)
  qed
  moreover have "ok \<longleftrightarrow> statsd_text mt buf \<noteq> None \<and> length ms < cap" if "\<forall>n. h_ok (mc_heap st) n"
    using d(3) that by (simp add: captured_def)
  ultimately show ?thesis using d by (auto simp: mc_step_def)
qed

lemma offered_full: "length ts = cap \<Longrightarrow> offered cap ts v = ts"
  by (simp add: offered_def split: option.split)

lemma mc_inv_length: "mc_inv ms B cap lim st \<Longrightarrow> length ms \<le> cap"
  by (elim mc_invD) (metis length_map ring.bounded)

lemma mc_inv_mono: "mc_inv ms B cap lim st \<Longrightarrow> lim \<le> lim' \<Longrightarrow> mc_inv ms B cap lim' st"
  by (auto simp: mc_inv_def split: option.splits)

lemma capture_vectors_done: "capture_vectors mt vs True st = Some (True, st)"
  by (induction vs) (auto split: option.split)

lemma capture_vectors_step:
  assumes "mc_inv ms B cap lim st" "g_statsd_regex st" "g_statsd_ext_regex st" "lim + 7 * length vs < 2 ^ 64"
  shows "\<exists>ok st' ms'. capture_vectors mt vs False st = Some (ok, st') \<and> mc_step cap lim B (length vs) (first_text mt vs) ms st ms' st'"
  using assms
proof (induction vs arbitrary: ms lim st)
  case Nil
  then show ?case by (auto simp: mc_step_def offered_def intro!: exI [of _ ms])
next
  case (Cons v vs)
  have skip: ?case if "capture_vectors mt (v # vs) False st = capture_vectors mt vs False st" "first_text mt (v # vs) = first_text mt vs"
  proof -
    obtain ok st' ms' where "capture_vectors mt vs False st = Some (ok, st')" "mc_step cap lim B (length vs) (first_text mt vs) ms st ms' st'"
      using Cons.IH [of ms lim st] Cons.prems by auto
    moreover from this(2) have "mc_step cap lim B (length (v # vs)) (first_text mt (v # vs)) ms st ms' st'"
      using that(2) by (auto simp: mc_step_def intro: mc_inv_mono)
    ultimately show ?case using that(1) by (intro exI conjI) simp_all
  qed
  show ?case
  proof (cases "v = None \<or> v = Some []")
    case True
    then show ?thesis by (intro skip) auto
  next
    case False
    then obtain b where v: "v = Some b" "b \<noteq> []" by auto
    have l: "lim + 7 < 2 ^ 64" using Cons.prems(4) by simp
    obtain ok st1 ms1 where d: "doMetricBuffer mt b st = Some (ok, st1)" "mc_step cap lim B 1 (statsd_text mt b) ms st ms1 st1"
      "(\<forall>n. h_ok (mc_heap st) n) \<longrightarrow> (ok \<longleftrightarrow> statsd_text mt b \<noteq> None \<and> length ms < cap)"
      using doMetricBuffer_step [OF Cons.prems(1-3) l] by blast
    have e: "capture_vectors mt (v # vs) False st = capture_vectors mt vs ok st1" using d(1) v by simp
    show ?thesis
    proof (cases ok)
      case True
      have "mc_step cap lim B (length (v # vs)) (first_text mt (v # vs)) ms st ms1 st1"
        using d(2,3) True v by (auto simp: mc_step_def intro: mc_inv_mono)
      then show ?thesis using e True capture_vectors_done by (intro exI conjI) simp_all
    next
      case False
      have i1: "mc_inv ms1 B cap (lim + 7) st1" "g_statsd_regex st1" "g_statsd_ext_regex st1" "h_ok (mc_heap st1) = h_ok (mc_heap st)"
        using d(2) by (simp_all add: mc_step_def)
      from Cons.IH [OF i1(1-3)] Cons.prems(4) obtain ok' st' ms' where
        r: "capture_vectors mt vs False st1 = Some (ok', st')" "mc_step cap (lim + 7) B (length vs) (first_text mt vs) ms1 st1 ms' st'" by auto
      have "texts ms' = offered cap (texts ms) (first_text mt (v # vs))" if al: "\<forall>n. h_ok (mc_heap st) n"
      proof -
        have t: "texts ms1 = offered cap (texts ms) (statsd_text mt b)" "texts ms' = offered cap (texts ms1) (first_text mt vs)"
          using d(2) r(2) al i1(4) by (simp_all add: mc_step_def)
        have n: "statsd_text mt b = None \<or> length (texts ms) = cap"
          using d(3) al False mc_inv_length [OF Cons.prems(1)] by (cases "statsd_text mt b") (auto simp: texts_def)
        then have "texts ms1 = texts ms" using t(1) by (auto simp: offered_def split: option.splits)
        then show ?thesis using t(2) n v by (auto simp: offered_full)
      qed
      then have "mc_step cap lim B (length (v # vs)) (first_text mt (v # vs)) ms st ms' st'"
        using r(2) i1(4) by (auto simp: mc_step_def ac_simps)
      then show ?thesis using e False r(1) by (intro exI conjI) simp_all
    qed
  qed
qed

lemma doMetricCapture_step:
  assumes "mc_inv ms B cap lim st" "g_statsd_regex st" "g_statsd_ext_regex st" "lim + 7 * vectors d < 2 ^ 64"
  shows "\<exists>ok st' ms'. doMetricCapture mt d st = Some (ok, st') \<and> mc_step cap lim B (vectors d) (data_text mt d) ms st ms' st'"
proof (cases d)
  case (BUF b)
  then have l: "lim + 7 < 2 ^ 64" using assms(4) by (simp add: vectors_def)
  show ?thesis
    using doMetricBuffer_step [OF assms(1-3) l, of mt b] by (auto simp: BUF doMetricCapture_def vectors_def data_text_def)
next
  case NONE
  then show ?thesis using assms by (auto simp: doMetricCapture_def vectors_def data_text_def mc_step_def offered_def intro!: exI [of _ ms])
qed (use capture_vectors_step [OF assms(1-3)] assms(4) in \<open>auto simp: doMetricCapture_def vectors_def data_text_def\<close>)

lemma capture_all_inv:
  assumes "mc_inv ms B cap lim st" "g_statsd_regex st" "g_statsd_ext_regex st" "lim + 7 * sum_list (map vectors ds) < 2 ^ 64"
  shows "\<exists>st' ms' lim'. capture_all mt ds st = Some st' \<and> mc_inv ms' B cap lim' st'
    \<and> ((\<forall>n. h_ok (mc_heap st) n) \<longrightarrow> texts ms' = take cap (texts ms @ List.map_filter (data_text mt) ds))"
  using assms
proof (induction ds arbitrary: ms lim st)
  case Nil
  then show ?case using mc_inv_length [OF Nil(1)] by (auto simp: texts_def)
next
  case (Cons d ds)
  have l: "lim + 7 * vectors d < 2 ^ 64" using Cons.prems(4) by simp
  obtain ok st1 ms1 where d: "doMetricCapture mt d st = Some (ok, st1)" "mc_step cap lim B (vectors d) (data_text mt d) ms st ms1 st1"
    using doMetricCapture_step [OF Cons.prems(1-3) l] by blast
  have i1: "mc_inv ms1 B cap (lim + 7 * vectors d) st1" "g_statsd_regex st1" "g_statsd_ext_regex st1"
    "h_ok (mc_heap st1) = h_ok (mc_heap st)" using d(2) by (simp_all add: mc_step_def)
  have l1: "lim + 7 * vectors d + 7 * sum_list (map vectors ds) < 2 ^ 64" using Cons.prems(4) by (simp add: algebra_simps)
  obtain st' ms' lim' where r: "capture_all mt ds st1 = Some st'" "mc_inv ms' B cap lim' st'"
    "(\<forall>n. h_ok (mc_heap st1) n) \<longrightarrow> texts ms' = take cap (texts ms1 @ List.map_filter (data_text mt) ds)"
    using Cons.IH [OF i1(1-3) l1] by blast
  have "texts ms' = take cap (texts ms @ List.map_filter (data_text mt) (d # ds))" if al: "\<forall>n. h_ok (mc_heap st) n"
  proof -
    have t: "texts ms1 = offered cap (texts ms) (data_text mt d)" "texts ms' = take cap (texts ms1 @ List.map_filter (data_text mt) ds)"
      using d(2) r(3) al i1(4) by (simp_all add: mc_step_def)
    have "length (texts ms) \<le> cap" using mc_inv_length [OF Cons.prems(1)] by (simp add: texts_def)
    then show ?thesis using t by (auto simp: offered_def take_Cons' split: option.splits)
  qed
  then show ?case using d(1) r(1,2) by auto
qed

lemma report_all:
  assumes "mc_inv ms B cap lim st"
  shows "\<exists>st'. reportAllCapturedMetrics d st = Some (map snd ms, st') \<and> howns (mc_heap st') B"
proof -
  obtain c where "g_metric_buf st = Some c" "\<not> mc_freed st" using assms by (rule mc_invD)
  moreover obtain st' where "report_captured d st = Some (map snd ms, st')" "mc_inv [] B cap lim st'"
    using report_captured_all [OF assms] by blast
  moreover from this(2) have "howns (mc_heap st') B" by (auto elim!: mc_invD)
  ultimately show ?thesis by (simp add: reportAllCapturedMetrics_def)
qed

text \<open>The globals when the library is loaded.\<close>

definition mcap0 :: "heap \<Rightarrow> mcap" where
  "mcap0 h = \<lparr>g_statsd_regex = False, g_statsd_ext_regex = False, g_metric_buf = None, mc_freed = False,
     mc_objs = (\<lambda>_. None), mc_heap = h, mc_drops = 0\<rparr>"

lemma init_inv:
  assumes "unat (queue_length strtoul q) < 2 ^ 31 - 1" "howns h B" "0 < h_next h"
  shows "mc_inv [] B (unat (queue_length strtoul q)) (h_next h) (initMetricCapture True True True True strtoul q (mcap0 h))"
proof -
  obtain c where "cbufInit True True (queue_length strtoul q) = Some c" "cb_inv c" "cb_list c = []" "cb_cap c = unat (queue_length strtoul q)"
    using cbufInit_small [OF assms(1)] by blast
  then show ?thesis using assms(2,3) by (intro mc_invI [of _ c]) (simp_all add: initMetricCapture_def mcap0_def)
qed

text \<open>
  C39. Whatever payloads the intercepted calls carry, and whatever allocations fail, the captures and
  the reporting loop return, and afterwards every block they allocated is free again. When no
  allocation fails, the metrics reported are exactly those of the payloads, once each and in the
  order of the calls, up to the length of the queue; none is left behind.
\<close>

theorem captured_metrics_reported:
  assumes "unat (queue_length strtoul q) < 2 ^ 31 - 1" "howns h B" "0 < h_next h"
    "h_next h + 7 * sum_list (map vectors ds) < 2 ^ 64"
  shows "\<exists>st rep st'. capture_all mt ds (initMetricCapture True True True True strtoul q (mcap0 h)) = Some st
    \<and> reportAllCapturedMetrics d st = Some (rep, st') \<and> howns (mc_heap st') B
    \<and> ((\<forall>n. h_ok h n) \<longrightarrow> map metric_text rep = take (unat (queue_length strtoul q)) (List.map_filter (data_text mt) ds))"
proof -
  let ?s = "initMetricCapture True True True True strtoul q (mcap0 h)"
  have s: "g_statsd_regex ?s" "g_statsd_ext_regex ?s" "h_ok (mc_heap ?s) = h_ok h" by (simp_all add: initMetricCapture_def mcap0_def)
  obtain st ms lim where c: "capture_all mt ds ?s = Some st" "mc_inv ms B (unat (queue_length strtoul q)) lim st"
    "(\<forall>n. h_ok h n) \<longrightarrow> texts ms = take (unat (queue_length strtoul q)) (List.map_filter (data_text mt) ds)"
    using capture_all_inv [OF init_inv [OF assms(1-3)] s(1,2) assms(4), of mt] s(3) by (auto simp: texts_def)
  then show ?thesis using report_all [OF c(2), of d] by (auto simp: texts_def comp_def)
qed

definition sample_matcher :: matcher where
  "sample_matcher re buf = (if re = STATSD \<and> buf = ''a:1|c'' then (4, \<lambda>n. if n = 1 then Some ''a'' else if n = 2 then Some ''1'' else Some ''c'')
     else (- 1, \<lambda>_. None))"

lemma heap0_next: "h_next (heap0 al) = 1" "h_ok (heap0 al) = al"
  by (simp_all add: h_next_def heap0_def am_empty_def)

theorem captured_metrics_reported_witness:
  "\<exists>st rep st'. capture_all sample_matcher [BUF ''a:1|c'', NONE, BUF ''GET'', IOV [None, Some ''x'', Some ''a:1|c'']]
      (initMetricCapture True True True True (\<lambda>_. (7, False)) (Some ''7'') (mcap0 (heap0 (\<lambda>_. True)))) = Some st
    \<and> reportAllCapturedMetrics 0 st = Some (rep, st') \<and> howns (mc_heap st') {#}
    \<and> map metric_text rep = [(''a'', ''1'', ''c'', None), (''a'', ''1'', ''c'', None)]"
  using captured_metrics_reported [of "\<lambda>_. (7, False)" "Some ''7''" "heap0 (\<lambda>_. True)" "{#}"
      "[BUF ''a:1|c'', NONE, BUF ''GET'', IOV [None, Some ''x'', Some ''a:1|c'']]" sample_matcher 0]
  by (simp add: queue_length_def heap0_next vectors_def data_text_def statsd_text_def
      sample_matcher_def STATSD_CAPTURE_GROUPS_def STATSD_EXT_CAPTURE_GROUPS_def del: capture_all.simps)

end
