(* ===== verification/Stackpool.thy ===== *)
theory Stackpool
  imports Atomic Alloc
begin

text \<open>
  The pool of stacks for the regular expression matcher (\<^verbatim>\<open>src/com.c\<close>), used by all intercepted threads at
  once. A thread's program counter stands before one access to the pool or the heap; one step
  performs it. The step of a thread is a function (\<open>None\<close> for a use of memory that is not live or an
  index outside the pool); the scheduler lets any thread move, with the allocator answering as it
  likes. A stack is a heap block.
\<close>

section \<open>The pool and one thread's steps\<close>











section \<open>Who holds what\<close>














section \<open>Kinds of steps\<close>
















section \<open>Every step keeps the invariant\<close>










end
