(* ===== verification/Spec2Isabelle.thy ===== *)
theory Spec2Isabelle
  imports Circbuf_Threads Linklist Strsearch Backoff Httpmatch Httpagg Mtcformat Evtutils Cfg_Props Httpsafe Javaprops Cjson_Round Metriccapture Stackpool
begin

text \<open>
  AppView: verification of the library's core.
\<close>

end
